(* ===== verification/Sse_Parser.thy ===== *)
theory Sse_Parser
  imports Kvmux_Prelude
begin

text \<open>
  The incremental Server-Sent-Events parser (\<^verbatim>\<open>src/upstream/sse_parser.hpp\<close>,
  \<^verbatim>\<open>src/upstream/sse_parser.cpp\<close>): its state, its operations, a specification that reads a
  whole text at once (lines, blocks, events), and the lemma that the incremental parser computes
  exactly that whatever the chunking.  The callback \<open>on_event\<close> is the list of events returned,
  in call order.
\<close>

section \<open>State and operations\<close>

record sse_event =
  ev_data :: string
  ev_event :: string

definition is_done :: "sse_event \<Rightarrow> bool" where
  "is_done ev = (ev_data ev = ''[DONE]'')"

record sse_parser =
  line_buf :: string
  cur_data :: string
  cur_event :: string
  have_field :: bool

definition init_parser :: sse_parser where
  "init_parser = \<lparr>line_buf = [], cur_data = [], cur_event = [], have_field = False\<rparr>"

definition buffered :: "sse_parser \<Rightarrow> nat" where
  "buffered p = length (line_buf p) + length (cur_data p)"

definition strip_leading_space :: "string \<Rightarrow> string" where
  "strip_leading_space v = (if v \<noteq> [] \<and> hd v = CHR '' '' then tl v else v)"

text \<open>The \<open>remove_suffix(1)\<close> of a line that ends in CR, in \<open>feed\<close> and in \<open>flush\<close>.\<close>

definition drop_trailing_cr :: "string \<Rightarrow> string" where
  "drop_trailing_cr l = (if l \<noteq> [] \<and> last l = CR then butlast l else l)"

definition dispatch :: "sse_parser \<Rightarrow> sse_parser \<times> sse_event list" where
  "dispatch p =
     (if \<not> have_field p then (p, [])
      else (p\<lparr>cur_data := [], cur_event := [], have_field := False\<rparr>,
            [\<lparr>ev_data = cur_data p, ev_event = cur_event p\<rparr>]))"

definition line_field :: "string \<Rightarrow> string" where
  "line_field l = (case find_char CHR '':'' l of None \<Rightarrow> l | Some i \<Rightarrow> take i l)"

definition line_value :: "string \<Rightarrow> string" where
  "line_value l = strip_leading_space
     (case find_char CHR '':'' l of None \<Rightarrow> [] | Some i \<Rightarrow> drop (i + 1) l)"

definition process_line :: "string \<Rightarrow> sse_parser \<Rightarrow> sse_parser \<times> sse_event list" where
  "process_line line p =
     (if line = [] then dispatch p
      else if hd line = CHR '':'' then (p, [])
      else
        let field = line_field line; value = line_value line;
            p1 = p\<lparr>have_field := True\<rparr>
        in if field = ''data'' then
             (p1\<lparr>cur_data := (if cur_data p1 \<noteq> [] then cur_data p1 @ [LF] else cur_data p1) @ value\<rparr>, [])
           else if field = ''event'' then (p1\<lparr>cur_event := value\<rparr>, [])
           else (p1, []))"

fun feed :: "sse_parser \<Rightarrow> string \<Rightarrow> sse_parser \<times> sse_event list" where
  "feed p [] = (p, [])"
| "feed p (c # cs) =
     (if c = LF then
        let (p1, es) = process_line (drop_trailing_cr (line_buf p)) p;
            (p2, es') = feed (p1\<lparr>line_buf := []\<rparr>) cs
        in (p2, es @ es')
      else feed (p\<lparr>line_buf := line_buf p @ [c]\<rparr>) cs)"

text \<open>The third component is the return value of \<open>flush\<close>.\<close>

definition flush :: "sse_parser \<Rightarrow> sse_parser \<times> sse_event list \<times> bool" where
  "flush p =
     (let (p1, es) =
        (if line_buf p \<noteq> [] then
           let (q, es) = process_line (drop_trailing_cr (line_buf p)) p
           in (q\<lparr>line_buf := []\<rparr>, es)
         else (p, []))
      in if have_field p1 then let (p2, es') = dispatch p1 in (p2, es @ es', True)
         else (p1, es, False))"

text \<open>The reads of a connection: one \<open>feed\<close> per chunk, as \<open>stream_chat\<close> makes them.\<close>

fun feed_chunks :: "sse_parser \<Rightarrow> string list \<Rightarrow> sse_parser \<times> sse_event list" where
  "feed_chunks p [] = (p, [])"
| "feed_chunks p (c # cs) =
     (let (p1, es) = feed p c; (p2, es') = feed_chunks p1 cs in (p2, es @ es'))"

section \<open>Chunking does not matter\<close>

lemma feed_append:
  "feed p (a @ b) =
     (let (p1, es) = feed p a; (p2, es') = feed p1 b in (p2, es @ es'))"
  by (induction p a rule: feed.induct) (auto simp: Let_def split: prod.splits)

lemma feed_chunks_concat: "feed_chunks p cs = feed p (concat cs)"
  by (induction p cs rule: feed_chunks.induct) (auto simp: feed_append Let_def split: prod.splits)

section \<open>Specification: lines, blocks, events\<close>

text \<open>
  The lines of a text that follow an already buffered piece \<open>b\<close> (each without its LF), and the
  unterminated rest; the blocks of non-blank lines closed by a blank line, and the open block.
\<close>

fun split_lines :: "string \<Rightarrow> string \<Rightarrow> string list \<times> string" where
  "split_lines b [] = ([], b)"
| "split_lines b (c # cs) =
     (if c = LF then let (ls, r) = split_lines [] cs in (b # ls, r)
      else split_lines (b @ [c]) cs)"

fun split_blocks :: "string list \<Rightarrow> string list \<Rightarrow> string list list \<times> string list" where
  "split_blocks blk [] = ([], blk)"
| "split_blocks blk (l # ls) =
     (if l = [] then let (bs, r) = split_blocks [] ls in (blk # bs, r)
      else split_blocks (blk @ [l]) ls)"

definition field_lines :: "string list \<Rightarrow> string list" where
  "field_lines blk = filter (\<lambda>l. hd l \<noteq> CHR '':'') blk"

definition values_of :: "string \<Rightarrow> string list \<Rightarrow> string list" where
  "values_of name blk = map line_value (filter (\<lambda>l. line_field l = name) (field_lines blk))"

fun join_lf :: "string list \<Rightarrow> string" where
  "join_lf [] = []"
| "join_lf [v] = v"
| "join_lf (v # vs) = v @ LF # join_lf vs"

text \<open>
  The data of a block: its \<open>data\<close> values joined by LF, where empty values before the first
  non-empty one leave no LF behind.
\<close>

definition block_data :: "string list \<Rightarrow> string" where
  "block_data blk = join_lf (dropWhile (\<lambda>v. v = []) (values_of ''data'' blk))"

definition block_event :: "string list \<Rightarrow> string" where
  "block_event blk = (let vs = values_of ''event'' blk in if vs = [] then [] else last vs)"

definition event_of_block :: "string list \<Rightarrow> sse_event list" where
  "event_of_block blk =
     (if field_lines blk = [] then []
      else [\<lparr>ev_data = block_data blk, ev_event = block_event blk\<rparr>])"

definition parser_of :: "string list \<Rightarrow> string \<Rightarrow> sse_parser" where
  "parser_of blk rest =
     \<lparr>line_buf = rest, cur_data = block_data blk, cur_event = block_event blk,
      have_field = (field_lines blk \<noteq> [])\<rparr>"

definition sse_spec :: "string \<Rightarrow> sse_parser \<times> sse_event list" where
  "sse_spec text =
     (let (ls, rest) = split_lines [] text;
          (bs, blk) = split_blocks [] (map drop_trailing_cr ls)
      in (parser_of blk rest, concat (map event_of_block bs)))"

section \<open>The parser implements the specification\<close>

lemma process_line_line_buf [frame_simps]:
  "line_buf (fst (process_line l p)) = line_buf p"
  by (simp add: process_line_def dispatch_def Let_def)

lemma process_line_buf_irrelevant:
  "process_line l (p\<lparr>line_buf := b\<rparr>) =
     (let (q, es) = process_line l p in (q\<lparr>line_buf := b\<rparr>, es))"
  by (simp add: process_line_def dispatch_def Let_def)

fun run_lines :: "sse_parser \<Rightarrow> string list \<Rightarrow> sse_parser \<times> sse_event list" where
  "run_lines p [] = (p, [])"
| "run_lines p (l # ls) =
     (let (p1, es) = process_line l p; (p2, es') = run_lines p1 ls in (p2, es @ es'))"

lemma run_lines_buf_irrelevant:
  "run_lines (p\<lparr>line_buf := b\<rparr>) ls = (let (q, es) = run_lines p ls in (q\<lparr>line_buf := b\<rparr>, es))"
  by (induction ls arbitrary: p)
     (auto simp: process_line_buf_irrelevant Let_def split: prod.splits)

lemma feed_run_lines:
  "feed p s =
     (let (ls, r) = split_lines (line_buf p) s;
          (q, es) = run_lines p (map drop_trailing_cr ls)
      in (q\<lparr>line_buf := r\<rparr>, es))"
proof (induction p s rule: feed.induct)
  case (2 p c cs)
  show ?case
  proof (cases "c = LF")
    case True
    obtain p1 es where 1: "process_line (drop_trailing_cr (line_buf p)) p = (p1, es)"
      by fastforce
    with "2.IH"(1) [OF True 1 [symmetric]] True show ?thesis
      by (auto simp: Let_def run_lines_buf_irrelevant split: prod.splits)
  next
    case False
    with "2.IH"(2) [OF False] show ?thesis
      by (auto simp: Let_def run_lines_buf_irrelevant split: prod.splits)
  qed
qed simp

lemma join_lf_snoc: "vs \<noteq> [] \<Longrightarrow> join_lf (vs @ [v]) = join_lf vs @ LF # v"
  by (induction vs rule: join_lf.induct) auto

lemma join_dropWhile_snoc:
  "join_lf (dropWhile (\<lambda>v. v = []) (vs @ [v])) =
     (let d = join_lf (dropWhile (\<lambda>v. v = []) vs)
      in (if d \<noteq> [] then d @ [LF] else d) @ v)"
proof (induction vs)
  case (Cons u vs)
  show ?case
  proof (cases "u = []")
    case False
    then have "join_lf (u # vs) \<noteq> []" by (cases vs) auto
    with False show ?thesis using join_lf_snoc [of "u # vs" v] by simp
  qed (use Cons in simp)
qed simp

lemma field_lines_snoc:
  "field_lines (blk @ [l]) = field_lines blk @ (if hd l \<noteq> CHR '':'' then [l] else [])"
  by (simp add: field_lines_def)

lemma values_of_snoc:
  "values_of name (blk @ [l]) =
     values_of name blk @ (if hd l \<noteq> CHR '':'' \<and> line_field l = name then [line_value l] else [])"
  by (simp add: values_of_def field_lines_snoc)

lemma process_line_block:
  "l \<noteq> [] \<Longrightarrow> process_line l (parser_of blk r) = (parser_of (blk @ [l]) r, [])"
  by (simp add: process_line_def parser_of_def block_data_def block_event_def values_of_snoc
      field_lines_snoc join_dropWhile_snoc Let_def)

lemma block_no_fields:
  "field_lines blk = [] \<Longrightarrow> block_data blk = [] \<and> block_event blk = []"
  by (simp add: block_data_def block_event_def values_of_def)

lemma field_lines_Nil [simp]: "field_lines [] = []"
  by (simp add: field_lines_def)

lemma process_blank_block:
  "process_line [] (parser_of blk r) = (parser_of [] r, event_of_block blk)"
  by (auto simp: process_line_def dispatch_def parser_of_def event_of_block_def block_no_fields)

lemma run_lines_blocks:
  "run_lines (parser_of blk r) ls =
     (let (bs, blk') = split_blocks blk ls in (parser_of blk' r, concat (map event_of_block bs)))"
  by (induction blk ls rule: split_blocks.induct)
     (auto simp: process_line_block process_blank_block Let_def split: prod.splits)

lemma init_parser_of: "init_parser = parser_of [] []"
  by (simp add: init_parser_def parser_of_def block_no_fields)

lemma parser_of_line_buf [simp]:
  "parser_of blk r\<lparr>line_buf := r'\<rparr> = parser_of blk r'" "line_buf (parser_of blk r) = r"
  by (simp_all add: parser_of_def)

lemma feed_init_spec: "feed init_parser s = sse_spec s"
  unfolding feed_run_lines sse_spec_def
  by (auto simp: init_parser_of run_lines_blocks split: prod.splits)

section \<open>Bytes are conserved\<close>

lemma drop_trailing_cr_length: "length (drop_trailing_cr l) \<le> length l"
  by (simp add: drop_trailing_cr_def)

lemma line_value_length:
  assumes "line_field l = ''data''"
  shows "length (line_value l) + 4 \<le> length l"
proof (cases "find_char CHR '':'' l")
  case None
  with assms show ?thesis by (simp add: line_field_def line_value_def strip_leading_space_def)
next
  case (Some i)
  with assms have "take i l = ''data''" by (simp add: line_field_def)
  then have "length (take i l) = 4" by simp
  moreover have "i < length l" using find_char_SomeD [OF Some] by simp
  ultimately have "i = 4" "4 < length l" by auto
  then show ?thesis using Some by (auto simp: line_value_def strip_leading_space_def)
qed

definition pending_bytes :: "sse_parser \<Rightarrow> sse_event list \<Rightarrow> nat" where
  "pending_bytes p es = length (cur_data p) + sum_list (map (length \<circ> ev_data) es)"

lemma process_line_bytes:
  "process_line l p = (q, es) \<Longrightarrow> pending_bytes q es \<le> length (cur_data p) + length l"
  using line_value_length [of l]
  by (auto simp: process_line_def dispatch_def pending_bytes_def Let_def split: if_splits)

lemma feed_bytes:
  "feed p s = (q, es) \<Longrightarrow> length (line_buf q) + pending_bytes q es \<le> buffered p + length s"
proof (induction p s arbitrary: q es rule: feed.induct)
  case (2 p c cs)
  show ?case
  proof (cases "c = LF")
    case True
    obtain p1 es1 where 1: "process_line (drop_trailing_cr (line_buf p)) p = (p1, es1)"
      by fastforce
    obtain p2 es2 where 2: "feed (p1\<lparr>line_buf := []\<rparr>) cs = (p2, es2)" by fastforce
    from 1 2 True "2.prems" have q: "q = p2" "es = es1 @ es2" by auto
    have "pending_bytes p1 es1 \<le> buffered p"
      using process_line_bytes [OF 1] drop_trailing_cr_length [of "line_buf p"]
      by (simp add: buffered_def)
    then show ?thesis
      using "2.IH"(1) [OF True 1 [symmetric] refl 2] q
      by (simp add: buffered_def pending_bytes_def)
  next
    case False
    with "2.IH"(2) [OF False] "2.prems" show ?thesis by (auto simp: buffered_def)
  qed
qed (auto simp: buffered_def pending_bytes_def)

section \<open>End of stream\<close>

lemma flush_as_blank_lines:
  "flush p = (q, es, b) \<Longrightarrow> feed p [LF, LF] = (q, es)"
  by (auto simp: flush_def process_line_def [of "[]"] dispatch_def Let_def frame_simps
      drop_trailing_cr_def split: prod.splits if_splits)

text \<open>An event can only come from a blank line, so \<open>flush\<close> reports exactly its last dispatch.\<close>

lemma process_line_emits: "l \<noteq> [] \<Longrightarrow> snd (process_line l p) = []"
  by (simp add: process_line_def Let_def)

lemma drop_trailing_cr_empty: "drop_trailing_cr l = [] \<longleftrightarrow> l = [] \<or> l = [CR]"
  by (cases l rule: rev_cases) (auto simp: drop_trailing_cr_def)

lemma flush_result:
  assumes "flush p = (q, es, b)"
  shows "b \<longleftrightarrow> es \<noteq> [] \<and> line_buf p \<noteq> [CR]"
proof (cases "line_buf p = [] \<or> line_buf p = [CR]")
  case True
  with assms show ?thesis
    by (auto simp: flush_def process_line_def dispatch_def drop_trailing_cr_def Let_def
        split: if_splits)
next
  case False
  then have "snd (process_line (drop_trailing_cr (line_buf p)) p) = []"
    by (simp add: process_line_emits drop_trailing_cr_empty)
  with False assms show ?thesis
    by (auto simp: flush_def dispatch_def Let_def split: prod.splits if_splits)
qed

section \<open>Properties\<close>


text \<open>
  ending the stream with \<open>flush\<close> emits what the text would have emitted had the server closed
  its last event properly (a line end and a blank line), whatever was buffered.
\<close>

theorem feed_flush_spec:
  "feed_chunks init_parser cs = (p, es) \<Longrightarrow> flush p = (q, es', b) \<Longrightarrow>
     sse_spec (concat cs @ [LF, LF]) = (q, es @ es')"
  using flush_as_blank_lines [of p q es' b]
  by (simp add: feed_append feed_chunks_concat flip: feed_init_spec)

theorem feed_flush_spec_witness:
  "sse_spec (concat [''data: a'', ''b''] @ [LF, LF]) =
     (init_parser, [] @ [\<lparr>ev_data = ''ab'', ev_event = []\<rparr>])"
proof (rule feed_flush_spec)
  show "feed_chunks init_parser [''data: a'', ''b''] = (init_parser\<lparr>line_buf := ''data: ab''\<rparr>, [])"
    by code_simp
  show "flush (init_parser\<lparr>line_buf := ''data: ab''\<rparr>) =
      (init_parser, [\<lparr>ev_data = ''ab'', ev_event = []\<rparr>], True)"
    by code_simp
qed

text \<open>
  the return value of \<open>flush\<close> says whether an event was emitted, except when the only buffered
  byte is a CR: that blank line dispatches the event first and \<open>flush\<close> then answers false.
\<close>

theorem flush_reports:
  "flush p = (q, es, b) \<Longrightarrow> b \<longleftrightarrow> es \<noteq> [] \<and> line_buf p \<noteq> [CR]"
  by (rule flush_result)

theorem flush_reports_witness:
  "False \<longleftrightarrow> [\<lparr>ev_data = ''x'', ev_event = []\<rparr>] \<noteq> []
     \<and> line_buf \<lparr>line_buf = [CR], cur_data = ''x'', cur_event = [], have_field = True\<rparr> \<noteq> [CR]"
  by (rule flush_reports [where q = init_parser]) code_simp

text \<open>
  the parser invents no bytes: what it still buffers and the payloads it has emitted are
  together no longer than what it was fed (and had buffered before).
\<close>

theorem feed_conserves_bytes:
  "feed p s = (q, es) \<Longrightarrow>
     buffered q + sum_list (map (length \<circ> ev_data) es) \<le> buffered p + length s"
  using feed_bytes [of p s q es] by (simp add: buffered_def pending_bytes_def)

theorem feed_conserves_bytes_witness:
  "buffered init_parser + sum_list (map (length \<circ> ev_data) [\<lparr>ev_data = ''x'', ev_event = []\<rparr>])
     \<le> buffered init_parser + length (''data: x'' @ [LF, LF])"
  by (rule feed_conserves_bytes) code_simp

end
