(* ===== verification/Sse_Writer.thy ===== *)
theory Sse_Writer
  imports Sse_Parser
begin

text \<open>
  The downstream SSE writer (\<^verbatim>\<open>src/server/sse_writer.hpp\<close>, \<^verbatim>\<open>src/server/sse_writer.cpp\<close>).
  What leaves on the client's socket is a list of \<open>wire\<close> items; HTTP chunk framing itself is
  Boost.Beast's.  Every asynchronous write may throw: the argument \<open>ok\<close> says whether the
  socket write completes, and \<open>Inl ()\<close> is the exception.
\<close>

section \<open>State and operations\<close>

datatype wire =
    SseHeader (hdr_keep_alive: bool)
  | Chunk (chunk_bytes: string)
  | LastChunk
  | JsonResponse (resp_status: int) (resp_keep_alive: bool) (resp_retry_after: "string option")
      (resp_body: string)

record sse_writer =
  w_keep_alive :: bool
  header_sent :: bool
  ended :: bool

definition new_writer :: "bool \<Rightarrow> sse_writer" where
  "new_writer keep_alive = \<lparr>w_keep_alive = keep_alive, header_sent = False, ended = False\<rparr>"

definition sse_frame :: "string \<Rightarrow> string" where
  "sse_frame payload = ''data: '' @ payload @ [LF, LF]"

definition writer_begin :: "bool \<Rightarrow> sse_writer \<Rightarrow> (unit, sse_writer \<times> wire list) result" where
  "writer_begin ok w =
     (if header_sent w then Inr (w, [])
      else if ok then Inr (w\<lparr>header_sent := True\<rparr>, [SseHeader (w_keep_alive w)])
      else Inl ())"

definition write_data ::
  "bool \<Rightarrow> string \<Rightarrow> sse_writer \<Rightarrow> (unit, sse_writer \<times> wire list) result" where
  "write_data ok payload w = (if ok then Inr (w, [Chunk (sse_frame payload)]) else Inl ())"

definition writer_end :: "bool \<Rightarrow> sse_writer \<Rightarrow> (unit, sse_writer \<times> wire list) result" where
  "writer_end ok w =
     (if ended w then Inr (w, [])
      else if ok then Inr (w\<lparr>ended := True\<rparr>, [LastChunk])
      else Inl ())"

section \<open>Frames read back\<close>

text \<open>A payload survives the line format when it has no LF and does not end in CR.\<close>

definition single_line :: "string \<Rightarrow> bool" where
  "single_line s = (LF \<notin> set s \<and> (s = [] \<or> last s \<noteq> CR))"

lemma split_lines_line: "LF \<notin> set l \<Longrightarrow>
  split_lines b (l @ LF # s) = (let (ls, r) = split_lines [] s in ((b @ l) # ls, r))"
  by (induction l arbitrary: b) (auto split: prod.splits)

lemma data_line:
  "line_field (''data: '' @ v) = ''data''" "line_value (''data: '' @ v) = v"
  by (simp_all add: line_field_def line_value_def strip_leading_space_def)

lemma drop_trailing_cr_data: "single_line v \<Longrightarrow>
  drop_trailing_cr (''data: '' @ v) = ''data: '' @ v"
  by (cases v rule: rev_cases) (auto simp: single_line_def drop_trailing_cr_def)

lemma event_of_data_line: "event_of_block [''data: '' @ v] = [\<lparr>ev_data = v, ev_event = []\<rparr>]"
  using data_line [of v]
  by (cases "v = []")
     (auto simp: event_of_block_def field_lines_def block_data_def block_event_def values_of_def)

lemma feed_frame:
  assumes "single_line v"
  shows "feed init_parser (sse_frame v) = (init_parser, [\<lparr>ev_data = v, ev_event = []\<rparr>])"
proof -
  from assms have "LF \<notin> set (''data: '' @ v)" by (simp add: single_line_def)
  from split_lines_line [OF this, of "[]" "[LF]"]
  have "split_lines [] (sse_frame v) = ([''data: '' @ v, []], [])"
    by (simp add: sse_frame_def)
  then show ?thesis
    using drop_trailing_cr_data [OF assms] event_of_data_line [of v]
    by (simp add: feed_init_spec sse_spec_def drop_trailing_cr_def [of "[]"] flip: init_parser_of)
qed

lemma feed_frames:
  "\<forall>v \<in> set vs. single_line v \<Longrightarrow>
     feed init_parser (concat (map sse_frame vs)) =
       (init_parser, map (\<lambda>v. \<lparr>ev_data = v, ev_event = []\<rparr>) vs)"
  by (induction vs) (simp_all add: feed_append feed_frame)

section \<open>Properties\<close>

text \<open>
  round trip.  A client that parses the body chunks the writer emitted for a sequence of
  single-line payloads gets exactly these payloads back, in order, and is left with nothing
  buffered: each frame is complete on its own.
\<close>

theorem write_read_roundtrip:
  assumes "\<forall>v \<in> set vs. single_line v"
  shows "feed_chunks init_parser (map sse_frame vs) =
    (init_parser, map (\<lambda>v. \<lparr>ev_data = v, ev_event = []\<rparr>) vs)"
  using feed_frames [OF assms] by (simp add: feed_chunks_concat)

theorem write_read_roundtrip_witness:
  "feed_chunks init_parser (map sse_frame [''{}'', ''[DONE]'']) =
     (init_parser, map (\<lambda>v. \<lparr>ev_data = v, ev_event = []\<rparr>) [''{}'', ''[DONE]''])"
  by (rule write_read_roundtrip) (simp add: single_line_def)

text \<open>
  a multi-line event is not forwarded verbatim.  An upstream event with two \<open>data\<close> lines
  has the payload \<open>a LF b\<close>; written back as one \<open>data:\<close> line it reaches the client as the
  payload \<open>a\<close> alone.
\<close>

theorem multi_line_event_truncated:
  "snd (feed init_parser (''data: a'' @ [LF] @ ''data: b'' @ [LF, LF])) =
     [\<lparr>ev_data = ''a'' @ [LF] @ ''b'', ev_event = []\<rparr>]
   \<and> snd (feed init_parser (sse_frame (''a'' @ [LF] @ ''b''))) =
     [\<lparr>ev_data = ''a'', ev_event = []\<rparr>]"
  by code_simp

end
