(* ===== verification/Circuit_Breaker.thy ===== *)
theory Circuit_Breaker
  imports Kvmux_Prelude
begin

text \<open>
  The per-backend circuit breaker (\<^verbatim>\<open>src/health/circuit_breaker.hpp\<close>,
  \<^verbatim>\<open>src/health/circuit_breaker.cpp\<close>).  Each method runs under the breaker's mutex, so it is one
  atomic function of the state and of the clock reading \<open>now\<close> it makes.  Times are
  nanoseconds of the steady clock, read as integers.
\<close>

section \<open>State and operations\<close>

datatype breaker_state = Closed | Open | HalfOpen

definition breaker_to_string :: "breaker_state \<Rightarrow> string" where
  "breaker_to_string s =
     (case s of Closed \<Rightarrow> ''closed'' | Open \<Rightarrow> ''open'' | HalfOpen \<Rightarrow> ''half_open'')"

record circuit_breaker =
  failure_threshold :: int
  open_window :: time_ns
  br_state :: breaker_state
  br_failures :: int
  opened_at :: time_ns

definition new_breaker :: "int \<Rightarrow> time_ns \<Rightarrow> circuit_breaker" where
  "new_breaker threshold window =
     \<lparr>failure_threshold = threshold, open_window = window, br_state = Closed,
      br_failures = 0, opened_at = 0\<rparr>"

record decision =
  allowed :: bool
  is_probe :: bool

definition deny :: decision where
  "deny = \<lparr>allowed = False, is_probe = False\<rparr>"

definition allow_request :: "time_ns \<Rightarrow> circuit_breaker \<Rightarrow> circuit_breaker \<times> decision" where
  "allow_request now cb =
     (case br_state cb of
        Closed \<Rightarrow> (cb, \<lparr>allowed = True, is_probe = False\<rparr>)
      | Open \<Rightarrow>
          (if now - opened_at cb \<ge> open_window cb
           then (cb\<lparr>br_state := HalfOpen\<rparr>, \<lparr>allowed = True, is_probe = True\<rparr>)
           else (cb, deny))
      | HalfOpen \<Rightarrow> (cb, deny))"

definition on_success :: "bool \<Rightarrow> circuit_breaker \<Rightarrow> circuit_breaker" where
  "on_success probe cb = cb\<lparr>br_state := Closed, br_failures := 0\<rparr>"

definition abort_probe :: "time_ns \<Rightarrow> bool \<Rightarrow> circuit_breaker \<Rightarrow> circuit_breaker" where
  "abort_probe now probe cb =
     (if \<not> probe then cb else cb\<lparr>br_state := Open, opened_at := now\<rparr>)"

definition on_failure :: "time_ns \<Rightarrow> bool \<Rightarrow> circuit_breaker \<Rightarrow> circuit_breaker" where
  "on_failure now probe cb =
     (if probe then cb\<lparr>br_state := Open, opened_at := now\<rparr>
      else if br_state cb = Open then cb
      else
        let cb1 = cb\<lparr>br_failures := br_failures cb + 1\<rparr>
        in if br_failures cb1 \<ge> failure_threshold cb1
           then cb1\<lparr>br_state := Open, opened_at := now\<rparr>
           else cb1)"

definition observed_state :: "time_ns \<Rightarrow> circuit_breaker \<Rightarrow> breaker_state" where
  "observed_state now cb =
     (if br_state cb = Open \<and> now - opened_at cb \<ge> open_window cb then HalfOpen
      else br_state cb)"

definition consecutive_failures :: "circuit_breaker \<Rightarrow> int" where
  "consecutive_failures cb = br_failures cb"

lemmas breaker_defs = allow_request_def on_success_def abort_probe_def on_failure_def deny_def

lemma breaker_config_frame [frame_simps]:
  "failure_threshold (fst (allow_request now cb)) = failure_threshold cb"
  "open_window (fst (allow_request now cb)) = open_window cb"
  "failure_threshold (on_success pr cb) = failure_threshold cb"
  "open_window (on_success pr cb) = open_window cb"
  "failure_threshold (abort_probe now pr cb) = failure_threshold cb"
  "open_window (abort_probe now pr cb) = open_window cb"
  "failure_threshold (on_failure now pr cb) = failure_threshold cb"
  "open_window (on_failure now pr cb) = open_window cb"
  by (auto simp: breaker_defs Let_def split: breaker_state.split)

section \<open>The type invariant\<close>

definition breaker_wf :: "circuit_breaker \<Rightarrow> bool" where
  "breaker_wf cb =
     (0 < failure_threshold cb \<and> 0 \<le> br_failures cb
      \<and> (br_state cb = Closed \<longrightarrow> br_failures cb < failure_threshold cb))"

lemma breaker_wf_new: "0 < t \<Longrightarrow> breaker_wf (new_breaker t w)"
  by (simp add: breaker_wf_def new_breaker_def)

lemma breaker_wf_allow: "breaker_wf cb \<Longrightarrow> breaker_wf (fst (allow_request now cb))"
  by (auto simp: breaker_wf_def allow_request_def split: breaker_state.split)

lemma breaker_wf_success: "breaker_wf cb \<Longrightarrow> breaker_wf (on_success pr cb)"
  by (simp add: breaker_wf_def on_success_def)

lemma breaker_wf_abort: "breaker_wf cb \<Longrightarrow> breaker_wf (abort_probe now pr cb)"
  by (simp add: breaker_wf_def abort_probe_def)

lemma breaker_wf_failure: "breaker_wf cb \<Longrightarrow> breaker_wf (on_failure now pr cb)"
  by (auto simp: breaker_wf_def on_failure_def Let_def)

lemmas breaker_wf_ops =
  breaker_wf_allow breaker_wf_success breaker_wf_abort breaker_wf_failure

section \<open>Sequences of operations\<close>

datatype breaker_op =
    Allow time_ns
  | Success bool
  | Failure time_ns bool
  | Abort time_ns bool

fun apply_op :: "circuit_breaker \<Rightarrow> breaker_op \<Rightarrow> circuit_breaker" where
  "apply_op cb (Allow now) = fst (allow_request now cb)"
| "apply_op cb (Success pr) = on_success pr cb"
| "apply_op cb (Failure now pr) = on_failure now pr cb"
| "apply_op cb (Abort now pr) = abort_probe now pr cb"

definition apply_ops :: "circuit_breaker \<Rightarrow> breaker_op list \<Rightarrow> circuit_breaker" where
  "apply_ops cb ops = foldl apply_op cb ops"

lemma apply_ops_simps [simp]:
  "apply_ops cb [] = cb"
  "apply_ops cb (op # ops) = apply_ops (apply_op cb op) ops"
  by (simp_all add: apply_ops_def)

lemma apply_op_wf: "breaker_wf cb \<Longrightarrow> breaker_wf (apply_op cb op)"
  by (cases op) (auto intro: breaker_wf_ops)

lemma apply_ops_wf: "breaker_wf cb \<Longrightarrow> breaker_wf (apply_ops cb ops)"
  by (induction ops arbitrary: cb) (auto intro: apply_op_wf)

text \<open>A run of \<open>allow_request\<close> calls, with the decisions it makes.\<close>

fun allow_run :: "circuit_breaker \<Rightarrow> time_ns list \<Rightarrow> circuit_breaker \<times> decision list" where
  "allow_run cb [] = (cb, [])"
| "allow_run cb (t # ts) =
     (let (cb1, d) = allow_request t cb; (cb2, ds) = allow_run cb1 ts in (cb2, d # ds))"

lemma allow_run_HalfOpen:
  "br_state cb = HalfOpen \<Longrightarrow> allow_run cb ts = (cb, replicate (length ts) deny)"
  by (induction ts) (auto simp: allow_request_def)

lemma allow_run_Open:
  assumes "br_state cb = Open"
  shows "count_if allowed (snd (allow_run cb ts)) =
    (if \<exists>t \<in> set ts. t - opened_at cb \<ge> open_window cb then 1 else 0)"
  using assms
proof (induction ts)
  case (Cons t ts)
  show ?case
  proof (cases "t - opened_at cb \<ge> open_window cb")
    case True
    with Cons.prems allow_run_HalfOpen [of "cb\<lparr>br_state := HalfOpen\<rparr>" ts] show ?thesis
      by (auto simp: allow_request_def count_if_def deny_def split: prod.splits)
  next
    case False
    with Cons show ?thesis
      by (auto simp: allow_request_def deny_def split: prod.splits)
  qed
qed simp

text \<open>A run of failures of ordinary requests, at the given times.\<close>

abbreviation failures_at :: "time_ns list \<Rightarrow> breaker_op list" where
  "failures_at ts \<equiv> map (\<lambda>t. Failure t False) ts"

lemma failures_when_Open: "br_state cb = Open \<Longrightarrow> apply_ops cb (failures_at ts) = cb"
  by (induction ts) (auto simp: on_failure_def)

lemma failure_run:
  assumes "br_state cb = Closed" "br_failures cb < failure_threshold cb"
  shows "apply_ops cb (failures_at ts) =
    (if int (length ts) < failure_threshold cb - br_failures cb
     then cb\<lparr>br_failures := br_failures cb + int (length ts)\<rparr>
     else cb\<lparr>br_state := Open, br_failures := failure_threshold cb,
             opened_at := ts ! nat (failure_threshold cb - (1 + br_failures cb))\<rparr>)"
  using assms
proof (induction ts arbitrary: cb)
  case (Cons t ts)
  show ?case
  proof (cases "br_failures cb + 1 \<ge> failure_threshold cb")
    case True
    with Cons.prems show ?thesis by (simp add: on_failure_def failures_when_Open)
  next
    case False
    let ?cb1 = "cb\<lparr>br_failures := br_failures cb + 1\<rparr>"
    have step: "apply_op cb (Failure t False) = ?cb1"
      using False Cons.prems by (simp add: on_failure_def)
    have idx: "nat (failure_threshold cb - (1 + br_failures cb)) - Suc 0 =
        nat (failure_threshold cb - (br_failures cb + 2))" by simp
    show ?thesis
      using Cons.IH [of ?cb1] Cons.prems False step
      by (auto simp: idx nth_Cons' algebra_simps)
  qed
qed simp

section \<open>Requests in flight around a breaker\<close>

text \<open>
  The breaker as its callers use it: requests are admitted by \<open>allow_request\<close>, and each one in
  flight later reports success or failure with the \<open>is_probe\<close> it was given.  A request can also
  end without reporting (the streaming path returns early when the client has gone away), and
  an admitted request that finds no local slot aborts.  The clock never runs backwards.
\<close>

record breaker_sys =
  brk :: circuit_breaker
  ordinary :: nat
  probes :: nat
  clk :: time_ns

inductive breaker_step :: "breaker_sys \<Rightarrow> breaker_sys \<Rightarrow> bool" where
  denied: "clk s \<le> t \<Longrightarrow> allow_request t (brk s) = (cb, d) \<Longrightarrow> \<not> allowed d \<Longrightarrow>
     breaker_step s (s\<lparr>brk := cb, clk := t\<rparr>)"
| admit: "clk s \<le> t \<Longrightarrow> allow_request t (brk s) = (cb, d) \<Longrightarrow> allowed d \<Longrightarrow> \<not> is_probe d \<Longrightarrow>
     breaker_step s (s\<lparr>brk := cb, ordinary := Suc (ordinary s), clk := t\<rparr>)"
| admit_probe: "clk s \<le> t \<Longrightarrow> allow_request t (brk s) = (cb, d) \<Longrightarrow> allowed d \<Longrightarrow> is_probe d \<Longrightarrow>
     breaker_step s (s\<lparr>brk := cb, probes := Suc (probes s), clk := t\<rparr>)"
| success: "ordinary s = Suc n \<Longrightarrow>
     breaker_step s (s\<lparr>brk := on_success False (brk s), ordinary := n\<rparr>)"
| failure: "ordinary s = Suc n \<Longrightarrow> clk s \<le> t \<Longrightarrow>
     breaker_step s (s\<lparr>brk := on_failure t False (brk s), ordinary := n, clk := t\<rparr>)"
| gone: "ordinary s = Suc n \<Longrightarrow> breaker_step s (s\<lparr>ordinary := n\<rparr>)"
| probe_success: "probes s = Suc n \<Longrightarrow>
     breaker_step s (s\<lparr>brk := on_success True (brk s), probes := n\<rparr>)"
| probe_failure: "probes s = Suc n \<Longrightarrow> clk s \<le> t \<Longrightarrow>
     breaker_step s (s\<lparr>brk := on_failure t True (brk s), probes := n, clk := t\<rparr>)"
| probe_abort: "probes s = Suc n \<Longrightarrow> clk s \<le> t \<Longrightarrow>
     breaker_step s (s\<lparr>brk := abort_probe t True (brk s), probes := n, clk := t\<rparr>)"
| probe_gone: "probes s = Suc n \<Longrightarrow> breaker_step s (s\<lparr>probes := n\<rparr>)"

definition breaker_start :: "breaker_sys \<Rightarrow> bool" where
  "breaker_start s =
     (\<exists>t w. 0 < t \<and> brk s = new_breaker t w \<and> ordinary s = 0 \<and> probes s = 0)"

interpretation breaker_inv: step_invariant breaker_start breaker_step "\<lambda>s. breaker_wf (brk s)"
proof unfold_locales
  fix s :: breaker_sys
  assume "breaker_start s"
  then show "breaker_wf (brk s)" by (auto simp: breaker_start_def breaker_wf_new)
next
  fix s t :: breaker_sys
  assume wf: "breaker_wf (brk s)" and "breaker_step s t"
  from this(2) show "breaker_wf (brk t)"
    using breaker_wf_ops [OF wf] wf by cases (simp_all, (metis fst_conv)+)
qed

text \<open>Nobody left to report: a half-open breaker with no request in flight cannot move.\<close>

definition stuck :: "breaker_sys \<Rightarrow> bool" where
  "stuck s = (br_state (brk s) = HalfOpen \<and> ordinary s = 0 \<and> probes s = 0)"

lemma stuck_step: "stuck s \<Longrightarrow> breaker_step s t \<Longrightarrow> stuck t"
  by (auto simp: stuck_def allow_request_def deny_def elim!: breaker_step.cases)

interpretation stuck_inv: step_invariant stuck breaker_step stuck
  by unfold_locales (auto intro: stuck_step)

section \<open>Properties\<close>

text \<open>
  the breaker trips exactly at its threshold.  From a closed breaker, a run of failures of
  ordinary requests keeps it closed and counts them while the total stays below the
  threshold; the failure that reaches the threshold opens it at that failure's time, and further
  failures change nothing.
\<close>

theorem breaker_trips_at_threshold:
  assumes "br_state cb = Closed" "br_failures cb < failure_threshold cb"
  shows "apply_ops cb (failures_at ts) =
    (if int (length ts) < failure_threshold cb - br_failures cb
     then cb\<lparr>br_failures := br_failures cb + int (length ts)\<rparr>
     else cb\<lparr>br_state := Open, br_failures := failure_threshold cb,
             opened_at := ts ! nat (failure_threshold cb - (1 + br_failures cb))\<rparr>)"
  by (rule failure_run [OF assms])

theorem breaker_trips_at_threshold_witness:
  "apply_ops (new_breaker 2 10) (failures_at [3, 5, 8]) =
     (new_breaker 2 10)\<lparr>br_state := Open, br_failures := 2, opened_at := 5\<rparr>"
  using breaker_trips_at_threshold [of "new_breaker 2 10" "[3, 5, 8]"]
  by (simp add: new_breaker_def)

text \<open>
  an open breaker admits exactly one request, the probe, and only once its window has
  elapsed.  Among any number of \<open>allow_request\<close> calls made before an outcome is reported, one is
  allowed if some call comes at or after the end of the window, and none otherwise.
\<close>

theorem open_breaker_single_probe:
  assumes "br_state cb = Open"
  shows "count_if allowed (snd (allow_run cb ts)) =
    (if \<exists>t \<in> set ts. t - opened_at cb \<ge> open_window cb then 1 else 0)"
  by (rule allow_run_Open [OF assms])

theorem open_breaker_single_probe_witness:
  "count_if allowed (snd (allow_run ((new_breaker 1 10)\<lparr>br_state := Open\<rparr>) [5, 10, 11])) = 1"
  using open_breaker_single_probe [of "(new_breaker 1 10)\<lparr>br_state := Open\<rparr>" "[5, 10, 11]"]
  by (simp add: new_breaker_def)

text \<open>
  type invariant under every interleaving.  Whatever requests are in flight and however
  their reports interleave, a breaker created with a positive threshold keeps a
  non-negative failure count, below the threshold whenever it is closed.
\<close>

theorem breaker_reachable_wf:
  "breaker_start s \<Longrightarrow> rtranclp breaker_step s t \<Longrightarrow> breaker_wf (brk t)"
  by (rule breaker_inv.reachable_inv)

theorem breaker_reachable_wf_witness:
  "breaker_wf (brk \<lparr>brk = new_breaker 5 10, ordinary = 1, probes = 0, clk = 0\<rparr>)"
proof (rule breaker_reachable_wf)
  let ?s = "\<lparr>brk = new_breaker 5 10, ordinary = 0, probes = 0, clk = 0\<rparr>"
  show "breaker_start ?s"
    by (auto simp: breaker_start_def intro: exI [of _ 5])
  show "rtranclp breaker_step ?s \<lparr>brk = new_breaker 5 10, ordinary = 1, probes = 0, clk = 0\<rparr>"
    using admit [of ?s 0 "new_breaker 5 10" "\<lparr>allowed = True, is_probe = False\<rparr>"]
    by (simp add: allow_request_def new_breaker_def)
qed

text \<open>
  the single-probe promise fails under concurrency.  A request admitted while the breaker was
  closed and failing late, during the half-open phase, re-opens the breaker and restarts the
  window, so a second probe is admitted while the first is still in flight.
\<close>

theorem two_probes_reachable:
  "\<exists>s t. breaker_start s \<and> rtranclp breaker_step s t \<and> probes t = 2"
proof -
  let ?c = "new_breaker 1 10"
  let ?o = "\<lparr>allowed = True, is_probe = False\<rparr>" and ?p = "\<lparr>allowed = True, is_probe = True\<rparr>"
  let ?s0 = "\<lparr>brk = ?c, ordinary = 0, probes = 0, clk = 0\<rparr>"
  let ?s2 = "\<lparr>brk = ?c, ordinary = 2, probes = 0, clk = 0\<rparr>"
  let ?s3 = "\<lparr>brk = on_failure 1 False ?c, ordinary = 1, probes = 0, clk = 1\<rparr>"
  let ?c4 = "(on_failure 1 False ?c)\<lparr>br_state := HalfOpen\<rparr>"
  let ?s4 = "\<lparr>brk = ?c4, ordinary = 1, probes = 1, clk = 11\<rparr>"
  let ?s5 = "\<lparr>brk = on_failure 12 False ?c4, ordinary = 0, probes = 1, clk = 12\<rparr>"
  let ?s6 = "\<lparr>brk = (on_failure 12 False ?c4)\<lparr>br_state := HalfOpen\<rparr>, ordinary = 0, probes = 2, clk = 22\<rparr>"
  note defs = allow_request_def on_failure_def new_breaker_def numeral_2_eq_2
  have "breaker_step ?s0 (?s0\<lparr>ordinary := 1\<rparr>)" "breaker_step (?s0\<lparr>ordinary := 1\<rparr>) ?s2"
    using admit [of ?s0 0 ?c ?o] admit [of "?s0\<lparr>ordinary := 1\<rparr>" 0 ?c ?o] by (simp_all add: defs)
  moreover have "breaker_step ?s2 ?s3" using failure [of ?s2 1 1] by simp
  moreover have "breaker_step ?s3 ?s4" using admit_probe [of ?s3 11 ?c4 ?p] by (simp add: defs)
  moreover have "breaker_step ?s4 ?s5" using failure [of ?s4 0 12] by simp
  moreover have "breaker_step ?s5 ?s6"
    using admit_probe [of ?s5 22 "(on_failure 12 False ?c4)\<lparr>br_state := HalfOpen\<rparr>" ?p]
    by (simp add: defs)
  ultimately have "rtranclp breaker_step ?s0 ?s6"
    by (meson converse_rtranclp_into_rtranclp rtranclp.rtrancl_refl)
  moreover have "breaker_start ?s0" by (auto simp: breaker_start_def intro: exI [of _ 1])
  ultimately show ?thesis by (intro exI [of _ ?s0] exI [of _ ?s6]) simp
qed

text \<open>
  a lost probe disables the backend for good.  If the half-open probe ends without a report
  and no other request is in flight, then whatever happens afterwards the breaker stays
  half-open and every later request is denied.
\<close>

theorem lost_probe_denies_forever:
  assumes "stuck s" "rtranclp breaker_step s t"
  shows "allow_request now (brk t) = (brk t, deny)"
  using stuck_inv.reachable_inv [OF assms] by (simp add: stuck_def allow_request_def)

theorem lost_probe_denies_forever_witness:
  "allow_request 1000 ((new_breaker 1 10)\<lparr>br_state := HalfOpen\<rparr>) =
     ((new_breaker 1 10)\<lparr>br_state := HalfOpen\<rparr>, deny)"
proof -
  let ?s = "\<lparr>brk = (new_breaker 1 10)\<lparr>br_state := HalfOpen\<rparr>, ordinary = 0, probes = 0, clk = 11\<rparr>"
  have "stuck ?s" by (simp add: stuck_def)
  from lost_probe_denies_forever [OF this rtranclp.rtrancl_refl, of 1000] show ?thesis by simp
qed

end
