(* ===== verification/Admission.thy ===== *)
theory Admission
  imports Kvmux_Prelude
begin

text \<open>
  Admission control (\<^verbatim>\<open>src/admission/controller.hpp\<close>, \<^verbatim>\<open>src/admission/controller.cpp\<close>): the
  per-backend in-flight limiter with its compare-and-swap loop, the RAII holders, and the global
  FIFO gate with its bounded wait queue.
\<close>

section \<open>PerBackendLimiter\<close>

record limiter =
  lim_max :: int
  lim_active :: int

definition new_limiter :: "int \<Rightarrow> limiter" where
  "new_limiter m = \<lparr>lim_max = m, lim_active = 0\<rparr>"

text \<open>
  \<open>try_acquire\<close> when no other thread interferes (the request path runs on one io_context
  thread).  The interleaved loop is \<open>cas_step\<close> below.
\<close>

definition try_acquire :: "limiter \<Rightarrow> limiter \<times> bool" where
  "try_acquire l =
     (if lim_active l < lim_max l then (l\<lparr>lim_active := lim_active l + 1\<rparr>, True) else (l, False))"

definition release_slot :: "limiter \<Rightarrow> limiter" where
  "release_slot l = l\<lparr>lim_active := lim_active l - 1\<rparr>"

definition at_capacity :: "limiter \<Rightarrow> bool" where
  "at_capacity l = (lim_active l \<ge> lim_max l)"

text \<open>
  Threads inside the loop of \<open>try_acquire\<close>: \<open>cas_loop cur\<close> has loaded \<open>cur\<close>;
  \<open>compare_exchange_weak\<close> may fail spuriously, and reloads on failure.
\<close>

datatype cas_pc = CasIdle | CasLoop int | CasHolding

record cas_sys =
  cas_lim :: limiter
  cas_pcs :: "cas_pc list"

inductive cas_step :: "cas_sys \<Rightarrow> cas_sys \<Rightarrow> bool" where
  load: "i < length (cas_pcs s) \<Longrightarrow> cas_pcs s ! i = CasIdle \<Longrightarrow>
     cas_step s (s\<lparr>cas_pcs := (cas_pcs s)[i := CasLoop (lim_active (cas_lim s))]\<rparr>)"
| exchange: "i < length (cas_pcs s) \<Longrightarrow> cas_pcs s ! i = CasLoop cur \<Longrightarrow> cur < lim_max (cas_lim s) \<Longrightarrow>
     lim_active (cas_lim s) = cur \<Longrightarrow>
     cas_step s (s\<lparr>cas_lim := (cas_lim s)\<lparr>lim_active := cur + 1\<rparr>,
                   cas_pcs := (cas_pcs s)[i := CasHolding]\<rparr>)"
| retry: "i < length (cas_pcs s) \<Longrightarrow> cas_pcs s ! i = CasLoop cur \<Longrightarrow> cur < lim_max (cas_lim s) \<Longrightarrow>
     cas_step s (s\<lparr>cas_pcs := (cas_pcs s)[i := CasLoop (lim_active (cas_lim s))]\<rparr>)"
| give_up: "i < length (cas_pcs s) \<Longrightarrow> cas_pcs s ! i = CasLoop cur \<Longrightarrow>
     \<not> cur < lim_max (cas_lim s) \<Longrightarrow>
     cas_step s (s\<lparr>cas_pcs := (cas_pcs s)[i := CasIdle]\<rparr>)"
| let_go: "i < length (cas_pcs s) \<Longrightarrow> cas_pcs s ! i = CasHolding \<Longrightarrow>
     cas_step s (s\<lparr>cas_lim := release_slot (cas_lim s), cas_pcs := (cas_pcs s)[i := CasIdle]\<rparr>)"

definition cas_start :: "cas_sys \<Rightarrow> bool" where
  "cas_start s = (\<exists>m n. 0 \<le> m \<and> s = \<lparr>cas_lim = new_limiter m, cas_pcs = replicate n CasIdle\<rparr>)"

section \<open>GlobalGate\<close>

datatype admit_status = Admitted | QueueFull | QueueTimeout

record admit_result =
  status :: admit_status
  queued_for :: time_ns

definition is_admitted :: "admit_result \<Rightarrow> bool" where
  "is_admitted r = (status r = Admitted)"

record global_gate =
  max_concurrent :: int
  queue_depth :: int
  queue_timeout :: time_ns
  in_flight :: int
  waiters :: "nat list"

definition new_gate :: "int \<Rightarrow> int \<Rightarrow> time_ns \<Rightarrow> global_gate" where
  "new_gate m d t =
     \<lparr>max_concurrent = m, queue_depth = d, queue_timeout = t, in_flight = 0, waiters = []\<rparr>"

text \<open>
  \<open>acquire\<close> up to its \<open>co_await\<close> on the waiter's timer (the waiter of the calling coroutine is
  \<open>w\<close>), and after it.  A suspended caller keeps its start time and the timer's expiry.
\<close>

datatype enter_result = Ready admit_result | Suspended time_ns time_ns

definition gate_enter :: "nat \<Rightarrow> time_ns \<Rightarrow> global_gate \<Rightarrow> global_gate \<times> enter_result" where
  "gate_enter w now g =
     (if in_flight g < max_concurrent g \<and> waiters g = []
      then (g\<lparr>in_flight := in_flight g + 1\<rparr>, Ready \<lparr>status = Admitted, queued_for = 0\<rparr>)
      else if int (length (waiters g)) \<ge> queue_depth g
      then (g, Ready \<lparr>status = QueueFull, queued_for = 0\<rparr>)
      else (g\<lparr>waiters := waiters g @ [w]\<rparr>, Suspended now (now + queue_timeout g)))"

definition gate_forget :: "nat \<Rightarrow> global_gate \<Rightarrow> global_gate" where
  "gate_forget w g = g\<lparr>waiters := remove1 w (waiters g)\<rparr>"

definition gate_resume ::
  "nat \<Rightarrow> bool \<Rightarrow> time_ns \<Rightarrow> time_ns \<Rightarrow> global_gate \<Rightarrow> global_gate \<times> admit_result" where
  "gate_resume w granted start now g =
     (if granted then (g, \<lparr>status = Admitted, queued_for = now - start\<rparr>)
      else (gate_forget w g, \<lparr>status = QueueTimeout, queued_for = now - start\<rparr>))"

text \<open>\<open>release\<close>: the waiter that is granted the slot and whose timer is cancelled, if any.\<close>

definition gate_release :: "global_gate \<Rightarrow> global_gate \<times> nat option" where
  "gate_release g =
     (case waiters g of
        w # ws \<Rightarrow> (g\<lparr>waiters := ws\<rparr>, Some w)
      | [] \<Rightarrow> (g\<lparr>in_flight := in_flight g - 1\<rparr>, None))"

lemmas gate_defs = gate_enter_def gate_forget_def gate_resume_def gate_release_def

section \<open>The limiter contract\<close>

text \<open>
  What the clients of a counting limiter rely on: acquisition succeeds exactly below the cap and
  takes one, a release gives one back, the cap is fixed.
\<close>

locale counting_limiter =
  fixes acq :: "'l \<Rightarrow> 'l \<times> bool" and rel :: "'l \<Rightarrow> 'l"
    and act :: "'l \<Rightarrow> int" and cap :: "'l \<Rightarrow> int"
  assumes acq_true: "acq l = (l', True) \<Longrightarrow> act l < cap l \<and> act l' = act l + 1 \<and> cap l' = cap l"
    and acq_false: "acq l = (l', False) \<Longrightarrow> l' = l \<and> cap l \<le> act l"
    and rel_act: "act (rel l) = act l - 1 \<and> cap (rel l) = cap l"

text \<open>
  Many clients of one limiter: a list of client states, some of which hold a slot.  The ledger
  says that the count is exactly the number of holders and within the cap.
\<close>

locale limiter_ledger = counting_limiter acq rel act cap
  for acq :: "'l \<Rightarrow> 'l \<times> bool" and rel and act and cap +
  fixes holds :: "'c \<Rightarrow> bool"
begin

definition balanced :: "'l \<Rightarrow> 'c list \<Rightarrow> bool" where
  "balanced l xs = (act l = int (count_if holds xs) \<and> act l \<le> cap l)"

lemma balanced_acquire:
  assumes "balanced l xs" "i < length xs" "\<not> holds (xs ! i)" "acq l = (l', True)" "holds y"
  shows "balanced l' (xs[i := y])"
  using assms acq_true [OF assms(4)] by (simp add: balanced_def count_if_update)

lemma balanced_release:
  assumes "balanced l xs" "i < length xs" "holds (xs ! i)" "\<not> holds y"
  shows "balanced (rel l) (xs[i := y])"
  using assms rel_act [of l] by (simp add: balanced_def count_if_update)

lemma balanced_keep:
  assumes "balanced l xs" "i < length xs" "holds y = holds (xs ! i)"
  shows "balanced l (xs[i := y])"
  using assms count_if_update [OF assms(2), of holds y] by (simp add: balanced_def)

lemma balanced_new: "balanced l xs \<Longrightarrow> \<not> holds y \<Longrightarrow> balanced l (xs @ [y])"
  by (simp add: balanced_def)

lemma balanced_bounds: "balanced l xs \<Longrightarrow> 0 \<le> act l \<and> act l \<le> cap l"
  by (simp add: balanced_def)

end

interpretation lim: counting_limiter try_acquire release_slot lim_active lim_max
  by unfold_locales (auto simp: try_acquire_def release_slot_def split: if_splits)

interpretation cas: limiter_ledger try_acquire release_slot lim_active lim_max
  "\<lambda>pc. pc = CasHolding"
  by unfold_locales

text \<open>The exchange of the loop is an atomic \<open>try_acquire\<close>.\<close>

lemma exchange_is_try_acquire:
  "lim_active l < lim_max l \<Longrightarrow> try_acquire l = (l\<lparr>lim_active := lim_active l + 1\<rparr>, True)"
  by (simp add: try_acquire_def)

lemma cas_step_balanced:
  assumes "cas.balanced (cas_lim s) (cas_pcs s)" "cas_step s t"
  shows "cas.balanced (cas_lim t) (cas_pcs t)"
  using assms(2,1)
proof cases
  case (exchange i cur)
  with assms(1) show ?thesis
    using cas.balanced_acquire [OF assms(1) exchange(2)] exchange_is_try_acquire [of "cas_lim s"]
    by auto
qed (use assms(1) in \<open>auto intro: cas.balanced_keep cas.balanced_release\<close>)

lemma cas_start_balanced: "cas_start s \<Longrightarrow> cas.balanced (cas_lim s) (cas_pcs s)"
  by (auto simp: cas_start_def new_limiter_def cas.balanced_def count_if_def)

interpretation cas_inv: step_invariant cas_start cas_step
  "\<lambda>s. cas.balanced (cas_lim s) (cas_pcs s)"
  by unfold_locales (auto intro: cas_start_balanced cas_step_balanced)

lemma cas_step_max: "cas_step s t \<Longrightarrow> lim_max (cas_lim t) = lim_max (cas_lim s)"
  by (auto elim!: cas_step.cases simp: release_slot_def)

section \<open>The gate contract\<close>

text \<open>
  What the clients of the gate rely on.  \<open>gi g h\<close> is the provider's invariant when \<open>h\<close> slots are
  handed out; \<open>queue\<close> is its wait queue, oldest first.
\<close>

locale admission_gate =
  fixes enter :: "nat \<Rightarrow> time_ns \<Rightarrow> 'g \<Rightarrow> 'g \<times> enter_result"
    and forget :: "nat \<Rightarrow> 'g \<Rightarrow> 'g"
    and release :: "'g \<Rightarrow> 'g \<times> nat option"
    and queue :: "'g \<Rightarrow> nat list"
    and gi :: "'g \<Rightarrow> nat \<Rightarrow> bool"
  assumes enter_admitted: "gi g h \<Longrightarrow> enter w t g = (g', Ready r) \<Longrightarrow> is_admitted r \<Longrightarrow>
      gi g' (Suc h) \<and> queue g' = queue g"
    and enter_refused: "enter w t g = (g', Ready r) \<Longrightarrow> \<not> is_admitted r \<Longrightarrow> g' = g"
    and enter_suspended: "gi g h \<Longrightarrow> w \<notin> set (queue g) \<Longrightarrow> enter w t g = (g', Suspended a b) \<Longrightarrow>
      gi g' h \<and> queue g' = queue g @ [w]"
    and release_grants: "gi g (Suc h) \<Longrightarrow> release g = (g', Some w) \<Longrightarrow>
      gi g' (Suc h) \<and> queue g = w # queue g'"
    and release_frees: "gi g (Suc h) \<Longrightarrow> release g = (g', None) \<Longrightarrow>
      gi g' h \<and> queue g = [] \<and> queue g' = []"
    and forget_queue: "gi g h \<Longrightarrow> gi (forget w g) h \<and> queue (forget w g) = remove1 w (queue g)"
    and queue_distinct: "gi g h \<Longrightarrow> distinct (queue g)"

text \<open>
  Many coroutines around one gate: \<open>holds\<close> for those that own a slot (including a granted
  waiter that has not resumed yet), \<open>queued\<close> for those still waiting.
\<close>

locale gate_ledger = admission_gate enter forget release queue gi
  for enter :: "nat \<Rightarrow> time_ns \<Rightarrow> 'g \<Rightarrow> 'g \<times> enter_result"
    and forget and release and queue and gi +
  fixes holds queued :: "'c \<Rightarrow> bool"
  assumes exclusive: "holds c \<Longrightarrow> \<not> queued c"
begin

definition consistent :: "'g \<Rightarrow> 'c list \<Rightarrow> bool" where
  "consistent g xs =
     (gi g (count_if holds xs) \<and> (\<forall>i. i \<in> set (queue g) \<longleftrightarrow> i < length xs \<and> queued (xs ! i)))"

lemma count_holds:
  "i < length xs \<Longrightarrow> \<not> holds (xs ! i) \<Longrightarrow> holds y \<Longrightarrow>
     count_if holds (xs[i := y]) = Suc (count_if holds xs)"
  "i < length xs \<Longrightarrow> holds (xs ! i) \<Longrightarrow> \<not> holds y \<Longrightarrow>
     Suc (count_if holds (xs[i := y])) = count_if holds xs"
  "i < length xs \<Longrightarrow> holds (xs ! i) = holds y \<Longrightarrow>
     count_if holds (xs[i := y]) = count_if holds xs"
  using count_if_update [of i xs holds y] by (auto simp: of_bool_def split: if_splits)

lemma consistent_keep:
  assumes "consistent g xs" "i < length xs" "holds y = holds (xs ! i)" "queued y = queued (xs ! i)"
  shows "consistent g (xs[i := y])"
  using assms by (auto simp: consistent_def count_holds nth_list_update)

lemma consistent_new:
  "consistent g xs \<Longrightarrow> \<not> holds y \<Longrightarrow> \<not> queued y \<Longrightarrow> consistent g (xs @ [y])"
  by (auto simp: consistent_def nth_append less_Suc_eq)

lemma consistent_admit:
  assumes "consistent g xs" "i < length xs" "\<not> holds (xs ! i)" "\<not> queued (xs ! i)"
    and "enter w t g = (g', Ready r)" "is_admitted r" "holds y"
  shows "consistent g' (xs[i := y])"
  using assms enter_admitted [OF _ assms(5,6)] exclusive [of y]
  by (auto simp: consistent_def count_holds nth_list_update)

lemma consistent_suspend:
  assumes "consistent g xs" "i < length xs" "\<not> holds (xs ! i)" "\<not> queued (xs ! i)"
    and "enter i t g = (g', Suspended a b)" "queued y" "\<not> holds y"
  shows "consistent g' (xs[i := y])"
proof -
  have "i \<notin> set (queue g)" using assms(1,4) by (auto simp: consistent_def)
  with assms enter_suspended [OF _ this assms(5)] show ?thesis
    by (auto simp: consistent_def count_holds nth_list_update)
qed

lemma consistent_forget:
  assumes "consistent g xs" "i < length xs" "queued (xs ! i)" "\<not> holds y" "\<not> queued y"
  shows "consistent (forget i g) (xs[i := y])"
proof -
  have gi: "gi g (count_if holds xs)" using assms(1) by (simp add: consistent_def)
  moreover have "\<not> holds (xs ! i)" using exclusive assms(3) by blast
  ultimately show ?thesis
    using assms forget_queue [OF gi, of i] queue_distinct [OF gi]
    by (auto simp: consistent_def count_holds nth_list_update)
qed

lemma consistent_release_free:
  assumes "consistent g xs" "i < length xs" "holds (xs ! i)" "release g = (g', None)"
    and "\<not> holds y" "\<not> queued y"
  shows "consistent g' (xs[i := y])"
proof -
  obtain h where h: "count_if holds xs = Suc h" "count_if holds (xs[i := y]) = h"
    using count_holds(2) [OF assms(2,3,5)] by simp
  with assms release_frees [of g h g'] show ?thesis
    by (auto simp: consistent_def nth_list_update)
qed

lemma consistent_release_grant:
  assumes "consistent g xs" "i < length xs" "holds (xs ! i)" "release g = (g', Some w)"
    and "\<not> holds y" "\<not> queued y" "holds z"
  shows "consistent g' (xs[i := y, w := z])"
proof -
  obtain h where h: "count_if holds xs = Suc h" "count_if holds (xs[i := y]) = h"
    using count_holds(2) [OF assms(2,3,5)] by simp
  have gi: "gi g (Suc h)" using assms(1) h by (simp add: consistent_def)
  note rg = release_grants [OF this assms(4)]
  have w: "w < length xs" "queued (xs ! w)" using assms(1) rg by (auto simp: consistent_def)
  then have "w \<noteq> i" "\<not> holds (xs ! w)" using exclusive assms(3) by auto
  then have "count_if holds (xs[i := y, w := z]) = Suc h"
    using h w assms(7) count_holds(1) [of w "xs[i := y]" z] by simp
  moreover have "j \<in> set (queue g') \<longleftrightarrow> j < length xs \<and> queued (xs[i := y, w := z] ! j)" for j
  proof -
    have "w \<notin> set (queue g')" using queue_distinct [OF gi] rg by simp
    then have "j \<in> set (queue g') \<longleftrightarrow> j \<in> set (queue g) \<and> j \<noteq> w" using rg by auto
    also have "\<dots> \<longleftrightarrow> j < length xs \<and> queued (xs ! j) \<and> j \<noteq> w"
      using assms(1) by (simp add: consistent_def conj_assoc)
    also have "\<dots> \<longleftrightarrow> j < length xs \<and> queued (xs[i := y, w := z] ! j)"
      using exclusive [OF assms(3)] exclusive [OF assms(7)] assms(6) w(1)
      by (cases "j = w"; cases "j = i") simp_all
    finally show ?thesis .
  qed
  ultimately show ?thesis using rg by (simp add: consistent_def)
qed

lemma consistent_granted_is_queued:
  assumes "consistent g xs" "i < length xs" "holds (xs ! i)" "release g = (g', Some w)"
  shows "w < length xs \<and> queued (xs ! w)"
proof -
  obtain h where "count_if holds xs = Suc h"
    using count_if_pos [of i xs holds] assms(2,3) by (cases "count_if holds xs") auto
  with assms(1,4) show ?thesis
    using release_grants [of g h g' w] by (auto simp: consistent_def)
qed

end

definition gate_inv :: "global_gate \<Rightarrow> nat \<Rightarrow> bool" where
  "gate_inv g h =
     (in_flight g = int h \<and> in_flight g \<le> max_concurrent g \<and> distinct (waiters g)
      \<and> int (length (waiters g)) \<le> max 0 (queue_depth g)
      \<and> (waiters g \<noteq> [] \<longrightarrow> in_flight g = max_concurrent g))"

interpretation gate: admission_gate gate_enter gate_forget gate_release waiters gate_inv
  by unfold_locales
     (auto simp: gate_defs gate_inv_def is_admitted_def length_remove1
        split: if_splits list.splits)

section \<open>Coroutines around the gate\<close>

text \<open>
  A coroutine is idle, waiting on its timer (granted or not, with the start of its wait and the
  timer's expiry) or holding a slot.  A wait resumes when the slot was granted (the timer was
  cancelled) or when the timer expired; a grant that comes after expiry and before the
  resumption still counts, as \<open>granted\<close> is what \<open>acquire\<close> tests.  The two logs are history
  variables: the order of joining the queue and the order of being granted a slot.
\<close>

datatype gate_pc = GIdle | GWait bool time_ns time_ns | GHold

fun gate_grant :: "gate_pc \<Rightarrow> gate_pc" where
  "gate_grant (GWait gr a b) = GWait True a b"
| "gate_grant pc = pc"

fun gate_holds :: "gate_pc \<Rightarrow> bool" where
  "gate_holds (GWait gr a b) = gr"
| "gate_holds pc = (pc = GHold)"

fun gate_queued :: "gate_pc \<Rightarrow> bool" where
  "gate_queued (GWait gr a b) = (\<not> gr)"
| "gate_queued pc = False"

record gate_sys =
  gs_gate :: global_gate
  gs_pcs :: "gate_pc list"
  gs_now :: time_ns
  enq_log :: "nat list"
  grant_log :: "nat list"

inductive gate_step :: "gate_sys \<Rightarrow> gate_sys \<Rightarrow> bool" where
  enter_ok: "i < length (gs_pcs s) \<Longrightarrow> gs_pcs s ! i = GIdle \<Longrightarrow> gs_now s \<le> t \<Longrightarrow>
     gate_enter i t (gs_gate s) = (g, Ready r) \<Longrightarrow> is_admitted r \<Longrightarrow>
     gate_step s (s\<lparr>gs_gate := g, gs_pcs := (gs_pcs s)[i := GHold], gs_now := t\<rparr>)"
| enter_full: "i < length (gs_pcs s) \<Longrightarrow> gs_pcs s ! i = GIdle \<Longrightarrow> gs_now s \<le> t \<Longrightarrow>
     gate_enter i t (gs_gate s) = (g, Ready r) \<Longrightarrow> \<not> is_admitted r \<Longrightarrow>
     gate_step s (s\<lparr>gs_gate := g, gs_now := t\<rparr>)"
| enter_wait: "i < length (gs_pcs s) \<Longrightarrow> gs_pcs s ! i = GIdle \<Longrightarrow> gs_now s \<le> t \<Longrightarrow>
     gate_enter i t (gs_gate s) = (g, Suspended a b) \<Longrightarrow>
     gate_step s (s\<lparr>gs_gate := g, gs_pcs := (gs_pcs s)[i := GWait False a b], gs_now := t,
                    enq_log := enq_log s @ [i]\<rparr>)"
| resume_ok: "i < length (gs_pcs s) \<Longrightarrow> gs_pcs s ! i = GWait True a b \<Longrightarrow> gs_now s \<le> t \<Longrightarrow>
     gate_resume i True a t (gs_gate s) = (g, r) \<Longrightarrow>
     gate_step s (s\<lparr>gs_gate := g, gs_pcs := (gs_pcs s)[i := GHold], gs_now := t\<rparr>)"
| resume_timeout: "i < length (gs_pcs s) \<Longrightarrow> gs_pcs s ! i = GWait False a b \<Longrightarrow>
     gs_now s \<le> t \<Longrightarrow> b \<le> t \<Longrightarrow> gate_resume i False a t (gs_gate s) = (g, r) \<Longrightarrow>
     gate_step s (s\<lparr>gs_gate := g, gs_pcs := (gs_pcs s)[i := GIdle], gs_now := t\<rparr>)"
| free: "i < length (gs_pcs s) \<Longrightarrow> gs_pcs s ! i = GHold \<Longrightarrow>
     gate_release (gs_gate s) = (g, None) \<Longrightarrow>
     gate_step s (s\<lparr>gs_gate := g, gs_pcs := (gs_pcs s)[i := GIdle]\<rparr>)"
| hand_over: "i < length (gs_pcs s) \<Longrightarrow> gs_pcs s ! i = GHold \<Longrightarrow>
     gate_release (gs_gate s) = (g, Some w) \<Longrightarrow>
     gate_step s (s\<lparr>gs_gate := g,
                    gs_pcs := (gs_pcs s)[i := GIdle, w := gate_grant (gs_pcs s ! w)],
                    grant_log := grant_log s @ [w]\<rparr>)"

definition gate_start :: "gate_sys \<Rightarrow> bool" where
  "gate_start s =
     (\<exists>m d t n. 0 \<le> m \<and> gs_gate s = new_gate m d t \<and> gs_pcs s = replicate n GIdle
        \<and> enq_log s = [] \<and> grant_log s = [])"

interpretation gate_clients: gate_ledger gate_enter gate_forget gate_release waiters gate_inv
  gate_holds gate_queued
proof unfold_locales
  fix c
  assume "gate_holds c"
  then show "\<not> gate_queued c" by (cases c) auto
qed

lemma gate_queued_iff: "gate_queued pc \<longleftrightarrow> (\<exists>a b. pc = GWait False a b)"
  by (cases pc) auto

definition gate_sys_inv :: "gate_sys \<Rightarrow> bool" where
  "gate_sys_inv s =
     (gate_clients.consistent (gs_gate s) (gs_pcs s)
      \<and> subseq (grant_log s @ waiters (gs_gate s)) (enq_log s))"

lemma gate_start_inv: "gate_start s \<Longrightarrow> gate_sys_inv s"
  by (auto simp: gate_start_def gate_sys_inv_def gate_clients.consistent_def new_gate_def
      gate_inv_def count_if_def)

lemma subseq_remove1: "subseq (xs @ remove1 x ys) (xs @ ys)"
  unfolding subseq_append' by (induction ys) auto

lemma gate_step_consistent:
  assumes "gate_clients.consistent (gs_gate s) (gs_pcs s)" "gate_step s t"
  shows "gate_clients.consistent (gs_gate t) (gs_pcs t)"
  using assms(2)
proof cases
  case (enter_ok i t g r)
  with assms(1) show ?thesis by (auto intro: gate_clients.consistent_admit)
next
  case (enter_full i t g r)
  with assms(1) show ?thesis using gate.enter_refused [OF enter_full(5,6)] by simp
next
  case (enter_wait i t g a b)
  with assms(1) show ?thesis by (auto intro: gate_clients.consistent_suspend)
next
  case (resume_ok i a b t g r)
  with assms(1) show ?thesis by (auto simp: gate_resume_def intro: gate_clients.consistent_keep)
next
  case (resume_timeout i a b t g r)
  with assms(1) show ?thesis by (auto simp: gate_resume_def intro: gate_clients.consistent_forget)
next
  case (free i g)
  with assms(1) show ?thesis by (auto intro: gate_clients.consistent_release_free)
next
  case (hand_over i g w)
  have "gate_queued (gs_pcs s ! w)"
    using gate_clients.consistent_granted_is_queued [OF assms(1) hand_over(2) _ hand_over(4)]
      hand_over(3) by simp
  then have "gate_holds (gate_grant (gs_pcs s ! w))" by (auto simp: gate_queued_iff)
  with hand_over assms(1) show ?thesis by (auto intro: gate_clients.consistent_release_grant)
qed

lemma gate_step_fifo:
  assumes "subseq (grant_log s @ waiters (gs_gate s)) (enq_log s)" "gate_step s t"
  shows "subseq (grant_log t @ waiters (gs_gate t)) (enq_log t)"
  using assms(2)
proof cases
  case (enter_wait i t g a b)
  with assms(1) show ?thesis
    by (auto simp: gate_enter_def split: if_splits simp flip: append_assoc)
next
  case (resume_timeout i a b t g r)
  with assms(1) show ?thesis
    by (auto simp: gate_resume_def gate_forget_def intro: subseq_order.trans [OF subseq_remove1])
qed (use assms(1) in \<open>auto simp: gate_defs split: if_splits list.splits\<close>)

interpretation gate_sys: step_invariant gate_start gate_step gate_sys_inv
  by unfold_locales
     (auto simp: gate_sys_inv_def intro: gate_step_consistent gate_step_fifo
        dest: gate_start_inv [unfolded gate_sys_inv_def])

lemma gate_reachable:
  assumes "gate_start s" "rtranclp gate_step s t"
  shows "gate_inv (gs_gate t) (count_if gate_holds (gs_pcs t))"
  using gate_sys.reachable_inv [OF assms]
  by (simp only: gate_sys_inv_def gate_clients.consistent_def)

section \<open>Properties\<close>

text \<open>
  the global ceiling.  In every reachable state of any number of coroutines around the gate,
  the in-flight count equals the number of coroutines that own a slot (granted waiters that have
  not resumed included), it never exceeds the configured ceiling, the queue never exceeds its
  depth, and while anybody waits the gate is full: no slot is ever lost or left idle.
\<close>

theorem gate_ceiling:
  assumes "gate_start s" "rtranclp gate_step s t"
  shows "in_flight (gs_gate t) = int (count_if gate_holds (gs_pcs t))
    \<and> in_flight (gs_gate t) \<le> max_concurrent (gs_gate t)
    \<and> int (length (waiters (gs_gate t))) \<le> max 0 (queue_depth (gs_gate t))
    \<and> (waiters (gs_gate t) = [] \<or> in_flight (gs_gate t) = max_concurrent (gs_gate t))"
  using gate_reachable [OF assms] by (auto simp: gate_inv_def)

text \<open>A two-coroutine run used by the witnesses: one slot, taken by the first; the second waits.\<close>

definition gate_example :: gate_sys where
  "gate_example =
     \<lparr>gs_gate = new_gate 1 4 50, gs_pcs = [GIdle, GIdle], gs_now = 0, enq_log = [], grant_log = []\<rparr>"

definition gate_example_wait :: gate_sys where
  "gate_example_wait =
     \<lparr>gs_gate = (new_gate 1 4 50)\<lparr>in_flight := 1, waiters := [1]\<rparr>,
      gs_pcs = [GHold, GWait False 5 55], gs_now = 5, enq_log = [1], grant_log = []\<rparr>"

lemma gate_example_start: "gate_start gate_example"
proof -
  have "[GIdle, GIdle] = replicate 2 GIdle" by (simp add: numeral_2_eq_2)
  then show ?thesis unfolding gate_start_def gate_example_def
    by (intro exI [of _ 1] exI [of _ 4] exI [of _ 50] exI [of _ 2]) simp
qed

lemma gate_example_run: "rtranclp gate_step gate_example gate_example_wait"
proof -
  let ?m = "gate_example\<lparr>gs_gate := (new_gate 1 4 50)\<lparr>in_flight := 1\<rparr>, gs_pcs := [GHold, GIdle]\<rparr>"
  have "gate_step gate_example ?m"
    using enter_ok [of 0 gate_example 0 "(new_gate 1 4 50)\<lparr>in_flight := 1\<rparr>"
        "\<lparr>status = Admitted, queued_for = 0\<rparr>"]
    by (simp add: gate_example_def gate_enter_def new_gate_def is_admitted_def)
  moreover have "gate_step ?m gate_example_wait"
    using enter_wait [of 1 ?m 5 "(new_gate 1 4 50)\<lparr>in_flight := 1, waiters := [1]\<rparr>" 5 55]
    by (simp add: gate_example_def gate_example_wait_def gate_enter_def new_gate_def)
  ultimately show ?thesis by (meson converse_rtranclp_into_rtranclp rtranclp.rtrancl_refl)
qed

theorem gate_ceiling_witness:
  "in_flight (gs_gate gate_example_wait) = int (count_if gate_holds (gs_pcs gate_example_wait))
    \<and> in_flight (gs_gate gate_example_wait) \<le> max_concurrent (gs_gate gate_example_wait)
    \<and> int (length (waiters (gs_gate gate_example_wait)))
        \<le> max 0 (queue_depth (gs_gate gate_example_wait))
    \<and> (waiters (gs_gate gate_example_wait) = []
        \<or> in_flight (gs_gate gate_example_wait) = max_concurrent (gs_gate gate_example_wait))"
  by (rule gate_ceiling [OF gate_example_start gate_example_run])

text \<open>
  FIFO.  The coroutines that were granted a slot from the queue, in the order of their grants,
  followed by those still waiting, form a subsequence of the order in which coroutines joined the
  queue: nobody is overtaken (those missing from the subsequence timed out).
\<close>

theorem gate_fifo:
  assumes "gate_start s" "rtranclp gate_step s t"
  shows "subseq (grant_log t @ waiters (gs_gate t)) (enq_log t)"
  using gate_sys.reachable_inv [OF assms] by (simp add: gate_sys_inv_def)

theorem gate_fifo_witness:
  "subseq (grant_log gate_example_wait @ waiters (gs_gate gate_example_wait))
     (enq_log gate_example_wait)"
  by (rule gate_fifo [OF gate_example_start gate_example_run])

text \<open>
  a 429 for a full queue is justified: in a reachable state, \<open>acquire\<close> answers \<open>QueueFull\<close>
  only when all slots are taken and the queue holds at least \<open>queue_depth\<close> waiters.
\<close>

theorem gate_refusal_justified:
  assumes "gate_start s" "rtranclp gate_step s t"
    and "gate_enter w now (gs_gate t) = (g, Ready r)" "status r = QueueFull"
  shows "in_flight (gs_gate t) = max_concurrent (gs_gate t)
    \<and> queue_depth (gs_gate t) \<le> int (length (waiters (gs_gate t)))"
  using gate_reachable [OF assms(1,2)] assms(3,4)
  by (auto simp: gate_inv_def gate_enter_def split: if_splits)

theorem gate_refusal_justified_witness:
  "in_flight (new_gate 0 0 50) = max_concurrent (new_gate 0 0 50)
     \<and> queue_depth (new_gate 0 0 50) \<le> int (length (waiters (new_gate 0 0 50)))"
proof -
  let ?s = "\<lparr>gs_gate = new_gate 0 0 50, gs_pcs = [], gs_now = 0, enq_log = [], grant_log = []\<rparr>"
  have "gate_start ?s" by (auto simp: gate_start_def)
  moreover have "gate_enter 0 0 (gs_gate ?s) =
      (new_gate 0 0 50, Ready \<lparr>status = QueueFull, queued_for = 0\<rparr>)"
    by (simp add: gate_enter_def new_gate_def)
  ultimately show ?thesis
    using gate_refusal_justified [of ?s ?s 0 0 "new_gate 0 0 50"
        "\<lparr>status = QueueFull, queued_for = 0\<rparr>"] by simp
qed

text \<open>
  C25: the lock-free limiter.  Under every interleaving of threads in the compare-and-swap loop
  of \<open>try_acquire\<close> (spurious failures included) and of releases, the counter equals the number
  of holders and stays between 0 and \<open>max_in_flight\<close>.
\<close>

theorem limiter_exact:
  assumes "cas_start s" "rtranclp cas_step s t"
  shows "lim_active (cas_lim t) = int (count_if (\<lambda>pc. pc = CasHolding) (cas_pcs t))
    \<and> 0 \<le> lim_active (cas_lim t) \<and> lim_active (cas_lim t) \<le> lim_max (cas_lim t)"
  using cas_inv.reachable_inv [OF assms] by (simp add: cas.balanced_def)

theorem limiter_exact_witness:
  "lim_active \<lparr>lim_max = 1, lim_active = 1\<rparr> =
      int (count_if (\<lambda>pc. pc = CasHolding) [CasHolding, CasIdle])
    \<and> 0 \<le> lim_active \<lparr>lim_max = 1, lim_active = 1\<rparr>
    \<and> lim_active \<lparr>lim_max = 1, lim_active = 1\<rparr> \<le> lim_max \<lparr>lim_max = 1, lim_active = 1\<rparr>"
proof -
  let ?s = "\<lparr>cas_lim = new_limiter 1, cas_pcs = [CasIdle, CasIdle]\<rparr>"
  let ?m = "\<lparr>cas_lim = new_limiter 1, cas_pcs = [CasLoop 0, CasIdle]\<rparr>"
  let ?t = "\<lparr>cas_lim = \<lparr>lim_max = 1, lim_active = 1\<rparr>, cas_pcs = [CasHolding, CasIdle]\<rparr>"
  have "cas_step ?s ?m" using load [of 0 ?s] by (simp add: new_limiter_def)
  moreover have "cas_step ?m ?t" using exchange [of 0 ?m 0] by (simp add: new_limiter_def)
  ultimately have "rtranclp cas_step ?s ?t"
    by (meson converse_rtranclp_into_rtranclp rtranclp.rtrancl_refl)
  moreover have "cas_start ?s" unfolding cas_start_def
    by (intro exI [of _ 1] exI [of _ 2]) (simp add: numeral_2_eq_2)
  ultimately show ?thesis using limiter_exact [of ?s ?t] by simp
qed

end
