(* ===== verification/Doubles.thy ===== *)
theory Doubles
  imports Kvmux_Prelude Complex_Main
begin

text \<open>
  The C++ type \<open>double\<close>: IEEE binary64 with round-to-nearest, ties to even.  A finite value
  is the rational number it denotes; the two zeros are one value, as no operation the
  sources use tells them apart.  Conversions, products and sums round; every
  comparison with a NaN is false.
\<close>

section \<open>Values and rounding\<close>

datatype double = NaN | PInf | NInf | Fin rat

function num_len :: "int \<Rightarrow> int \<Rightarrow> int" where
  "num_len b n = (if 0 < n \<and> 1 < b then num_len b (n div b) + 1 else 0)"
  by pat_completeness auto
termination
  by (relation "measure (\<lambda>(b, n). nat n)") (auto simp: int_div_less_self nat_mono_iff)

declare num_len.simps [simp del]

text \<open>The integer part of the base-\<open>b\<close> logarithm of a positive rational.\<close>

definition ilog :: "int \<Rightarrow> rat \<Rightarrow> int" where
  "ilog b q =
     (let (n, d) = quotient_of q; e = num_len b n - num_len b d
      in if of_int b powi e \<le> q then e else e - 1)"

definition rint_even :: "rat \<Rightarrow> int" where
  "rint_even q =
     (let f = \<lfloor>q\<rfloor>; r = q - of_int f
      in if r < 1 / 2 then f else if 1 / 2 < r then f + 1 else if even f then f else f + 1)"

definition ulp_exp :: "rat \<Rightarrow> int" where
  "ulp_exp q = max (ilog 2 \<bar>q\<bar> - 52) (- 1074)"

definition round_rat :: "rat \<Rightarrow> rat" where
  "round_rat q =
     (if q = 0 then 0 else of_int (rint_even (q / 2 powi ulp_exp q)) * 2 powi ulp_exp q)"

definition round_double :: "rat \<Rightarrow> double" where
  "round_double q =
     (let v = round_rat q
      in if 2 ^ 1024 \<le> v then PInf else if v \<le> - (2 ^ 1024) then NInf else Fin v)"

section \<open>Operations\<close>

definition double_of_int :: "int \<Rightarrow> double" where
  "double_of_int i = round_double (of_int i)"

fun double_mult :: "double \<Rightarrow> double \<Rightarrow> double" where
  "double_mult (Fin a) (Fin b) = round_double (a * b)"
| "double_mult (Fin a) PInf = (if a = 0 then NaN else if a > 0 then PInf else NInf)"
| "double_mult (Fin a) NInf = (if a = 0 then NaN else if a > 0 then NInf else PInf)"
| "double_mult PInf (Fin b) = (if b = 0 then NaN else if b > 0 then PInf else NInf)"
| "double_mult NInf (Fin b) = (if b = 0 then NaN else if b > 0 then NInf else PInf)"
| "double_mult PInf PInf = PInf"
| "double_mult PInf NInf = NInf"
| "double_mult NInf PInf = NInf"
| "double_mult NInf NInf = PInf"
| "double_mult a b = NaN"

fun double_add :: "double \<Rightarrow> double \<Rightarrow> double" where
  "double_add (Fin a) (Fin b) = round_double (a + b)"
| "double_add NaN b = NaN"
| "double_add a NaN = NaN"
| "double_add PInf NInf = NaN"
| "double_add NInf PInf = NaN"
| "double_add PInf b = PInf"
| "double_add a PInf = PInf"
| "double_add NInf b = NInf"
| "double_add a NInf = NInf"

fun double_le :: "double \<Rightarrow> double \<Rightarrow> bool" where
  "double_le (Fin a) (Fin b) = (a \<le> b)"
| "double_le NaN b = False"
| "double_le a NaN = False"
| "double_le a PInf = True"
| "double_le NInf b = True"
| "double_le a b = False"

fun double_less :: "double \<Rightarrow> double \<Rightarrow> bool" where
  "double_less (Fin a) (Fin b) = (a < b)"
| "double_less NaN b = False"
| "double_less a NaN = False"
| "double_less a PInf = (a \<noteq> PInf)"
| "double_less NInf b = (b \<noteq> NInf)"
| "double_less a b = False"

section \<open>Logarithm and integer rounding\<close>

lemma num_len_bounds:
  assumes "0 < n" "1 < b"
  shows "of_int b powi (num_len b n - 1) \<le> (of_int n :: rat) \<and> (of_int n :: rat) < of_int b powi num_len b n"
  using assms
proof (induction b n rule: num_len.induct)
  case (1 b n)
  have len: "num_len b n = num_len b (n div b) + 1"
    using "1.prems" by (simp add: num_len.simps [of b n])
  show ?case
  proof (cases "n < b")
    case True
    with "1.prems" have "num_len b n = 1"
      by (simp add: len div_pos_pos_trivial num_len.simps [of b 0])
    with True "1.prems" show ?thesis by simp
  next
    case False
    with "1.prems" have q: "0 < n div b" by (simp add: pos_imp_zdiv_pos_iff)
    let ?m = "n div b" and ?B = "of_int b :: rat"
    from "1.IH" "1.prems" q
    have ih: "?B powi (num_len b ?m - 1) \<le> of_int ?m" "of_int ?m < ?B powi num_len b ?m" by auto
    have k: "0 \<le> num_len b ?m"
    proof (rule ccontr)
      assume "\<not> ?thesis"
      then have "?B powi num_len b ?m \<le> ?B powi 0"
        using "1.prems" by (intro power_int_increasing) auto
      with ih(2) q show False by simp
    qed
    have B: "0 < ?B" using "1.prems" by simp
    have "?B powi num_len b ?m = of_int (b ^ nat (num_len b ?m))"
      using k by (simp add: power_int_nonneg_exp)
    with ih(2) have "?m < b ^ nat (num_len b ?m)" by (simp only: of_int_less_iff)
    then have "?m + 1 \<le> b ^ nat (num_len b ?m)" by simp
    then have "(?m + 1) * b \<le> b ^ nat (num_len b ?m) * b"
      using "1.prems" by (intro mult_right_mono) auto
    moreover have "n < (?m + 1) * b"
      using "1.prems" div_mult_mod_eq [of n b] pos_mod_bound [of b n] unfolding distrib_right by linarith
    ultimately have "n < b ^ nat (num_len b ?m) * b" by linarith
    then have up: "(of_int n :: rat) < of_int (b ^ nat (num_len b ?m) * b)" by (simp only: of_int_less_iff)
    have "?m * b \<le> n" using "1.prems" div_mult_mod_eq [of n b] pos_mod_sign [of b n] by linarith
    then have "(of_int ?m :: rat) * ?B \<le> of_int n" by (metis of_int_le_iff of_int_mult)
    moreover have "?B powi (num_len b ?m - 1) * ?B = ?B powi num_len b ?m"
      using B by (simp add: power_int_minus_mult)
    moreover have "?B powi (num_len b ?m - 1) * ?B \<le> of_int ?m * ?B"
      using ih(1) B by (intro mult_right_mono) auto
    ultimately have lo: "?B powi num_len b ?m \<le> of_int n" by linarith
    have "?B powi (num_len b ?m + 1) = ?B powi num_len b ?m * ?B"
      using B by (simp add: power_int_add_1)
    also have "\<dots> = of_int (b ^ nat (num_len b ?m) * b)"
      using k by (simp add: power_int_nonneg_exp)
    finally show ?thesis using lo up by (simp add: len)
  qed
qed

lemma ilog_bounds:
  assumes "0 < q" "1 < b"
  shows "of_int b powi ilog b q \<le> q" "q < of_int b powi (ilog b q + 1)"
proof -
  obtain n d where nd: "quotient_of q = (n, d)" by fastforce
  have d: "0 < d" using quotient_of_denom_pos [OF nd] .
  have q: "q = of_int n / of_int d" using quotient_of_div [OF nd] .
  have n: "0 < n" using assms(1) d by (simp add: q zero_less_divide_iff)
  let ?B = "of_int b :: rat" and ?e = "num_len b n - num_len b d"
  have B: "1 < ?B" using assms(2) by simp
  note nb = num_len_bounds [OF n assms(2)] and db = num_len_bounds [OF d assms(2)]
  have "?B powi (num_len b n - 1) / ?B powi num_len b d < q"
    unfolding q using nb db B d n by (intro frac_less2) (auto simp: zero_less_power_int)
  moreover have "?B powi (num_len b n - 1) / ?B powi num_len b d = ?B powi (?e - 1)"
    using B by (simp add: power_int_diff [symmetric] algebra_simps)
  ultimately have lo: "?B powi (?e - 1) < q" by simp
  have "q < ?B powi num_len b n / ?B powi (num_len b d - 1)"
    unfolding q using nb db B d n by (intro frac_less) (auto simp: zero_less_power_int)
  moreover have "?B powi num_len b n / ?B powi (num_len b d - 1) = ?B powi (?e + 1)"
    using B by (simp add: power_int_diff [symmetric] algebra_simps)
  ultimately have up: "q < ?B powi (?e + 1)" by simp
  show "?B powi ilog b q \<le> q" using lo by (simp add: ilog_def nd Let_def)
  show "q < ?B powi (ilog b q + 1)" using up by (simp add: ilog_def nd Let_def)
qed

lemma ilog_mono:
  assumes "0 < p" "p \<le> q" "1 < b"
  shows "ilog b p \<le> ilog b q"
proof -
  have "(of_int b :: rat) powi ilog b p < of_int b powi (ilog b q + 1)"
    using ilog_bounds(1) [OF assms(1,3)] ilog_bounds(2) [of q b] assms by linarith
  then have "ilog b p < ilog b q + 1"
    using power_int_increasing [of "ilog b q + 1" "ilog b p" "of_int b :: rat"] assms(3)
    by (auto simp: not_less [symmetric])
  then show ?thesis by simp
qed

lemma ilog_unique:
  assumes "of_int b powi e \<le> q" "q < of_int b powi (e + 1)" "1 < b"
  shows "ilog b q = e"
proof -
  have q: "0 < q" using assms(1,3) zero_less_power_int [of "of_int b :: rat" e] by linarith
  have "e < ilog b q + 1" "ilog b q < e + 1"
    using power_int_increasing [of "ilog b q + 1" e "of_int b :: rat"]
      power_int_increasing [of "e + 1" "ilog b q" "of_int b :: rat"]
      ilog_bounds [OF q assms(3)] assms by (auto simp: not_less [symmetric])
  then show ?thesis by simp
qed

lemma rint_even_cases: "rint_even q = \<lfloor>q\<rfloor> \<or> rint_even q = \<lfloor>q\<rfloor> + 1"
  by (auto simp: rint_even_def Let_def)

lemma rint_even_int [simp]: "rint_even (of_int n) = n"
  by (simp add: rint_even_def)

lemma rint_even_mono: "x \<le> y \<Longrightarrow> rint_even x \<le> rint_even y"
proof (cases "\<lfloor>x\<rfloor> = \<lfloor>y\<rfloor>")
  case True
  assume "x \<le> y"
  with True show ?thesis by (auto simp: rint_even_def Let_def)
next
  case False
  assume "x \<le> y"
  with False have "\<lfloor>x\<rfloor> + 1 \<le> \<lfloor>y\<rfloor>" using floor_mono [of x y] by simp
  then show ?thesis using rint_even_cases [of x] rint_even_cases [of y] by auto
qed

lemma rint_even_nonneg: "0 \<le> q \<Longrightarrow> 0 \<le> rint_even q"
  using rint_even_mono [of 0 q] rint_even_int [of 0] by simp

section \<open>Rounding is monotone and exact on small integers\<close>

lemma pow2_pos [simp]: "0 < (2::rat) powi k"
  by (simp add: zero_less_power_int)

text \<open>Rounding to the multiples of \<open>2 powi u\<close>.\<close>

definition round_at :: "int \<Rightarrow> rat \<Rightarrow> rat" where
  "round_at u q = of_int (rint_even (q / 2 powi u)) * 2 powi u"

lemma round_at_mono: "x \<le> y \<Longrightarrow> round_at u x \<le> round_at u y"
  by (simp add: round_at_def rint_even_mono divide_right_mono)

lemma round_at_multiple: "round_at u (of_int n * 2 powi u) = of_int n * 2 powi u"
  using pow2_pos [of u] by (simp add: round_at_def less_le)

lemma pow2_split: "u \<le> k \<Longrightarrow> (2::rat) powi k = of_int (2 ^ nat (k - u)) * 2 powi u"
  using power_int_add [of "2::rat" "k - u" u] by (simp add: power_int_nonneg_exp)

lemma round_at_pow2: "u \<le> k \<Longrightarrow> round_at u (2 powi k) = 2 powi k"
  using round_at_multiple [of u "2 ^ nat (k - u)"] pow2_split [of u k] by simp

lemma round_rat_at: "q \<noteq> 0 \<Longrightarrow> round_rat q = round_at (ulp_exp q) q"
  by (simp add: round_rat_def round_at_def)

lemma round_rat_nonneg: "0 \<le> q \<Longrightarrow> 0 \<le> round_rat q"
  by (simp add: round_rat_def rint_even_nonneg)

lemma round_rat_mono:
  assumes "0 \<le> x" "x \<le> y"
  shows "round_rat x \<le> round_rat y"
proof (cases "x = 0")
  case True
  then show ?thesis using round_rat_nonneg [of y] assms by (simp add: round_rat_def [of 0])
next
  case False
  with assms have x: "0 < x" and y: "0 < y" by auto
  have e: "ilog 2 x \<le> ilog 2 y" using ilog_mono [OF x assms(2), of 2] by simp
  show ?thesis
  proof (cases "ulp_exp x = ulp_exp y")
    case True
    with x y assms(2) show ?thesis by (simp add: round_rat_at round_at_mono)
  next
    case False
    let ?k = "ilog 2 y"
    have u: "ulp_exp x \<le> ?k" "ulp_exp y \<le> ?k" and lt: "ilog 2 x + 1 \<le> ?k"
      using False e x y by (auto simp: ulp_exp_def max_def split: if_splits)
    have "x \<le> 2 powi (ilog 2 x + 1)" using ilog_bounds(2) [OF x, of 2] by simp
    also have "\<dots> \<le> 2 powi ?k" using lt by (intro power_int_increasing) auto
    finally have "round_rat x \<le> 2 powi ?k"
      using round_at_mono [of x "2 powi ?k" "ulp_exp x"] x u(1) by (simp add: round_rat_at round_at_pow2)
    also have "\<dots> \<le> round_rat y"
      using round_at_mono [of "2 powi ?k" y "ulp_exp y"] ilog_bounds(1) [OF y, of 2] y u(2)
      by (simp add: round_rat_at round_at_pow2)
    finally show ?thesis .
  qed
qed

lemma round_double_mono:
  assumes "0 \<le> x" "x \<le> y"
  shows "double_le (round_double x) (round_double y)"
proof -
  have "0 \<le> round_rat x" "round_rat x \<le> round_rat y"
    using assms round_rat_mono round_rat_nonneg by auto
  moreover have "\<not> round_rat x \<le> - (2 ^ 1024)" "\<not> round_rat y \<le> - (2 ^ 1024)"
    using calculation zero_less_power [of "2::rat" 1024] by linarith+
  ultimately show ?thesis by (auto simp: round_double_def Let_def)
qed

lemma round_rat_multiple:
  assumes "q = of_int n * 2 powi ulp_exp q"
  shows "round_rat q = q"
proof (cases "q = 0")
  case False
  then show ?thesis using round_at_multiple [of "ulp_exp q" n] assms by (simp add: round_rat_at)
qed (simp add: round_rat_def)

lemma round_double_small_int:
  assumes "\<bar>i\<bar> \<le> 2 ^ 53"
  shows "round_double (of_int i) = Fin (of_int i)"
proof -
  have r: "round_rat (of_int i) = of_int i"
  proof (cases "i = 0 \<or> \<bar>i\<bar> = 2 ^ 53")
    case True
    then consider "i = 0" | "i = 2 ^ 53" | "i = - (2 ^ 53)" by linarith
    then show ?thesis
    proof cases
      case 1
      then show ?thesis by (simp add: round_rat_def)
    next
      case 2
      then have u: "ulp_exp (of_int i) = 1" using ilog_unique [of 2 53 "2 ^ 53"]
        by (simp add: ulp_exp_def)
      show ?thesis by (rule round_rat_multiple [of _ "2 ^ 52"]) (simp add: u, simp add: 2)
    next
      case 3
      then have u: "ulp_exp (of_int i) = 1" using ilog_unique [of 2 53 "2 ^ 53"]
        by (simp add: ulp_exp_def)
      show ?thesis by (rule round_rat_multiple [of _ "- (2 ^ 52)"]) (simp add: u, simp add: 3)
    qed
  next
    case False
    with assms have i: "1 \<le> \<bar>i\<bar>" "\<bar>i\<bar> < 2 ^ 53" by auto
    let ?q = "\<bar>of_int i\<bar> :: rat"
    have q: "0 < ?q" using i by simp
    have qi: "?q = of_int \<bar>i\<bar>" by simp
    have "(2::rat) powi ilog 2 ?q \<le> ?q" using ilog_bounds(1) [OF q, of 2] by simp
    also have "?q < of_int (2 ^ 53)" unfolding qi using i(2) by (simp only: of_int_less_iff)
    also have "\<dots> = 2 powi 53" by simp
    finally have "ilog 2 ?q < 53"
      using power_int_increasing [of 53 "ilog 2 ?q" "2::rat"] by (auto simp: not_less [symmetric])
    then have u: "ulp_exp (of_int i) \<le> 0" by (simp add: ulp_exp_def)
    have "(of_int i :: rat) = of_int (i * 2 ^ nat (- ulp_exp (of_int i))) * 2 powi ulp_exp (of_int i)"
      using pow2_split [OF u] by simp
    then show ?thesis by (rule round_rat_multiple)
  qed
  have "(of_int i :: rat) < 2 ^ 1024" "- (2 ^ 1024) < (of_int i :: rat)"
  proof -
    have "\<bar>i\<bar> < 2 ^ 1024" using assms by (rule le_less_trans) simp
    then have "\<bar>of_int i :: rat\<bar> < of_int (2 ^ 1024)" by (metis of_int_abs of_int_less_iff)
    then show "(of_int i :: rat) < 2 ^ 1024" "- (2 ^ 1024) < (of_int i :: rat)"
      by (simp_all only: of_int_power of_int_numeral abs_less_iff minus_less_iff)
  qed
  then show ?thesis using r by (simp add: round_double_def Let_def not_le)
qed

lemma double_of_int_exact: "\<bar>i\<bar> \<le> 2 ^ 53 \<Longrightarrow> double_of_int i = Fin (of_int i)"
  by (simp add: double_of_int_def round_double_small_int)

end
