(* ===== verification/Openai.thy ===== *)
theory Openai
  imports Kvmux_Prelude Doubles
begin

text \<open>
  The OpenAI wire types and the error model (\<^verbatim>\<open>src/openai/types.hpp\<close>,
  \<^verbatim>\<open>src/openai/errors.hpp\<close>, \<^verbatim>\<open>src/openai/errors.cpp\<close>).  A JSON value is the value tree of
  nlohmann/json, its objects with their members in key order.  The library's text parser and
  serialiser are parameters: \<open>parse s = None\<close> is a discarded parse (the sources call it without
  exceptions), \<open>dump j = None\<close> is the exception the serialiser throws on a string that is not
  UTF-8.
\<close>

section \<open>JSON values\<close>

datatype json =
    JNull
  | JBool bool
  | JInt int
  | JFloat double
  | JString string
  | JArray "json list"
  | JObject "(string \<times> json) list"

fun is_object :: "json \<Rightarrow> bool" where
  "is_object (JObject m) = True"
| "is_object j = False"

fun obj_find :: "string \<Rightarrow> json \<Rightarrow> json option" where
  "obj_find k (JObject m) = map_of m k"
| "obj_find k j = None"

text \<open>\<open>j[k] = v\<close> on an object.\<close>

fun obj_put :: "string \<Rightarrow> json \<Rightarrow> json \<Rightarrow> json" where
  "obj_put k v (JObject m) = JObject (map_put k v m)"
| "obj_put k v j = j"

text \<open>A braced initialiser list of pairs.\<close>

definition json_of_pairs :: "(string \<times> json) list \<Rightarrow> json" where
  "json_of_pairs kvs = JObject (foldl (\<lambda>m (k, v). map_put k v m) [] kvs)"

lemma obj_find_put [simp]:
  "is_object j \<Longrightarrow> obj_find k (obj_put k' v j) = (if k = k' then Some v else obj_find k j)"
  by (cases j) auto

lemma is_object_put [simp]: "is_object (obj_put k v j) = is_object j"
  by (cases j) auto

section \<open>Error kinds\<close>

datatype error_kind =
    InvalidRequest | UnknownModel | NotFound | Admission | UpstreamFailure | NoBackend
  | UpstreamTimeout

fun status_code :: "error_kind \<Rightarrow> int" where
  "status_code InvalidRequest = 400"
| "status_code UnknownModel = 404"
| "status_code NotFound = 404"
| "status_code Admission = 429"
| "status_code UpstreamFailure = 502"
| "status_code NoBackend = 503"
| "status_code UpstreamTimeout = 504"

fun error_type :: "error_kind \<Rightarrow> string" where
  "error_type InvalidRequest = ''invalid_request_error''"
| "error_type UnknownModel = ''invalid_request_error''"
| "error_type NotFound = ''not_found_error''"
| "error_type Admission = ''rate_limit_error''"
| "error_type UpstreamFailure = ''upstream_error''"
| "error_type NoBackend = ''service_unavailable_error''"
| "error_type UpstreamTimeout = ''timeout_error''"

definition make_error :: "error_kind \<Rightarrow> string \<Rightarrow> string \<Rightarrow> json" where
  "make_error kind message param =
     (let err = json_of_pairs
        [(''message'', JString message),
         (''type'', JString (error_type kind)),
         (''code'', JInt (status_code kind))];
        err1 = obj_put ''param'' (if param = [] then JNull else JString param) err
      in json_of_pairs [(''error'', err1)])"

definition upstream_error :: "string \<Rightarrow> int \<Rightarrow> json" where
  "upstream_error text http_status =
     json_of_pairs
       [(''error'', json_of_pairs
          [(''message'', JString text),
           (''type'', JString ''upstream_error''),
           (''param'', JNull),
           (''code'', JInt http_status)])]"

definition wrap_upstream_error :: "(string \<Rightarrow> json option) \<Rightarrow> string \<Rightarrow> int \<Rightarrow> json" where
  "wrap_upstream_error parse upstream_body http_status =
     (let raw = upstream_error
            (if upstream_body = [] then ''upstream request failed'' else upstream_body) http_status
      in case parse upstream_body of
           None \<Rightarrow> raw
         | Some parsed \<Rightarrow>
             (case obj_find ''error'' parsed of
                None \<Rightarrow> raw
              | Some e \<Rightarrow>
                  if is_object e \<and> obj_find ''message'' e \<noteq> None then parsed
                  else (case e of JString t \<Rightarrow> upstream_error t http_status | _ \<Rightarrow> raw)))"

record request_error =
  err_kind :: error_kind
  err_message :: string
  err_param :: string

definition request_error_json :: "request_error \<Rightarrow> json" where
  "request_error_json e = make_error (err_kind e) (err_message e) (err_param e)"

section \<open>Requests\<close>

record chat_message =
  msg_role :: string
  msg_content :: json

record chat_request =
  cr_model :: string
  cr_messages :: "chat_message list"
  cr_stream :: bool
  cr_raw :: json

definition bad_request :: "string \<Rightarrow> string \<Rightarrow> (request_error, 'a) result" where
  "bad_request message param =
     Inl \<lparr>err_kind = InvalidRequest, err_message = message, err_param = param\<rparr>"

definition parse_message :: "json \<Rightarrow> (request_error, chat_message) result" where
  "parse_message m =
     (case obj_find ''role'' m of
        Some (JString r) \<Rightarrow>
          Inr \<lparr>msg_role = r,
               msg_content = (case obj_find ''content'' m of Some c \<Rightarrow> c | None \<Rightarrow> JNull)\<rparr>
      | _ \<Rightarrow> bad_request (''each message requires a string '' @ quoted ''role'') ''messages'')"

fun parse_messages :: "json list \<Rightarrow> (request_error, chat_message list) result" where
  "parse_messages [] = Inr []"
| "parse_messages (m # ms) =
     (case parse_message m of
        Inl e \<Rightarrow> Inl e
      | Inr msg \<Rightarrow>
          (case parse_messages ms of Inl e \<Rightarrow> Inl e | Inr msgs \<Rightarrow> Inr (msg # msgs)))"

definition parse_stream :: "json \<Rightarrow> (request_error, bool) result" where
  "parse_stream body =
     (case obj_find ''stream'' body of
        None \<Rightarrow> Inr False
      | Some (JBool b) \<Rightarrow> Inr b
      | Some _ \<Rightarrow> bad_request (quoted ''stream'' @ '' must be a boolean'') ''stream'')"

definition parse_request :: "json \<Rightarrow> (request_error, chat_request) result" where
  "parse_request body =
     (if \<not> is_object body then bad_request ''request body must be a JSON object'' []
      else case obj_find ''model'' body of
        Some (JString model) \<Rightarrow>
          (case obj_find ''messages'' body of
             Some (JArray (m # ms)) \<Rightarrow>
               (case parse_messages (m # ms) of
                  Inl e \<Rightarrow> Inl e
                | Inr msgs \<Rightarrow>
                    (case parse_stream body of
                       Inl e \<Rightarrow> Inl e
                     | Inr s \<Rightarrow>
                         Inr \<lparr>cr_model = model, cr_messages = msgs, cr_stream = s, cr_raw = body\<rparr>))
           | _ \<Rightarrow> bad_request (''missing or invalid required field '' @ quoted ''messages'') ''messages'')
      | _ \<Rightarrow> bad_request (''missing or invalid required field '' @ quoted ''model'') ''model'')"

record model_card =
  card_id :: string
  card_owned_by :: string
  card_created :: int

definition new_card :: "string \<Rightarrow> model_card" where
  "new_card i = \<lparr>card_id = i, card_owned_by = ''kvmux'', card_created = 0\<rparr>"

definition card_json :: "model_card \<Rightarrow> json" where
  "card_json m = json_of_pairs
     [(''id'', JString (card_id m)), (''object'', JString ''model''),
      (''created'', JInt (card_created m)), (''owned_by'', JString (card_owned_by m))]"

section \<open>Shape lemmas\<close>

definition openai_error_shaped :: "json \<Rightarrow> bool" where
  "openai_error_shaped j =
     (case obj_find ''error'' j of
        Some e \<Rightarrow> is_object e \<and> obj_find ''message'' e \<noteq> None
      | None \<Rightarrow> False)"

lemma obj_find_pairs:
  "obj_find k (json_of_pairs kvs) = map_of (rev kvs) k" "is_object (json_of_pairs kvs)"
proof -
  have "map_of (foldl (\<lambda>m (k, v). map_put k v m) acc kvs) k = (map_of acc ++ map_of (rev kvs)) k" for acc
    by (induction kvs arbitrary: acc) (auto simp: map_add_def split: option.splits)
  then show "obj_find k (json_of_pairs kvs) = map_of (rev kvs) k"
    by (simp add: json_of_pairs_def)
qed (simp add: json_of_pairs_def)

lemma openai_shape_simps [simp]:
  "openai_error_shaped (make_error kind msg par)"
  "openai_error_shaped (upstream_error text st)"
  by (auto simp: openai_error_shaped_def make_error_def upstream_error_def obj_find_pairs Let_def)

lemma openai_shapedI:
  "obj_find ''error'' j = Some e \<Longrightarrow> is_object e \<Longrightarrow> obj_find ''message'' e = Some m \<Longrightarrow>
     openai_error_shaped j"
  by (simp add: openai_error_shaped_def)

lemma parse_messages_Inr:
  "parse_messages ms = Inr msgs \<Longrightarrow>
     list_all2 (\<lambda>m msg. obj_find ''role'' m = Some (JString (msg_role msg))
       \<and> msg_content msg = (case obj_find ''content'' m of Some c \<Rightarrow> c | None \<Rightarrow> JNull)) ms msgs"
  by (induction ms arbitrary: msgs)
     (auto simp: parse_message_def bad_request_def split: sum.splits option.splits json.splits)

lemma parse_messages_Inl:
  "parse_messages ms = Inl e \<Longrightarrow> err_kind e = InvalidRequest"
  by (induction ms)
     (auto simp: parse_message_def bad_request_def split: sum.splits option.splits json.splits)

section \<open>Properties\<close>

text \<open>The requests the gateway accepts: what the comments of \<open>types.hpp\<close> require of a body.\<close>

definition valid_request :: "json \<Rightarrow> bool" where
  "valid_request body =
     (is_object body
      \<and> (\<exists>m. obj_find ''model'' body = Some (JString m))
      \<and> (\<exists>ms. obj_find ''messages'' body = Some (JArray ms) \<and> ms \<noteq> []
           \<and> (\<forall>x \<in> set ms. \<exists>r. obj_find ''role'' x = Some (JString r)))
      \<and> (\<forall>v. obj_find ''stream'' body = Some v \<longrightarrow> (\<exists>b. v = JBool b)))"

lemma parse_messages_ok:
  "(\<exists>msgs. parse_messages ms = Inr msgs) \<longleftrightarrow>
     (\<forall>x \<in> set ms. \<exists>r. obj_find ''role'' x = Some (JString r))"
  by (induction ms)
     (auto simp: parse_message_def bad_request_def split: sum.splits option.splits json.splits)

lemma parse_stream_ok:
  "(\<exists>b. parse_stream body = Inr b) \<longleftrightarrow>
     (\<forall>v. obj_find ''stream'' body = Some v \<longrightarrow> (\<exists>b. v = JBool b))"
  by (auto simp: parse_stream_def bad_request_def split: option.splits json.splits)

lemma parse_request_Inr:
  "parse_request body = Inr r \<longleftrightarrow>
     is_object body \<and> obj_find ''model'' body = Some (JString (cr_model r)) \<and> cr_raw r = body
     \<and> (\<exists>ms. obj_find ''messages'' body = Some (JArray ms) \<and> ms \<noteq> []
          \<and> parse_messages ms = Inr (cr_messages r))
     \<and> parse_stream body = Inr (cr_stream r)"
  by (cases r)
     (auto simp: parse_request_def bad_request_def neq_Nil_conv
       split: if_splits option.splits json.splits list.splits sum.splits)

text \<open>
  C37: a request is accepted exactly when it is an object with a string \<open>model\<close>, a non-empty
  array \<open>messages\<close> of objects with a string \<open>role\<close>, and no \<open>stream\<close> or a boolean one.
\<close>

theorem parse_request_accepts:
  "(\<exists>r. parse_request body = Inr r) \<longleftrightarrow> valid_request body"
proof
  assume "\<exists>r. parse_request body = Inr r"
  then obtain r where "parse_request body = Inr r" ..
  then show "valid_request body"
    unfolding parse_request_Inr valid_request_def
    using parse_messages_ok parse_stream_ok by blast
next
  assume v: "valid_request body"
  then obtain m ms where m: "is_object body" "obj_find ''model'' body = Some (JString m)"
      "obj_find ''messages'' body = Some (JArray ms)" "ms \<noteq> []"
      "\<forall>x \<in> set ms. \<exists>r. obj_find ''role'' x = Some (JString r)"
    by (auto simp: valid_request_def)
  obtain msgs where msgs: "parse_messages ms = Inr msgs" using m(5) parse_messages_ok by blast
  obtain b where "parse_stream body = Inr b"
    using v parse_stream_ok unfolding valid_request_def by blast
  with m msgs have
    "parse_request body = Inr \<lparr>cr_model = m, cr_messages = msgs, cr_stream = b, cr_raw = body\<rparr>"
    unfolding parse_request_Inr by auto
  then show "\<exists>r. parse_request body = Inr r" ..
qed

text \<open>
  the parsed view is faithful.  The original body is kept whole, model and stream flag
  are those of the body, and there is one message per array element, in order, with its role and
  its content (null when absent).
\<close>

theorem parse_request_faithful:
  assumes "parse_request body = Inr r"
  shows "cr_raw r = body \<and> obj_find ''model'' body = Some (JString (cr_model r))
    \<and> cr_stream r = (obj_find ''stream'' body = Some (JBool True))
    \<and> (\<exists>ms. obj_find ''messages'' body = Some (JArray ms) \<and> ms \<noteq> []
         \<and> list_all2 (\<lambda>m msg. obj_find ''role'' m = Some (JString (msg_role msg))
              \<and> msg_content msg = (case obj_find ''content'' m of Some c \<Rightarrow> c | None \<Rightarrow> JNull))
            ms (cr_messages r))"
proof -
  note r = assms [unfolded parse_request_Inr]
  then have "cr_stream r = (obj_find ''stream'' body = Some (JBool True))"
    by (auto simp: parse_stream_def bad_request_def split: option.splits json.splits)
  with r show ?thesis using parse_messages_Inr by blast
qed

definition example_body :: json where
  "example_body = JObject
     [(''messages'', JArray [JObject [(''content'', JString ''hi''), (''role'', JString ''user'')]]),
      (''model'', JString ''m''), (''stream'', JBool True)]"

definition example_request :: chat_request where
  "example_request =
     \<lparr>cr_model = ''m'', cr_messages = [\<lparr>msg_role = ''user'', msg_content = JString ''hi''\<rparr>],
      cr_stream = True, cr_raw = example_body\<rparr>"

lemma parse_example: "parse_request example_body = Inr example_request"
  by code_simp

theorem parse_request_faithful_witness:
  "cr_raw example_request = example_body
    \<and> obj_find ''model'' example_body = Some (JString (cr_model example_request))
    \<and> cr_stream example_request = (obj_find ''stream'' example_body = Some (JBool True))
    \<and> (\<exists>ms. obj_find ''messages'' example_body = Some (JArray ms) \<and> ms \<noteq> []
         \<and> list_all2 (\<lambda>m msg. obj_find ''role'' m = Some (JString (msg_role msg))
              \<and> msg_content msg = (case obj_find ''content'' m of Some c \<Rightarrow> c | None \<Rightarrow> JNull))
            ms (cr_messages example_request))"
  by (rule parse_request_faithful [OF parse_example])

text \<open>
  whatever an upstream error body contains (an OpenAI error object, Ollama's plain string,
  arbitrary text, nothing), the wrapped error handed downstream has the OpenAI shape: an object
  whose member \<open>error\<close> is an object with a \<open>message\<close>.
\<close>

theorem wrap_upstream_error_shaped: "openai_error_shaped (wrap_upstream_error parse text st)"
  by (auto simp: wrap_upstream_error_def Let_def intro: openai_shapedI
      split: option.split json.split)

end
