(* ===== verification/Routing.thy ===== *)
theory Routing
  imports Kvmux_Prelude Doubles Openai "HOL-Library.Multiset"
begin

text \<open>
  Routing policies (\<^verbatim>\<open>src/routing/policy.hpp\<close>, \<^verbatim>\<open>src/routing/round_robin.cpp\<close>,
  \<^verbatim>\<open>src/routing/prefix_affinity.cpp\<close>).  XXH64 with seed 0 is third-party code and a parameter
  \<open>xxh64\<close> of every definition that hashes; JSON serialisation (\<open>dump\<close>) likewise.  The rotation
  cursor is a 64-bit word.
\<close>

section \<open>Policy data\<close>

record candidate =
  backend_index :: nat
  active_requests :: int
  cand_max :: int

record route_order =
  ro_order :: "nat list"
  ro_spills :: int

definition empty_order :: route_order where
  "empty_order = \<lparr>ro_order = [], ro_spills = 0\<rparr>"

section \<open>RoundRobin\<close>

definition round_robin_order :: "u64 \<Rightarrow> candidate list \<Rightarrow> u64 \<times> route_order" where
  "round_robin_order cursor candidates =
     (let n = length candidates
      in if n = 0 then (cursor, empty_order)
         else (cursor + 1,
           \<lparr>ro_order = map (\<lambda>i. backend_index
                (candidates ! unat ((cursor + of_nat i) mod of_nat n))) [0..<n],
            ro_spills = 0\<rparr>))"

section \<open>PrefixAffinity\<close>

definition append_capped :: "nat \<Rightarrow> string \<Rightarrow> string \<Rightarrow> string" where
  "append_capped budget out s =
     (if length out \<ge> budget then out else out @ take (budget - length out) s)"

fun append_messages :: "nat \<Rightarrow> string \<Rightarrow> (string \<times> string) list \<Rightarrow> string" where
  "append_messages budget out [] = out"
| "append_messages budget out ((role, content) # msgs) =
     (if length out \<ge> budget then out
      else append_messages budget
        (append_capped budget
          (append_capped budget (append_capped budget out role) '':'') content) msgs)"

definition canonical_affinity_string :: "string \<Rightarrow> (string \<times> string) list \<Rightarrow> int \<Rightarrow> string" where
  "canonical_affinity_string model msgs prefix_bytes =
     (let budget = (if prefix_bytes > 0 then nat prefix_bytes else 0);
          out = append_capped budget (append_capped budget [] model) [CHR 0x1F]
      in append_messages budget out msgs)"

definition affinity_key_hash :: "(string \<Rightarrow> u64) \<Rightarrow> string \<Rightarrow> u64" where
  "affinity_key_hash xxh64 canonical = xxh64 canonical"

text \<open>
  The two flattenings of a message's content: \<open>content_to_string\<close> of \<open>affinity_key_for_request\<close>,
  and the one the gateway's \<open>order_candidates\<close> writes out.
\<close>

fun part_to_string :: "(json \<Rightarrow> string option) \<Rightarrow> json \<Rightarrow> string option" where
  "part_to_string dump part =
     (case obj_find ''text'' part of Some (JString t) \<Rightarrow> Some t | _ \<Rightarrow> dump part)"

fun concat_parts :: "(json \<Rightarrow> string option) \<Rightarrow> json list \<Rightarrow> string option" where
  "concat_parts dump [] = Some []"
| "concat_parts dump (p # ps) =
     (case part_to_string dump p of
        None \<Rightarrow> None
      | Some s \<Rightarrow> map_option (\<lambda>rest. s @ rest) (concat_parts dump ps))"

fun content_to_string :: "(json \<Rightarrow> string option) \<Rightarrow> json \<Rightarrow> string option" where
  "content_to_string dump (JString s) = Some s"
| "content_to_string dump JNull = Some []"
| "content_to_string dump (JArray parts) = concat_parts dump parts"
| "content_to_string dump j = dump j"

fun gateway_content :: "(json \<Rightarrow> string option) \<Rightarrow> json \<Rightarrow> string option" where
  "gateway_content dump (JString s) = Some s"
| "gateway_content dump JNull = Some []"
| "gateway_content dump j = dump j"

fun flatten_messages ::
  "(json \<Rightarrow> string option) \<Rightarrow> chat_message list \<Rightarrow> (string \<times> string) list option" where
  "flatten_messages flat [] = Some []"
| "flatten_messages flat (m # ms) =
     (case flat (msg_content m) of
        None \<Rightarrow> None
      | Some c \<Rightarrow> map_option (\<lambda>rest. (msg_role m, c) # rest) (flatten_messages flat ms))"

definition affinity_key_for_request ::
  "(string \<Rightarrow> u64) \<Rightarrow> (json \<Rightarrow> string option) \<Rightarrow> chat_request \<Rightarrow> int \<Rightarrow> u64 option" where
  "affinity_key_for_request xxh64 dump req prefix_bytes =
     map_option (\<lambda>msgs. affinity_key_hash xxh64
         (canonical_affinity_string (cr_model req) msgs prefix_bytes))
       (flatten_messages (content_to_string dump) (cr_messages req))"

text \<open>The 16-byte buffer is filled by \<open>memcpy\<close> on a little-endian machine.\<close>

definition bytes_le :: "u64 \<Rightarrow> string" where
  "bytes_le w = map (\<lambda>i. char_of (unat w div 256 ^ i)) [0..<8]"

record scored =
  sc_index :: nat
  sc_score :: u64

definition hrw_score :: "(string \<Rightarrow> u64) \<Rightarrow> u64 \<Rightarrow> nat \<Rightarrow> u64" where
  "hrw_score xxh64 key idx = xxh64 (bytes_le key @ bytes_le (of_nat idx))"

definition scored_before :: "scored \<Rightarrow> scored \<Rightarrow> bool" where
  "scored_before a b =
     (if sc_score a \<noteq> sc_score b then sc_score a > sc_score b else sc_index a < sc_index b)"

text \<open>
  \<open>std::sort\<close> with that comparator, as insertion sort; \<open>hrw_sort_unique\<close> below shows that every
  sorted rearrangement is this one.
\<close>

fun insert_scored :: "scored \<Rightarrow> scored list \<Rightarrow> scored list" where
  "insert_scored x [] = [x]"
| "insert_scored x (y # ys) =
     (if scored_before y x then y # insert_scored x ys else x # y # ys)"

definition sort_scored :: "scored list \<Rightarrow> scored list" where
  "sort_scored xs = foldr insert_scored xs []"

definition score_candidates :: "(string \<Rightarrow> u64) \<Rightarrow> u64 \<Rightarrow> candidate list \<Rightarrow> scored list" where
  "score_candidates xxh64 key candidates =
     map (\<lambda>c. \<lparr>sc_index = backend_index c, sc_score = hrw_score xxh64 key (backend_index c)\<rparr>) candidates"

definition hrw_rank :: "(string \<Rightarrow> u64) \<Rightarrow> u64 \<Rightarrow> candidate list \<Rightarrow> nat list" where
  "hrw_rank xxh64 key candidates =
     map sc_index (sort_scored (score_candidates xxh64 key candidates))"

fun load_of :: "candidate list \<Rightarrow> nat \<Rightarrow> int \<times> int" where
  "load_of [] idx = (0, 1)"
| "load_of (c # cs) idx =
     (if backend_index c = idx then (active_requests c, cand_max c) else load_of cs idx)"

definition over_limit :: "double \<Rightarrow> candidate list \<Rightarrow> nat \<Rightarrow> bool" where
  "over_limit load_threshold candidates idx =
     (let (active, cap) = load_of candidates idx;
          limit = double_mult load_threshold (double_of_int cap)
      in double_le limit (double_of_int active))"

fun leading_spills :: "double \<Rightarrow> candidate list \<Rightarrow> nat list \<Rightarrow> nat" where
  "leading_spills thr candidates [] = 0"
| "leading_spills thr candidates (r # rs) =
     (if over_limit thr candidates r then Suc (leading_spills thr candidates rs) else 0)"

definition affinity_order ::
  "(string \<Rightarrow> u64) \<Rightarrow> double \<Rightarrow> string \<Rightarrow> candidate list \<Rightarrow> route_order" where
  "affinity_order xxh64 load_threshold affinity_key candidates =
     (if candidates = [] then empty_order
      else
        let rank = hrw_rank xxh64 (affinity_key_hash xxh64 affinity_key) candidates;
            head = leading_spills load_threshold candidates rank
        in if head \<ge> length rank then \<lparr>ro_order = rank, ro_spills = int head\<rparr>
           else \<lparr>ro_order = rank ! head # (take head rank @ drop (Suc head) rank),
                 ro_spills = int head\<rparr>)"

section \<open>The policy contract\<close>

text \<open>
  What the gateway relies on, whatever the policy: the order lists only backends it was offered,
  and as many entries as there are candidates (a vector's size fits in 64 bits).
\<close>

locale route_policy =
  fixes route :: "'st \<Rightarrow> 'req \<Rightarrow> candidate list \<Rightarrow> 'st \<times> route_order"
  assumes route_members: "length cs < 2 ^ 64 \<Longrightarrow> route st req cs = (st', ro) \<Longrightarrow>
      set (ro_order ro) \<subseteq> backend_index ` set cs"
    and route_length: "route st req cs = (st', ro) \<Longrightarrow> length (ro_order ro) = length cs"
begin

lemma route_nonempty: "route st req cs = (st', ro) \<Longrightarrow> cs \<noteq> [] \<Longrightarrow> ro_order ro \<noteq> []"
  using route_length by fastforce

lemma route_allowed:
  "length cs < 2 ^ 64 \<Longrightarrow> route st req cs = (st', ro) \<Longrightarrow> \<forall>c \<in> set cs. P (backend_index c) \<Longrightarrow> \<forall>b \<in> set (ro_order ro). P b"
  using route_members by blast

end

section \<open>Sorting by score\<close>

lemma mset_insert_scored [simp]: "mset (insert_scored x xs) = add_mset x (mset xs)"
  by (induction xs) auto

lemma mset_sort_scored [simp]: "mset (sort_scored xs) = mset xs"
  unfolding sort_scored_def by (induction xs) auto

lemma set_sort_scored [simp]: "set (sort_scored xs) = set xs"
  by (metis mset_sort_scored set_mset_mset)

lemma length_sort_scored [simp]: "length (sort_scored xs) = length xs"
  by (metis mset_sort_scored size_mset)

lemma scored_before_linear: "scored_before a b \<or> a = b \<or> scored_before b a"
  by (cases a; cases b) (auto simp: scored_before_def)

lemma scored_before_trans: "scored_before a b \<Longrightarrow> scored_before b c \<Longrightarrow> scored_before a c"
  by (auto simp: scored_before_def split: if_splits)

lemma scored_before_asym: "scored_before a b \<Longrightarrow> \<not> scored_before b a"
  by (auto simp: scored_before_def split: if_splits)

abbreviation scored_sorted :: "scored list \<Rightarrow> bool" where
  "scored_sorted \<equiv> sorted_wrt (\<lambda>a b. \<not> scored_before b a)"

lemma set_insert_scored [simp]: "set (insert_scored x xs) = insert x (set xs)"
  by (metis mset_insert_scored set_mset_add_mset_insert set_mset_mset)

lemma sorted_insert_scored: "scored_sorted xs \<Longrightarrow> scored_sorted (insert_scored x xs)"
proof (induction xs)
  case (Cons y ys)
  show ?case
  proof (cases "scored_before y x")
    case True
    with Cons show ?thesis using scored_before_asym by auto
  next
    case False
    with Cons.prems show ?thesis
      using scored_before_linear scored_before_trans by fastforce
  qed
qed simp

lemma sorted_sort_scored: "scored_sorted (sort_scored xs)"
  unfolding sort_scored_def by (induction xs) (auto intro: sorted_insert_scored)

lemma hrw_sort_unique:
  "scored_sorted xs \<Longrightarrow> scored_sorted ys \<Longrightarrow> mset xs = mset ys \<Longrightarrow> xs = ys"
proof (induction xs arbitrary: ys)
  case (Cons x xs)
  then obtain y ys' where ys: "ys = y # ys'" by (cases ys) auto
  have "x \<in> set ys" "y \<in> set (x # xs)"
    using Cons.prems(3) ys by (metis list.set_intros(1) set_mset_mset)+
  then have "\<not> scored_before x y \<or> x = y" "\<not> scored_before y x \<or> x = y"
    using Cons.prems(1,2) ys by auto
  then have "x = y" using scored_before_linear by blast
  with Cons ys show ?case by auto
qed simp

text \<open>Sorting commutes with filtering: removing candidates never reorders the others.\<close>

lemma sorted_filter_scored: "scored_sorted xs \<Longrightarrow> scored_sorted (filter P xs)"
  by (induction xs) auto

lemma sort_scored_filter: "sort_scored (filter P xs) = filter P (sort_scored xs)"
  by (rule hrw_sort_unique) (simp_all add: sorted_sort_scored sorted_filter_scored)

section \<open>HRW ranking\<close>

lemma mset_hrw_rank: "mset (hrw_rank xxh key cs) = mset (map backend_index cs)"
  by (simp add: hrw_rank_def score_candidates_def multiset.map_comp comp_def)

lemma length_hrw_rank [simp]: "length (hrw_rank xxh key cs) = length cs"
  by (simp add: hrw_rank_def score_candidates_def)

lemma set_hrw_rank [simp]: "set (hrw_rank xxh key cs) = backend_index ` set cs"
  by (metis mset_hrw_rank set_map set_mset_mset)

lemma hrw_rank_filter:
  "hrw_rank xxh key (filter (\<lambda>c. Q (backend_index c)) cs) = filter Q (hrw_rank xxh key cs)"
proof -
  have "score_candidates xxh key (filter (\<lambda>c. Q (backend_index c)) cs) =
      filter (\<lambda>s. Q (sc_index s)) (score_candidates xxh key cs)"
    by (induction cs) (auto simp: score_candidates_def)
  then show ?thesis by (simp add: hrw_rank_def sort_scored_filter filter_map comp_def)
qed

section \<open>Load guard\<close>

lemma leading_spills_le: "leading_spills thr cs rank \<le> length rank"
  by (induction rank) auto

lemma leading_spills_prefix:
  "\<forall>b \<in> set (take (leading_spills thr cs rank) rank). over_limit thr cs b"
  by (induction rank) auto

lemma leading_spills_head:
  "leading_spills thr cs rank < length rank \<Longrightarrow>
     \<not> over_limit thr cs (rank ! leading_spills thr cs rank)"
  by (induction rank) auto

lemma mset_move_to_front:
  "h < length xs \<Longrightarrow> mset (xs ! h # (take h xs @ drop (Suc h) xs)) = mset xs"
  by (subst (4) id_take_nth_drop [of h xs]) simp_all

lemma mset_affinity_order:
  "mset (ro_order (affinity_order xxh thr key cs)) = mset (map backend_index cs)"
proof (cases "cs = []")
  case False
  let ?rank = "hrw_rank xxh (affinity_key_hash xxh key) cs"
  show ?thesis
    using False mset_move_to_front [of "leading_spills thr cs ?rank" ?rank]
      mset_hrw_rank [of xxh "affinity_key_hash xxh key" cs]
    by (auto simp: affinity_order_def Let_def not_le)
qed (simp add: affinity_order_def empty_order_def)

lemma double_le_trans_int: "double_le x (Fin a) \<Longrightarrow> a \<le> b \<Longrightarrow> double_le x (Fin b)"
  by (cases x) auto

lemma saturated_over_limit:
  assumes "load_of cs b = (a, c)" "c \<le> a" "0 \<le> c" "a \<le> 2 ^ 53" "0 \<le> t" "t \<le> 1"
  shows "over_limit (Fin t) cs b"
proof -
  have ex: "double_of_int c = Fin (of_int c)" "double_of_int a = Fin (of_int a)"
    using assms by (auto intro!: double_of_int_exact)
  have "0 \<le> t * of_int c" "t * of_int c \<le> (of_int c :: rat)"
    using assms by (auto simp: mult_left_le_one_le)
  then have "double_le (round_double (t * of_int c)) (round_double (of_int c))"
    by (rule round_double_mono)
  then have "double_le (round_double (t * of_int c)) (Fin (of_int a))"
    using ex(1) assms(2) by (auto simp: double_of_int_def intro: double_le_trans_int)
  then show ?thesis by (simp add: over_limit_def assms(1) ex)
qed

section \<open>The canonical prefix\<close>

lemma append_capped_take: "append_capped b (take b xs) s = take b (xs @ s)"
  by (auto simp: append_capped_def min_def)

lemma take_take_append: "take b (take b xs @ ys) = take b (xs @ ys)"
  by (auto simp: min_def)

lemma append_messages_take:
  "length out \<le> b \<Longrightarrow>
     append_messages b out msgs = take b (out @ concat (map (\<lambda>(r, c). r @ '':'' @ c) msgs))"
proof (induction b out msgs rule: append_messages.induct)
  case (2 b out r c msgs)
  show ?case
  proof (cases "b \<le> length out")
    case False
    let ?o = "append_capped b (append_capped b (append_capped b out r) '':'') c"
    have out: "out = take b out" using "2.prems" by simp
    have o: "?o = take b (((out @ r) @ '':'') @ c)"
      by (subst out) (simp only: append_capped_take)
    then have "append_messages b ?o msgs =
        take b (?o @ concat (map (\<lambda>(r, c). r @ '':'' @ c) msgs))"
      using "2.IH" [OF False] by simp
    also have "\<dots> = take b ((((out @ r) @ '':'') @ c) @ concat (map (\<lambda>(r, c). r @ '':'' @ c) msgs))"
      unfolding o by (rule take_take_append)
    finally show ?thesis using False by simp
  qed (use "2.prems" in simp)
qed simp

definition canonical_full :: "string \<Rightarrow> (string \<times> string) list \<Rightarrow> string" where
  "canonical_full model msgs =
     model @ [CHR 0x1F] @ concat (map (\<lambda>(r, c). r @ '':'' @ c) msgs)"

lemma canonical_take:
  "canonical_affinity_string model msgs n = take (nat n) (canonical_full model msgs)"
proof -
  let ?b = "nat n" and ?tail = "concat (map (\<lambda>(r, c). r @ '':'' @ c) msgs)"
  have "canonical_affinity_string model msgs n =
      append_messages ?b (append_capped ?b (append_capped ?b [] model) [CHR 0x1F]) msgs"
    by (simp add: canonical_affinity_string_def Let_def)
  also have "append_capped ?b (append_capped ?b [] model) [CHR 0x1F] = take ?b (model @ [CHR 0x1F])"
    using append_capped_take [of ?b "[]" model] append_capped_take [of ?b model] by simp
  also have "append_messages ?b \<dots> msgs = take ?b (take ?b (model @ [CHR 0x1F]) @ ?tail)"
    by (rule append_messages_take) simp
  also have "\<dots> = take ?b ((model @ [CHR 0x1F]) @ ?tail)" by (rule take_take_append)
  finally show ?thesis by (simp add: canonical_full_def)
qed

section \<open>Rotation\<close>

lemma rotation_index:
  assumes "unat cursor + n < 2 ^ 64" "i < n"
  shows "unat ((cursor + of_nat i) mod (of_nat n :: u64)) = (unat cursor + i) mod n"
proof -
  have n: "unat (of_nat i :: u64) = i" "unat (of_nat n :: u64) = n"
    using assms by (auto simp: unat_of_nat)
  then have "unat (cursor + of_nat i) = unat cursor + i"
    using assms by (simp add: unat_word_ariths)
  with n show ?thesis by (simp add: unat_mod)
qed

lemma round_robin_rotates:
  assumes "cs \<noteq> []" "unat cursor + length cs < 2 ^ 64"
  shows "round_robin_order cursor cs =
    (cursor + 1, \<lparr>ro_order = rotate (unat cursor) (map backend_index cs), ro_spills = 0\<rparr>)"
proof -
  have "map (\<lambda>i. backend_index (cs ! unat ((cursor + of_nat i) mod of_nat (length cs)))) [0..<length cs]
      = rotate (unat cursor) (map backend_index cs)"
    using assms by (intro nth_equalityI) (auto simp: rotation_index nth_rotate)
  with assms(1) show ?thesis by (simp add: round_robin_order_def Let_def)
qed

text \<open>The backends chosen first by \<open>k\<close> consecutive calls over the same candidates.\<close>

fun rr_heads :: "u64 \<Rightarrow> candidate list \<Rightarrow> nat \<Rightarrow> nat list" where
  "rr_heads cursor cs 0 = []"
| "rr_heads cursor cs (Suc k) =
     (let (cursor', ro) = round_robin_order cursor cs in hd (ro_order ro) # rr_heads cursor' cs k)"

lemma rr_heads_rotation:
  assumes "cs \<noteq> []" "unat cursor + k + length cs < 2 ^ 64"
  shows "rr_heads cursor cs k =
    map (\<lambda>j. map backend_index cs ! ((unat cursor + j) mod length cs)) [0..<k]"
  using assms(2)
proof (induction k arbitrary: cursor)
  case (Suc k)
  have "unat (cursor + 1) = unat cursor + 1"
    using Suc.prems by (simp add: unat_word_ariths)
  moreover have "hd (rotate (unat cursor) (map backend_index cs)) =
      map backend_index cs ! (unat cursor mod length cs)"
    using assms(1) by (simp add: hd_rotate_conv_nth)
  moreover have "[0..<Suc k] = 0 # map Suc [0..<k]"
    by (simp add: upt_conv_Cons map_Suc_upt del: upt_Suc)
  ultimately show ?case
    using Suc.IH [of "cursor + 1"] Suc.prems round_robin_rotates [OF assms(1), of cursor]
    by (simp add: comp_def del: upt_Suc)
qed simp

lemma rr_heads_add:
  "cs \<noteq> [] \<Longrightarrow> rr_heads cursor cs (a + b) =
     rr_heads cursor cs a @ rr_heads (cursor + of_nat a) cs b"
  by (induction a arbitrary: cursor) (auto simp: round_robin_order_def Let_def algebra_simps)

lemma mset_rotation: "mset (rotate n xs) = mset xs"
  unfolding rotate_drop_take by (metis append_take_drop_id mset_append union_commute)

lemma rr_heads_round:
  assumes "cs \<noteq> []" "unat cursor + 2 * length cs < 2 ^ 64"
  shows "mset (rr_heads cursor cs (length cs)) = mset (map backend_index cs)"
proof -
  have "rr_heads cursor cs (length cs) =
      map (\<lambda>j. map backend_index cs ! ((unat cursor + j) mod length cs)) [0..<length cs]"
    by (rule rr_heads_rotation) (use assms in auto)
  also have "\<dots> = rotate (unat cursor) (map backend_index cs)"
    by (rule nth_equalityI) (simp_all add: nth_rotate)
  finally show ?thesis by (simp only: mset_rotation)
qed

lemma rr_heads_rounds:
  assumes "cs \<noteq> []" "unat cursor + (k + 1) * length cs < 2 ^ 64"
  shows "mset (rr_heads cursor cs (k * length cs)) = repeat_mset k (mset (map backend_index cs))"
  using assms(2)
proof (induction k arbitrary: cursor)
  case (Suc k)
  let ?n = "length cs"
  have n: "unat cursor + 2 * ?n < 2 ^ 64" using Suc.prems by (simp add: algebra_simps)
  then have u: "unat (cursor + of_nat ?n) = unat cursor + ?n"
    by (simp add: unat_word_ariths unat_of_nat)
  have "mset (rr_heads (cursor + of_nat ?n) cs (k * ?n)) = repeat_mset k (mset (map backend_index cs))"
    using Suc.prems by (intro Suc.IH) (simp add: u algebra_simps)
  then show ?case
    using rr_heads_round [OF assms(1) n] rr_heads_add [OF assms(1), of cursor ?n "k * ?n"] by simp
qed simp

lemma rotation_in_range:
  assumes "0 < n" "n < 2 ^ 64"
  shows "unat (x mod (of_nat n :: u64)) < n"
proof -
  have "unat (of_nat n :: u64) = n" using assms(2) by (simp add: unat_of_nat)
  then show ?thesis using assms(1) by (simp add: unat_mod)
qed

interpretation round_robin: route_policy "\<lambda>cursor (_ :: unit) cs. round_robin_order cursor cs"
proof unfold_locales
  fix st :: u64 and req :: unit and cs st' ro
  assume "length cs < 2 ^ 64" "round_robin_order st cs = (st', ro)"
  then show "set (ro_order ro) \<subseteq> backend_index ` set cs"
    using rotation_in_range [of "length cs"]
    by (auto simp: round_robin_order_def Let_def empty_order_def split: if_splits)
qed (auto simp: round_robin_order_def Let_def empty_order_def split: if_splits)

interpretation affinity: route_policy "\<lambda>(_ :: unit) key cs. ((), affinity_order xxh thr key cs)"
  for xxh thr
proof unfold_locales
  fix st st' :: unit and key cs ro
  assume "((), affinity_order xxh thr key cs) = (st', ro)"
  then have "mset (ro_order ro) = mset (map backend_index cs)"
    using mset_affinity_order [of xxh thr key cs] by auto
  then show "set (ro_order ro) \<subseteq> backend_index ` set cs" "length (ro_order ro) = length cs"
    by (metis mset_eq_setD order_refl set_map, metis length_map size_mset)
qed

section \<open>Properties\<close>

text \<open>
  prefix affinity is a ranking of all candidates.  Whatever the hash, key, threshold and
  load, the returned order lists every candidate exactly once: a spilled winner stays
  available for failover.
\<close>

theorem affinity_order_permutes:
  "mset (ro_order (affinity_order xxh thr key cs)) = mset (map backend_index cs)"
  by (rule mset_affinity_order)

text \<open>
  C27: minimal reshuffle.  When backends leave (or fail to be eligible), the rendezvous ranking of
  the remaining ones is the old ranking with the missing ones deleted; a key changes its
  winner only if its winner left.
\<close>

theorem hrw_minimal_reshuffle:
  "hrw_rank xxh key (filter (\<lambda>c. Q (backend_index c)) cs) = filter Q (hrw_rank xxh key cs)"
  by (rule hrw_rank_filter)

text \<open>
  C26: the load guard.  The candidates skipped as spills are exactly the leading ones of the HRW
  ranking that are at or above the limit; the chosen head is the first one below it, followed by
  the rest of the ranking in order.  If none is below, the order is the plain ranking.
\<close>

theorem affinity_load_guard:
  fixes xxh :: "string \<Rightarrow> u64" and key :: string and thr :: double
  assumes "cs \<noteq> []"
  defines "rank \<equiv> hrw_rank xxh (affinity_key_hash xxh key) cs"
    and "ro \<equiv> affinity_order xxh thr key cs"
  shows "(\<exists>pre b post. rank = pre @ b # post \<and> (\<forall>x \<in> set pre. over_limit thr cs x)
            \<and> \<not> over_limit thr cs b \<and> ro_order ro = b # pre @ post \<and> ro_spills ro = int (length pre))
    \<or> ((\<forall>x \<in> set rank. over_limit thr cs x) \<and> ro_order ro = rank \<and> ro_spills ro = int (length cs))"
proof -
  define h where "h = leading_spills thr cs rank"
  show ?thesis
  proof (cases "h < length rank")
    case True
    have "rank = take h rank @ rank ! h # drop (Suc h) rank" using True by (rule id_take_nth_drop)
    moreover have "\<forall>x \<in> set (take h rank). over_limit thr cs x" "\<not> over_limit thr cs (rank ! h)"
      using leading_spills_prefix leading_spills_head True by (auto simp: h_def)
    moreover have "ro_order ro = rank ! h # take h rank @ drop (Suc h) rank" "ro_spills ro = int h"
      using True assms(1) by (auto simp: ro_def affinity_order_def h_def rank_def Let_def)
    ultimately show ?thesis using True
      by (intro disjI1 exI [of _ "take h rank"] exI [of _ "rank ! h"] exI [of _ "drop (Suc h) rank"])
         simp
  next
    case False
    then have "h = length rank" using leading_spills_le [of thr cs rank] by (simp add: h_def)
    then show ?thesis
      using leading_spills_prefix [of thr cs rank] assms(1)
      by (auto simp: ro_def affinity_order_def h_def rank_def Let_def)
  qed
qed

definition two_candidates :: "candidate list" where
  "two_candidates =
     [\<lparr>backend_index = 0, active_requests = 0, cand_max = 8\<rparr>,
      \<lparr>backend_index = 1, active_requests = 8, cand_max = 8\<rparr>]"

theorem affinity_load_guard_witness:
  "(\<exists>pre b post. hrw_rank (\<lambda>_. 0) (affinity_key_hash (\<lambda>_. 0) ''k'') two_candidates = pre @ b # post
        \<and> (\<forall>x \<in> set pre. over_limit (Fin 1) two_candidates x)
        \<and> \<not> over_limit (Fin 1) two_candidates b
        \<and> ro_order (affinity_order (\<lambda>_. 0) (Fin 1) ''k'' two_candidates) = b # pre @ post
        \<and> ro_spills (affinity_order (\<lambda>_. 0) (Fin 1) ''k'' two_candidates) = int (length pre))
    \<or> ((\<forall>x \<in> set (hrw_rank (\<lambda>_. 0) (affinity_key_hash (\<lambda>_. 0) ''k'') two_candidates).
          over_limit (Fin 1) two_candidates x)
        \<and> ro_order (affinity_order (\<lambda>_. 0) (Fin 1) ''k'' two_candidates) =
          hrw_rank (\<lambda>_. 0) (affinity_key_hash (\<lambda>_. 0) ''k'') two_candidates
        \<and> ro_spills (affinity_order (\<lambda>_. 0) (Fin 1) ''k'' two_candidates) =
          int (length two_candidates))"
  by (rule affinity_load_guard) (simp add: two_candidates_def)

text \<open>
  a saturated backend is never preferred.  For every threshold in \<open>[0, 1]\<close> (the range the
  configuration accepts), a backend that already has \<open>max_in_flight\<close> requests is over the
  limit in double arithmetic, rounding included.
\<close>

theorem saturated_backend_spills:
  assumes "load_of cs b = (a, c)" "c \<le> a" "0 \<le> c" "a \<le> 2 ^ 53" "0 \<le> t" "t \<le> 1"
  shows "over_limit (Fin t) cs b"
  by (rule saturated_over_limit [OF assms])

theorem saturated_backend_spills_witness: "over_limit (Fin (1 / 2)) two_candidates 1"
  by (rule saturated_backend_spills [of two_candidates 1 8 8]) (simp_all add: two_candidates_def)

text \<open>
  C38: the capped, early-stopping construction of the affinity string is exactly the first
  \<open>prefix_bytes\<close> bytes of the full canonical concatenation.
\<close>

theorem canonical_affinity_prefix:
  "canonical_affinity_string model msgs n = take (nat n) (canonical_full model msgs)"
  by (rule canonical_take)

text \<open>
  stickiness.  Two requests whose canonical concatenations agree on the first \<open>prefix_bytes\<close>
  bytes get the same route (order and spills) over the same candidates.
\<close>

theorem shared_prefix_same_route:
  assumes "take (nat n) (canonical_full m1 msgs1) = take (nat n) (canonical_full m2 msgs2)"
  shows "affinity_order xxh thr (canonical_affinity_string m1 msgs1 n) cs =
    affinity_order xxh thr (canonical_affinity_string m2 msgs2 n) cs"
  using assms by (simp add: canonical_take)

theorem shared_prefix_same_route_witness:
  "affinity_order (\<lambda>s. of_nat (length s)) (Fin 1)
      (canonical_affinity_string ''m'' [(''user'', ''hello'')] 6) two_candidates =
   affinity_order (\<lambda>s. of_nat (length s)) (Fin 1)
      (canonical_affinity_string ''m'' [(''user'', ''bye'')] 6) two_candidates"
  by (rule shared_prefix_same_route) (simp add: canonical_full_def)

text \<open>
  C39: round robin.  Until the 64-bit cursor wraps, each call returns the candidates rotated by the
  cursor and advances it by one, and any \<open>k\<close> rounds of \<open>n\<close> consecutive calls over the same \<open>n\<close>
  candidates put every one of them first exactly \<open>k\<close> times.
\<close>

theorem round_robin_fair:
  assumes "cs \<noteq> []" "unat cursor + (k + 1) * length cs < 2 ^ 64"
  shows "round_robin_order cursor cs =
      (cursor + 1, \<lparr>ro_order = rotate (unat cursor) (map backend_index cs), ro_spills = 0\<rparr>)
    \<and> mset (rr_heads cursor cs (k * length cs)) = repeat_mset k (mset (map backend_index cs))"
  using round_robin_rotates [OF assms(1), of cursor] rr_heads_rounds [OF assms] assms(2) by simp

theorem round_robin_fair_witness:
  "round_robin_order 7 two_candidates =
      (7 + 1, \<lparr>ro_order = rotate (unat (7::u64)) (map backend_index two_candidates), ro_spills = 0\<rparr>)
    \<and> mset (rr_heads 7 two_candidates (3 * length two_candidates)) =
      repeat_mset 3 (mset (map backend_index two_candidates))"
  by (rule round_robin_fair) (simp_all add: two_candidates_def)

text \<open>
  the wrap-around of the cursor breaks the rotation.  With three candidates and the cursor at
  \<open>2 ^ 64 - 1\<close>, the additions wrap inside the loop, the first candidate is listed twice and the
  third one not at all.
\<close>

theorem round_robin_wrap:
  "ro_order (snd (round_robin_order (- 1)
      (map (\<lambda>i. \<lparr>backend_index = i, active_requests = 0, cand_max = 8\<rparr>) [0, 1, 2]))) = [0, 0, 1]"
  by (simp add: round_robin_order_def upt_rec)

end
