(* ===== verification/Config.thy ===== *)
theory Config
  imports Kvmux_Prelude Doubles
begin

text \<open>
  The configuration loader (\<^verbatim>\<open>src/config.hpp\<close>, \<^verbatim>\<open>src/config.cpp\<close>).  A TOML document is the
  node tree of toml++, each node with its source position; a table lists its entries in the
  library's iteration order.  The text parser, the file system and the library's
  \<open>is_array_of_tables\<close> are parameters.  An error is the message of the \<open>ConfigError\<close>.
\<close>

section \<open>Configuration data\<close>

datatype backend_type = Vllm | Llamacpp | Ollama

fun backend_type_to_string :: "backend_type \<Rightarrow> string" where
  "backend_type_to_string Vllm = ''vllm''"
| "backend_type_to_string Llamacpp = ''llamacpp''"
| "backend_type_to_string Ollama = ''ollama''"

record backend_config =
  bc_name :: string
  bc_type :: backend_type
  bc_base_url :: string
  bc_models :: "string list"
  bc_max_in_flight :: int
  bc_health_interval_ms :: int
  bc_failure_threshold :: int
  bc_open_ms :: int

record server_config =
  sc_listen :: string
  sc_port :: int
  sc_max_concurrent_streams :: int
  sc_queue_depth :: int
  sc_queue_timeout_ms :: int
  sc_request_timeout_ms :: int

definition default_server :: server_config where
  "default_server =
     \<lparr>sc_listen = ''0.0.0.0'', sc_port = 8080, sc_max_concurrent_streams = 256,
      sc_queue_depth = 64, sc_queue_timeout_ms = 5000, sc_request_timeout_ms = 300000\<rparr>"

datatype routing_policy = PrefixAffinity | RoundRobin

fun policy_to_string :: "routing_policy \<Rightarrow> string" where
  "policy_to_string PrefixAffinity = ''prefix_affinity''"
| "policy_to_string RoundRobin = ''round_robin''"

record routing_config =
  rc_policy :: routing_policy
  rc_prefix_bytes :: int
  rc_load_threshold :: double

definition default_routing :: routing_config where
  "default_routing =
     \<lparr>rc_policy = PrefixAffinity, rc_prefix_bytes = 1024,
      rc_load_threshold = round_double (8 / 10)\<rparr>"

record config =
  cfg_server :: server_config
  cfg_metrics_port :: int
  cfg_routing :: routing_config
  cfg_backends :: "backend_config list"

definition default_config :: config where
  "default_config =
     \<lparr>cfg_server = default_server, cfg_metrics_port = 9090, cfg_routing = default_routing,
      cfg_backends = []\<rparr>"

section \<open>TOML nodes\<close>

record source_pos =
  pos_line :: nat
  pos_col :: nat

datatype toml =
    TString source_pos string
  | TInt source_pos int
  | TFloat source_pos double
  | TBool source_pos bool
  | TDate source_pos
  | TArray source_pos "toml list"
  | TTable source_pos "(string \<times> toml) list"

type_synonym toml_table = "(string \<times> toml) list"
type_synonym 'a checked = "(string, 'a) result"

fun node_pos :: "toml \<Rightarrow> source_pos" where
  "node_pos (TString p s) = p"
| "node_pos (TInt p i) = p"
| "node_pos (TFloat p d) = p"
| "node_pos (TBool p b) = p"
| "node_pos (TDate p) = p"
| "node_pos (TArray p xs) = p"
| "node_pos (TTable p t) = p"

definition node_loc :: "toml \<Rightarrow> string" where
  "node_loc n = '' (line '' @ nat_to_string (pos_line (node_pos n)) @ '', col ''
     @ nat_to_string (pos_col (node_pos n)) @ '')''"

section \<open>Checked getters\<close>

fun reject_unknown_keys :: "toml_table \<Rightarrow> string list \<Rightarrow> string \<Rightarrow> unit checked" where
  "reject_unknown_keys [] allowed section = Inr ()"
| "reject_unknown_keys ((key, node) # tbl) allowed section =
     (if key \<notin> set allowed
      then Inl (''unknown key '' @ quoted key @ '' in ['' @ section @ '']'' @ node_loc node)
      else reject_unknown_keys tbl allowed section)"

definition key_in :: "string \<Rightarrow> string \<Rightarrow> string" where
  "key_in key section = ''key '' @ quoted key @ '' in ['' @ section @ '']''"

definition req_string :: "toml_table \<Rightarrow> string \<Rightarrow> string \<Rightarrow> string checked" where
  "req_string tbl key section =
     (case map_of tbl key of
        None \<Rightarrow> Inl (''missing required '' @ key_in key section)
      | Some (TString p s) \<Rightarrow> Inr s
      | Some node \<Rightarrow> Inl (key_in key section @ '' must be a string'' @ node_loc node))"

definition opt_string :: "toml_table \<Rightarrow> string \<Rightarrow> string \<Rightarrow> string \<Rightarrow> string checked" where
  "opt_string tbl key section dflt =
     (case map_of tbl key of
        None \<Rightarrow> Inr dflt
      | Some (TString p s) \<Rightarrow> Inr s
      | Some node \<Rightarrow> Inl (key_in key section @ '' must be a string'' @ node_loc node))"

definition out_of_range :: "string \<Rightarrow> string \<Rightarrow> string \<Rightarrow> string \<Rightarrow> string \<Rightarrow> toml \<Rightarrow> string" where
  "out_of_range key section v lo hi node =
     key_in key section @ '' = '' @ v @ '' is out of range ['' @ lo @ '', '' @ hi @ '']'' @ node_loc node"

definition opt_int :: "toml_table \<Rightarrow> string \<Rightarrow> string \<Rightarrow> int \<Rightarrow> int \<Rightarrow> int \<Rightarrow> int checked" where
  "opt_int tbl key section dflt min_val max_val =
     (case map_of tbl key of
        None \<Rightarrow> Inr dflt
      | Some (TInt p v) \<Rightarrow>
          (if v < min_val \<or> v > max_val
           then Inl (out_of_range key section (int_to_string v) (int_to_string min_val)
                  (int_to_string max_val) (TInt p v))
           else Inr v)
      | Some node \<Rightarrow> Inl (key_in key section @ '' must be an integer'' @ node_loc node))"

text \<open>\<open>std::to_string(double)\<close>: six decimals, the exact value rounded to nearest even.\<close>

definition pad6 :: "nat \<Rightarrow> string" where
  "pad6 n = (let s = nat_to_string n in replicate (6 - length s) (CHR ''0'') @ s)"

fun double_to_string :: "double \<Rightarrow> string" where
  "double_to_string NaN = ''nan''"
| "double_to_string PInf = ''inf''"
| "double_to_string NInf = ''-inf''"
| "double_to_string (Fin q) =
     (let n = nat (rint_even (\<bar>q\<bar> * 1000000))
      in (if q < 0 then ''-'' else []) @ nat_to_string (n div 1000000) @ ''.'' @ pad6 (n mod 1000000))"

definition check_range ::
  "string \<Rightarrow> string \<Rightarrow> double \<Rightarrow> double \<Rightarrow> double \<Rightarrow> toml \<Rightarrow> double checked" where
  "check_range key section min_val max_val v node =
     (if double_less v min_val \<or> double_less max_val v
      then Inl (out_of_range key section (double_to_string v) (double_to_string min_val)
             (double_to_string max_val) node)
      else Inr v)"

definition opt_double ::
  "toml_table \<Rightarrow> string \<Rightarrow> string \<Rightarrow> double \<Rightarrow> double \<Rightarrow> double \<Rightarrow> double checked" where
  "opt_double tbl key section dflt min_val max_val =
     (case map_of tbl key of
        None \<Rightarrow> Inr dflt
      | Some (TFloat p d) \<Rightarrow> check_range key section min_val max_val d (TFloat p d)
      | Some (TInt p i) \<Rightarrow> check_range key section min_val max_val (double_of_int i) (TInt p i)
      | Some node \<Rightarrow> Inl (key_in key section @ '' must be a number'' @ node_loc node))"

definition parse_backend_type :: "string \<Rightarrow> toml \<Rightarrow> backend_type checked" where
  "parse_backend_type s n =
     (if s = ''vllm'' then Inr Vllm
      else if s = ''llamacpp'' then Inr Llamacpp
      else if s = ''ollama'' then Inr Ollama
      else Inl (''backend '' @ quoted ''type'' @ '' must be one of vllm|llamacpp|ollama, got ''
             @ quoted s @ node_loc n))"

definition parse_policy :: "string \<Rightarrow> toml \<Rightarrow> routing_policy checked" where
  "parse_policy s n =
     (if s = ''prefix_affinity'' then Inr PrefixAffinity
      else if s = ''round_robin'' then Inr RoundRobin
      else Inl (''routing '' @ quoted ''policy'' @ '' must be prefix_affinity|round_robin, got ''
             @ quoted s @ node_loc n))"

section \<open>Sections\<close>

definition server_keys :: "string list" where
  "server_keys = [''listen'', ''port'', ''max_concurrent_streams'', ''queue_depth'',
     ''queue_timeout_ms'', ''request_timeout_ms'']"

definition parse_server_table :: "toml_table \<Rightarrow> server_config \<Rightarrow> server_config checked" where
  "parse_server_table tbl s =
     result_bind (reject_unknown_keys tbl server_keys ''server'') (\<lambda>_.
     result_bind (opt_string tbl ''listen'' ''server'' (sc_listen s)) (\<lambda>listen.
     result_bind (opt_int tbl ''port'' ''server'' (sc_port s) 1 65535) (\<lambda>port.
     result_bind (opt_int tbl ''max_concurrent_streams'' ''server''
       (sc_max_concurrent_streams s) 1 1000000) (\<lambda>streams.
     result_bind (opt_int tbl ''queue_depth'' ''server'' (sc_queue_depth s) 0 1000000) (\<lambda>depth.
     result_bind (opt_int tbl ''queue_timeout_ms'' ''server''
       (sc_queue_timeout_ms s) 0 3600000) (\<lambda>qt.
     result_bind (opt_int tbl ''request_timeout_ms'' ''server''
       (sc_request_timeout_ms s) 1 86400000) (\<lambda>rt.
     Inr \<lparr>sc_listen = listen, sc_port = port, sc_max_concurrent_streams = streams,
          sc_queue_depth = depth, sc_queue_timeout_ms = qt, sc_request_timeout_ms = rt\<rparr>)))))))"

definition parse_server :: "toml_table \<Rightarrow> config \<Rightarrow> config checked" where
  "parse_server doc cfg =
     (case map_of doc ''server'' of
        None \<Rightarrow> Inr cfg
      | Some (TTable p tbl) \<Rightarrow>
          result_bind (parse_server_table tbl (cfg_server cfg)) (\<lambda>s. Inr (cfg\<lparr>cfg_server := s\<rparr>))
      | Some node \<Rightarrow> Inl (''[server] must be a table'' @ node_loc node))"

definition parse_metrics :: "toml_table \<Rightarrow> config \<Rightarrow> config checked" where
  "parse_metrics doc cfg =
     (case map_of doc ''metrics'' of
        None \<Rightarrow> Inr cfg
      | Some (TTable p tbl) \<Rightarrow>
          result_bind (reject_unknown_keys tbl [''port''] ''metrics'') (\<lambda>_.
          result_bind (opt_int tbl ''port'' ''metrics'' (cfg_metrics_port cfg) 1 65535) (\<lambda>port.
          Inr (cfg\<lparr>cfg_metrics_port := port\<rparr>)))
      | Some node \<Rightarrow> Inl (''[metrics] must be a table'' @ node_loc node))"

definition parse_policy_key :: "toml_table \<Rightarrow> routing_policy \<Rightarrow> routing_policy checked" where
  "parse_policy_key tbl dflt =
     (case map_of tbl ''policy'' of
        None \<Rightarrow> Inr dflt
      | Some (TString p s) \<Rightarrow> parse_policy s (TString p s)
      | Some node \<Rightarrow> Inl (''routing '' @ quoted ''policy'' @ '' must be a string'' @ node_loc node))"

definition parse_routing_table :: "toml_table \<Rightarrow> routing_config \<Rightarrow> routing_config checked" where
  "parse_routing_table tbl r =
     result_bind (reject_unknown_keys tbl [''policy'', ''prefix_bytes'', ''load_threshold'']
       ''routing'') (\<lambda>_.
     result_bind (parse_policy_key tbl (rc_policy r)) (\<lambda>policy.
     result_bind (opt_int tbl ''prefix_bytes'' ''routing'' (rc_prefix_bytes r) 1 1048576) (\<lambda>pb.
     result_bind (opt_double tbl ''load_threshold'' ''routing'' (rc_load_threshold r)
       (Fin 0) (Fin 1)) (\<lambda>lt.
     Inr \<lparr>rc_policy = policy, rc_prefix_bytes = pb, rc_load_threshold = lt\<rparr>))))"

definition parse_routing :: "toml_table \<Rightarrow> config \<Rightarrow> config checked" where
  "parse_routing doc cfg =
     (case map_of doc ''routing'' of
        None \<Rightarrow> Inr cfg
      | Some (TTable p tbl) \<Rightarrow>
          result_bind (parse_routing_table tbl (cfg_routing cfg)) (\<lambda>r. Inr (cfg\<lparr>cfg_routing := r\<rparr>))
      | Some node \<Rightarrow> Inl (''[routing] must be a table'' @ node_loc node))"

definition default_backend :: backend_config where
  "default_backend =
     \<lparr>bc_name = [], bc_type = Vllm, bc_base_url = [], bc_models = [], bc_max_in_flight = 8,
      bc_health_interval_ms = 2000, bc_failure_threshold = 5, bc_open_ms = 10000\<rparr>"

definition backend_keys :: "string list" where
  "backend_keys = [''name'', ''type'', ''base_url'', ''models'', ''max_in_flight'',
     ''health_interval_ms'', ''failure_threshold'', ''open_ms'']"

definition backends_section :: string where
  "backends_section = ''[backends]]''"

definition parse_type_key :: "toml_table \<Rightarrow> string \<Rightarrow> backend_type checked" where
  "parse_type_key tbl name =
     (case map_of tbl ''type'' of
        Some (TString p s) \<Rightarrow> parse_backend_type s (TString p s)
      | _ \<Rightarrow> Inl (''backend '' @ quoted name @ '' missing required string key '' @ quoted ''type''))"

fun parse_model_names :: "string \<Rightarrow> toml list \<Rightarrow> string list checked" where
  "parse_model_names name [] = Inr []"
| "parse_model_names name (TString p s # ms) =
     result_bind (parse_model_names name ms) (\<lambda>rest. Inr (s # rest))"
| "parse_model_names name (m # ms) =
     Inl (''backend '' @ quoted name @ '' '' @ quoted ''models'' @ '' entries must be strings''
        @ node_loc m)"

definition parse_models_key :: "toml_table \<Rightarrow> string \<Rightarrow> string list checked" where
  "parse_models_key tbl name =
     (case map_of tbl ''models'' of
        Some (TArray p (m # ms)) \<Rightarrow> parse_model_names name (m # ms)
      | _ \<Rightarrow> Inl (''backend '' @ quoted name @ '' requires a non-empty '' @ quoted ''models''
             @ '' array''))"

definition parse_backend :: "string list \<Rightarrow> toml_table \<Rightarrow> backend_config checked" where
  "parse_backend seen tbl =
     result_bind (reject_unknown_keys tbl backend_keys backends_section) (\<lambda>_.
     result_bind (req_string tbl ''name'' backends_section) (\<lambda>name.
     if name \<in> set seen then Inl (''duplicate backend name '' @ quoted name) else
     result_bind (parse_type_key tbl name) (\<lambda>type.
     result_bind (req_string tbl ''base_url'' backends_section) (\<lambda>url.
     result_bind (parse_models_key tbl name) (\<lambda>models.
     result_bind (opt_int tbl ''max_in_flight'' backends_section
       (bc_max_in_flight default_backend) 1 1000000) (\<lambda>mif.
     result_bind (opt_int tbl ''health_interval_ms'' backends_section
       (bc_health_interval_ms default_backend) 100 3600000) (\<lambda>hi.
     result_bind (opt_int tbl ''failure_threshold'' backends_section
       (bc_failure_threshold default_backend) 1 1000000) (\<lambda>ft.
     result_bind (opt_int tbl ''open_ms'' backends_section
       (bc_open_ms default_backend) 1 3600000) (\<lambda>om.
     Inr \<lparr>bc_name = name, bc_type = type, bc_base_url = url, bc_models = models,
          bc_max_in_flight = mif, bc_health_interval_ms = hi, bc_failure_threshold = ft,
          bc_open_ms = om\<rparr>)))))))))"

text \<open>
  The source dereferences \<open>elem.as_table()\<close> without a test, relying on \<open>is_array_of_tables\<close>; an
  element that is no table is undefined behaviour there, an error value here.
\<close>

fun parse_backend_list ::
  "string list \<Rightarrow> toml list \<Rightarrow> backend_config list checked" where
  "parse_backend_list seen [] = Inr []"
| "parse_backend_list seen (TTable p tbl # elems) =
     result_bind (parse_backend seen tbl) (\<lambda>b.
     result_bind (parse_backend_list (bc_name b # seen) elems) (\<lambda>bs. Inr (b # bs)))"
| "parse_backend_list seen (elem # elems) = Inl ''undefined behaviour: null table''"

definition parse_backends :: "(toml \<Rightarrow> bool) \<Rightarrow> toml_table \<Rightarrow> config \<Rightarrow> config checked" where
  "parse_backends is_array_of_tables doc cfg =
     (case map_of doc ''backends'' of
        None \<Rightarrow> Inl ''at least one [[backends]] entry is required''
      | Some node \<Rightarrow>
          (if \<not> is_array_of_tables node
           then Inl (''[[backends]] must be an array of tables'' @ node_loc node)
           else (case node of
                   TArray p arr \<Rightarrow>
                     (if arr = [] then Inl ''at least one [[backends]] entry is required''
                      else result_bind (parse_backend_list [] arr) (\<lambda>bs.
                             Inr (cfg\<lparr>cfg_backends := cfg_backends cfg @ bs\<rparr>)))
                 | _ \<Rightarrow> Inl ''undefined behaviour: null array'')))"

definition root_keys :: "string list" where
  "root_keys = [''server'', ''metrics'', ''routing'', ''backends'']"

definition validate :: "(toml \<Rightarrow> bool) \<Rightarrow> toml_table \<Rightarrow> config checked" where
  "validate is_array_of_tables doc =
     result_bind (reject_unknown_keys doc root_keys ''<root>'') (\<lambda>_.
     result_bind (parse_server doc default_config) (\<lambda>cfg.
     result_bind (parse_metrics doc cfg) (\<lambda>cfg.
     result_bind (parse_routing doc cfg) (\<lambda>cfg.
     parse_backends is_array_of_tables doc cfg))))"

section \<open>Loading\<close>

record parse_error =
  pe_description :: string
  pe_pos :: source_pos

text \<open>\<open>toml::parse\<close> is \<open>parse\<close>: the parse error, or the root table.\<close>

definition load_string ::
  "(string \<Rightarrow> string \<Rightarrow> (parse_error, toml_table) result) \<Rightarrow> (toml \<Rightarrow> bool) \<Rightarrow>
   string \<Rightarrow> string \<Rightarrow> config checked" where
  "load_string parse is_array_of_tables toml_text source_name =
     (case parse toml_text source_name of
        Inl e \<Rightarrow> Inl (''TOML parse error in '' @ source_name @ '': '' @ pe_description e @ '' (line ''
               @ nat_to_string (pos_line (pe_pos e)) @ '', col ''
               @ nat_to_string (pos_col (pe_pos e)) @ '')'')
      | Inr doc \<Rightarrow> validate is_array_of_tables doc)"

definition load_file ::
  "(string \<Rightarrow> string option) \<Rightarrow> (string \<Rightarrow> string \<Rightarrow> (parse_error, toml_table) result) \<Rightarrow>
   (toml \<Rightarrow> bool) \<Rightarrow> string \<Rightarrow> config checked" where
  "load_file read_file parse is_array_of_tables path =
     (case read_file path of
        None \<Rightarrow> Inl (''cannot open config file: '' @ path)
      | Some text \<Rightarrow> load_string parse is_array_of_tables text path)"

section \<open>What an accepted configuration satisfies\<close>

definition server_ok :: "server_config \<Rightarrow> bool" where
  "server_ok s \<longleftrightarrow> sc_port s \<in> {1..65535} \<and> sc_max_concurrent_streams s \<in> {1..1000000} \<and>
     sc_queue_depth s \<in> {0..1000000} \<and> sc_queue_timeout_ms s \<in> {0..3600000} \<and>
     sc_request_timeout_ms s \<in> {1..86400000}"

text \<open>Every comparison with NaN is false, so the range test lets NaN through.\<close>

definition threshold_ok :: "double \<Rightarrow> bool" where
  "threshold_ok d \<longleftrightarrow> d = NaN \<or> (\<exists>q. d = Fin q \<and> 0 \<le> q \<and> q \<le> 1)"

definition routing_ok :: "routing_config \<Rightarrow> bool" where
  "routing_ok r \<longleftrightarrow> rc_prefix_bytes r \<in> {1..1048576} \<and> threshold_ok (rc_load_threshold r)"

definition backend_ok :: "backend_config \<Rightarrow> bool" where
  "backend_ok b \<longleftrightarrow> bc_models b \<noteq> [] \<and> bc_max_in_flight b \<in> {1..1000000} \<and>
     bc_health_interval_ms b \<in> {100..3600000} \<and> bc_failure_threshold b \<in> {1..1000000} \<and>
     bc_open_ms b \<in> {1..3600000}"

definition config_ok :: "config \<Rightarrow> bool" where
  "config_ok cfg \<longleftrightarrow> server_ok (cfg_server cfg) \<and> cfg_metrics_port cfg \<in> {1..65535} \<and>
     routing_ok (cfg_routing cfg) \<and> cfg_backends cfg \<noteq> [] \<and>
     list_all backend_ok (cfg_backends cfg) \<and> distinct (map bc_name (cfg_backends cfg))"

text \<open>The keys a table uses are among the allowed ones, in every section.\<close>

definition keys_known :: "string list \<Rightarrow> toml \<Rightarrow> bool" where
  "keys_known allowed node =
     (case node of TTable p tbl \<Rightarrow> fst ` set tbl \<subseteq> set allowed | _ \<Rightarrow> False)"

definition document_keys_known :: "toml_table \<Rightarrow> bool" where
  "document_keys_known doc \<longleftrightarrow> fst ` set doc \<subseteq> set root_keys \<and>
     pred_option (keys_known server_keys) (map_of doc ''server'') \<and>
     pred_option (keys_known [''port'']) (map_of doc ''metrics'') \<and>
     pred_option (keys_known [''policy'', ''prefix_bytes'', ''load_threshold''])
       (map_of doc ''routing'') \<and>
     (\<exists>p arr. map_of doc ''backends'' = Some (TArray p arr) \<and>
        list_all (keys_known backend_keys) arr)"

text \<open>The document that spells a configuration out in full, with \<open>p\<close> as every position.\<close>

definition backend_doc :: "source_pos \<Rightarrow> backend_config \<Rightarrow> toml" where
  "backend_doc p b = TTable p
     [(''base_url'', TString p (bc_base_url b)),
      (''failure_threshold'', TInt p (bc_failure_threshold b)),
      (''health_interval_ms'', TInt p (bc_health_interval_ms b)),
      (''max_in_flight'', TInt p (bc_max_in_flight b)),
      (''models'', TArray p (map (TString p) (bc_models b))),
      (''name'', TString p (bc_name b)),
      (''open_ms'', TInt p (bc_open_ms b)),
      (''type'', TString p (backend_type_to_string (bc_type b)))]"

definition server_doc :: "source_pos \<Rightarrow> server_config \<Rightarrow> toml" where
  "server_doc p s = TTable p
     [(''listen'', TString p (sc_listen s)),
      (''max_concurrent_streams'', TInt p (sc_max_concurrent_streams s)),
      (''port'', TInt p (sc_port s)),
      (''queue_depth'', TInt p (sc_queue_depth s)),
      (''queue_timeout_ms'', TInt p (sc_queue_timeout_ms s)),
      (''request_timeout_ms'', TInt p (sc_request_timeout_ms s))]"

definition routing_doc :: "source_pos \<Rightarrow> routing_config \<Rightarrow> toml" where
  "routing_doc p r = TTable p
     [(''load_threshold'', TFloat p (rc_load_threshold r)),
      (''policy'', TString p (policy_to_string (rc_policy r))),
      (''prefix_bytes'', TInt p (rc_prefix_bytes r))]"

definition config_doc :: "source_pos \<Rightarrow> config \<Rightarrow> toml_table" where
  "config_doc p cfg =
     [(''backends'', TArray p (map (backend_doc p) (cfg_backends cfg))),
      (''metrics'', TTable p [(''port'', TInt p (cfg_metrics_port cfg))]),
      (''routing'', routing_doc p (cfg_routing cfg)),
      (''server'', server_doc p (cfg_server cfg))]"

text \<open>A configuration with one backend and every default, used to instantiate the results.\<close>

definition example_pos :: source_pos where
  "example_pos = \<lparr>pos_line = 1, pos_col = 1\<rparr>"

definition example_config :: config where
  "example_config = default_config\<lparr>cfg_backends :=
     [default_backend\<lparr>bc_name := ''a'', bc_base_url := ''http://h'', bc_models := [''m'']\<rparr>]\<rparr>"

definition nonempty_tables :: "toml \<Rightarrow> bool" where
  "nonempty_tables node =
     (case node of
        TArray p ts \<Rightarrow> ts \<noteq> [] \<and> list_all (\<lambda>t. case t of TTable q u \<Rightarrow> True | _ \<Rightarrow> False) ts
      | _ \<Rightarrow> False)"

section \<open>Soundness of the getters and sections\<close>

lemma reject_unknown_keys_iff:
  "reject_unknown_keys tbl allowed sect = Inr u \<longleftrightarrow> fst ` set tbl \<subseteq> set allowed"
  by (induction tbl allowed sect rule: reject_unknown_keys.induct) auto

lemma opt_int_range:
  "opt_int tbl key section d lo hi = Inr v \<Longrightarrow> lo \<le> d \<and> d \<le> hi \<longrightarrow> lo \<le> v \<and> v \<le> hi"
  by (auto simp: opt_int_def split: option.splits toml.splits if_splits)

lemma check_range_unit: "check_range key section (Fin 0) (Fin 1) v node = Inr w \<longleftrightarrow> w = v \<and> threshold_ok v"
  by (cases v) (auto simp: check_range_def threshold_ok_def)

lemma opt_double_unit:
  "opt_double tbl key section d (Fin 0) (Fin 1) = Inr v \<Longrightarrow> threshold_ok d \<longrightarrow> threshold_ok v"
  by (auto simp: opt_double_def check_range_unit split: option.splits toml.splits)

lemma parse_model_names_length: "parse_model_names name ms = Inr names \<Longrightarrow> length names = length ms"
  by (induction name ms arbitrary: names rule: parse_model_names.induct)
     (auto simp: result_bind_Inr)

lemma parse_models_nonempty: "parse_models_key tbl name = Inr models \<Longrightarrow> models \<noteq> []"
  by (auto simp: parse_models_key_def split: option.splits toml.splits list.splits
      dest: parse_model_names_length)

lemma parse_server_table_ok:
  "parse_server_table tbl s = Inr s' \<Longrightarrow> server_ok s \<Longrightarrow>
   server_ok s' \<and> fst ` set tbl \<subseteq> set server_keys"
  by (auto simp: parse_server_table_def result_bind_Inr reject_unknown_keys_iff server_ok_def
      dest!: opt_int_range)

lemma parse_routing_table_ok:
  "parse_routing_table tbl r = Inr r' \<Longrightarrow> routing_ok r \<Longrightarrow>
   routing_ok r' \<and> fst ` set tbl \<subseteq> {''policy'', ''prefix_bytes'', ''load_threshold''}"
  by (auto simp: parse_routing_table_def result_bind_Inr reject_unknown_keys_iff routing_ok_def
      dest!: opt_int_range opt_double_unit)

lemma default_backend_limits:
  "bc_max_in_flight default_backend = 8" "bc_health_interval_ms default_backend = 2000"
  "bc_failure_threshold default_backend = 5" "bc_open_ms default_backend = 10000"
  by (simp_all add: default_backend_def)

lemma parse_backend_ok:
  assumes "parse_backend seen tbl = Inr b"
  shows "backend_ok b \<and> bc_name b \<notin> set seen \<and> fst ` set tbl \<subseteq> set backend_keys"
proof -
  from assms obtain name type url models mif hi ft om where
    keys: "fst ` set tbl \<subseteq> set backend_keys" and name: "name \<notin> set seen" and
    models: "parse_models_key tbl name = Inr models" and
    ints: "opt_int tbl ''max_in_flight'' backends_section 8 1 1000000 = Inr mif"
      "opt_int tbl ''health_interval_ms'' backends_section 2000 100 3600000 = Inr hi"
      "opt_int tbl ''failure_threshold'' backends_section 5 1 1000000 = Inr ft"
      "opt_int tbl ''open_ms'' backends_section 10000 1 3600000 = Inr om" and
    b: "b = \<lparr>bc_name = name, bc_type = type, bc_base_url = url, bc_models = models,
          bc_max_in_flight = mif, bc_health_interval_ms = hi, bc_failure_threshold = ft,
          bc_open_ms = om\<rparr>"
    by (auto simp: parse_backend_def result_bind_Inr reject_unknown_keys_iff
        default_backend_limits split: if_splits)
  with ints [THEN opt_int_range] parse_models_nonempty [OF models] show ?thesis
    by (simp add: backend_ok_def)
qed

lemma parse_backend_list_ok:
  "parse_backend_list seen elems = Inr bs \<Longrightarrow>
   list_all backend_ok bs \<and> distinct (map bc_name bs) \<and> set (map bc_name bs) \<inter> set seen = {} \<and>
   length bs = length elems \<and> list_all (keys_known backend_keys) elems"
proof (induction seen elems arbitrary: bs rule: parse_backend_list.induct)
  case (2 seen p tbl elems)
  then obtain b bs' where b: "parse_backend seen tbl = Inr b" "bs = b # bs'"
    "parse_backend_list (bc_name b # seen) elems = Inr bs'"
    by (auto simp: result_bind_Inr)
  from "2.IH" [OF b(3)] parse_backend_ok [OF b(1)] b(2) show ?case
    by (auto simp: keys_known_def)
qed simp_all

lemma threshold_okI: "double_le (Fin 0) d \<Longrightarrow> double_le d (Fin 1) \<Longrightarrow> threshold_ok d"
  by (cases d) (auto simp: threshold_ok_def)

lemma threshold_ok_default: "threshold_ok (rc_load_threshold default_routing)"
proof -
  have r: "round_double 0 = Fin 0" "round_double 1 = Fin 1"
    using round_double_small_int [of 0] round_double_small_int [of 1] by simp_all
  have "double_le (round_double 0) (round_double (8 / 10))"
    by (rule round_double_mono) simp_all
  moreover have "double_le (round_double (8 / 10)) (round_double 1)"
    by (rule round_double_mono) simp_all
  ultimately show ?thesis
    unfolding r default_routing_def routing_config.simps by (rule threshold_okI)
qed

lemma default_config_ok:
  "server_ok (cfg_server default_config)" "routing_ok (cfg_routing default_config)"
  "cfg_metrics_port default_config \<in> {1..65535}" "cfg_backends default_config = []"
  using threshold_ok_default
  by (simp_all add: default_config_def server_ok_def default_server_def routing_ok_def)
     (simp_all add: default_routing_def)

lemma parse_server_ok:
  "parse_server doc cfg = Inr cfg' \<Longrightarrow> server_ok (cfg_server cfg) \<Longrightarrow>
   \<exists>s. cfg' = cfg\<lparr>cfg_server := s\<rparr> \<and> server_ok s \<and>
       pred_option (keys_known server_keys) (map_of doc ''server'')"
  by (cases cfg) (auto simp: parse_server_def result_bind_Inr keys_known_def
      split: option.splits toml.splits dest!: parse_server_table_ok)

lemma parse_metrics_ok:
  "parse_metrics doc cfg = Inr cfg' \<Longrightarrow> cfg_metrics_port cfg \<in> {1..65535} \<Longrightarrow>
   \<exists>m. cfg' = cfg\<lparr>cfg_metrics_port := m\<rparr> \<and> m \<in> {1..65535} \<and>
       pred_option (keys_known [''port'']) (map_of doc ''metrics'')"
  by (cases cfg) (auto simp: parse_metrics_def result_bind_Inr keys_known_def
      reject_unknown_keys_iff split: option.splits toml.splits dest!: opt_int_range)

lemma parse_routing_ok:
  "parse_routing doc cfg = Inr cfg' \<Longrightarrow> routing_ok (cfg_routing cfg) \<Longrightarrow>
   \<exists>r. cfg' = cfg\<lparr>cfg_routing := r\<rparr> \<and> routing_ok r \<and>
       pred_option (keys_known [''policy'', ''prefix_bytes'', ''load_threshold''])
         (map_of doc ''routing'')"
  by (cases cfg) (auto simp: parse_routing_def result_bind_Inr keys_known_def
      split: option.splits toml.splits dest!: parse_routing_table_ok)

lemma parse_backends_ok:
  "parse_backends aot doc cfg = Inr cfg' \<Longrightarrow>
   \<exists>p arr bs. map_of doc ''backends'' = Some (TArray p arr) \<and> arr \<noteq> [] \<and>
     cfg' = cfg\<lparr>cfg_backends := cfg_backends cfg @ bs\<rparr> \<and> parse_backend_list [] arr = Inr bs"
  by (auto simp: parse_backends_def result_bind_Inr split: option.splits toml.splits if_splits)

lemma validate_ok:
  assumes "validate aot doc = Inr cfg"
  shows "config_ok cfg \<and> document_keys_known doc"
proof -
  from assms obtain c1 c2 c3 where
    steps: "parse_server doc default_config = Inr c1" "parse_metrics doc c1 = Inr c2"
      "parse_routing doc c2 = Inr c3" "parse_backends aot doc c3 = Inr cfg" and
    keys: "fst ` set doc \<subseteq> set root_keys"
    by (auto simp: validate_def result_bind_Inr reject_unknown_keys_iff)
  from parse_server_ok [OF steps(1) default_config_ok(1)] obtain s where
    s: "c1 = default_config\<lparr>cfg_server := s\<rparr>" "server_ok s"
      "pred_option (keys_known server_keys) (map_of doc ''server'')" by blast
  from parse_metrics_ok [OF steps(2)] default_config_ok(3) s(1) obtain m where
    m: "c2 = c1\<lparr>cfg_metrics_port := m\<rparr>" "m \<in> {1..65535}"
      "pred_option (keys_known [''port'']) (map_of doc ''metrics'')" by auto
  from parse_routing_ok [OF steps(3)] default_config_ok(2) s(1) m(1) obtain r where
    r: "c3 = c2\<lparr>cfg_routing := r\<rparr>" "routing_ok r"
      "pred_option (keys_known [''policy'', ''prefix_bytes'', ''load_threshold''])
         (map_of doc ''routing'')" by auto
  from parse_backends_ok [OF steps(4)] obtain p arr bs where
    b: "map_of doc ''backends'' = Some (TArray p arr)" "arr \<noteq> []"
      "cfg = c3\<lparr>cfg_backends := cfg_backends c3 @ bs\<rparr>" "parse_backend_list [] arr = Inr bs"
    by blast
  have "bs \<noteq> []" using parse_backend_list_ok [OF b(4)] b(2) by auto
  then have "config_ok cfg"
    using parse_backend_list_ok [OF b(4)] s m r b(3) default_config_ok(4)
    by (simp add: config_ok_def)
  moreover have "document_keys_known doc"
    using keys s(3) m(3) r(3) b(1) parse_backend_list_ok [OF b(4)]
    by (simp add: document_keys_known_def)
  ultimately show ?thesis ..
qed

section \<open>Completeness on the printed document\<close>

lemma parse_backend_type_roundtrip [simp]:
  "parse_backend_type (backend_type_to_string t) n = Inr t"
  by (cases t) (simp_all add: parse_backend_type_def)

lemma parse_policy_roundtrip [simp]: "parse_policy (policy_to_string r) n = Inr r"
  by (cases r) (simp_all add: parse_policy_def)

lemma parse_model_names_map: "parse_model_names name (map (TString p) ms) = Inr ms"
  by (induction ms) simp_all

lemma parse_models_key_map:
  "map_of tbl ''models'' = Some (TArray p (map (TString p) ms)) \<Longrightarrow> ms \<noteq> [] \<Longrightarrow>
   parse_models_key tbl name = Inr ms"
  using parse_model_names_map [of name p ms]
  by (cases ms) (simp_all add: parse_models_key_def)

lemma parse_backend_doc:
  assumes "backend_ok b" "bc_name b \<notin> set seen"
  shows "\<exists>tbl. backend_doc p b = TTable p tbl \<and> parse_backend seen tbl = Inr b"
proof -
  obtain tbl where t: "backend_doc p b = TTable p tbl" by (simp add: backend_doc_def)
  then have "parse_models_key tbl (bc_name b) = Inr (bc_models b)"
    using assms(1) by (intro parse_models_key_map [of _ p]) (auto simp: backend_doc_def backend_ok_def)
  with t assms show ?thesis
    by (cases b) (auto simp: backend_doc_def parse_backend_def reject_unknown_keys_iff
        backend_keys_def req_string_def opt_int_def parse_type_key_def backend_ok_def)
qed

lemma parse_backend_list_doc:
  "list_all backend_ok bs \<Longrightarrow> distinct (map bc_name bs) \<Longrightarrow> set (map bc_name bs) \<inter> set seen = {} \<Longrightarrow>
   parse_backend_list seen (map (backend_doc p) bs) = Inr bs"
proof (induction bs arbitrary: seen)
  case (Cons b bs)
  then obtain tbl where t: "backend_doc p b = TTable p tbl" "parse_backend seen tbl = Inr b"
    using parse_backend_doc [of b seen p] by auto
  from Cons have "parse_backend_list (bc_name b # seen) (map (backend_doc p) bs) = Inr bs"
    by auto
  with t show ?case by simp
qed simp

lemma parse_server_doc:
  "server_ok s \<Longrightarrow> \<exists>tbl. server_doc p s = TTable p tbl \<and> parse_server_table tbl s' = Inr s"
  by (cases s) (auto simp: server_doc_def parse_server_table_def reject_unknown_keys_iff
      server_keys_def opt_string_def opt_int_def server_ok_def)

lemma parse_routing_doc:
  "routing_ok r \<Longrightarrow> \<exists>tbl. routing_doc p r = TTable p tbl \<and> parse_routing_table tbl r' = Inr r"
proof -
  assume r: "routing_ok r"
  then have "check_range ''load_threshold'' ''routing'' (Fin 0) (Fin 1) (rc_load_threshold r) n
      = Inr (rc_load_threshold r)" for n
    by (simp add: check_range_unit routing_ok_def)
  with r show ?thesis
    by (cases r) (auto simp: routing_doc_def parse_routing_table_def reject_unknown_keys_iff
        parse_policy_key_def opt_double_def opt_int_def routing_ok_def)
qed

lemma validate_config_doc:
  assumes ok: "config_ok cfg"
    and aot: "is_aot (TArray p (map (backend_doc p) (cfg_backends cfg)))"
  shows "validate is_aot (config_doc p cfg) = Inr cfg"
proof -
  from ok obtain st where st: "server_doc p (cfg_server cfg) = TTable p st"
    "\<And>s'. parse_server_table st s' = Inr (cfg_server cfg)"
    using parse_server_doc [of "cfg_server cfg" p] by (auto simp: config_ok_def server_doc_def)
  from ok obtain rt where rt: "routing_doc p (cfg_routing cfg) = TTable p rt"
    "\<And>r'. parse_routing_table rt r' = Inr (cfg_routing cfg)"
    using parse_routing_doc [of "cfg_routing cfg" p] by (auto simp: config_ok_def routing_doc_def)
  from ok have bs: "parse_backend_list [] (map (backend_doc p) (cfg_backends cfg))
      = Inr (cfg_backends cfg)" "cfg_backends cfg \<noteq> []"
    using parse_backend_list_doc [of "cfg_backends cfg" "[]" p] by (auto simp: config_ok_def)
  from ok have mp: "1 \<le> cfg_metrics_port cfg" "cfg_metrics_port cfg \<le> 65535"
    by (auto simp: config_ok_def)
  show ?thesis using st rt bs aot mp
    by (cases cfg) (auto simp: validate_def config_doc_def root_keys_def reject_unknown_keys_iff
        parse_server_def parse_metrics_def parse_routing_def parse_backends_def opt_int_def
        default_config_def)
qed

lemma example_config_ok: "config_ok example_config"
  using default_config_ok
  by (simp add: config_ok_def example_config_def backend_ok_def default_backend_def)

lemma nonempty_tables_doc: "bs \<noteq> [] \<Longrightarrow> nonempty_tables (TArray p (map (backend_doc p) bs))"
  by (auto simp: nonempty_tables_def backend_doc_def list_all_iff)

lemma example_is_tables:
  "nonempty_tables (TArray p (map (backend_doc p) (cfg_backends example_config)))"
  by (rule nonempty_tables_doc) (simp add: example_config_def)

section \<open>Properties\<close>



text \<open>
  C36: The loader is complete: every configuration within the documented bounds is the result of
  loading the document that spells it out, so no valid setting is refused or altered.
\<close>

theorem load_file_complete:
  assumes "config_ok cfg"
    and "read_file path = Some content" "parse content path = Inr (config_doc p cfg)"
    and "\<And>bs. bs \<noteq> [] \<Longrightarrow> is_aot (TArray p (map (backend_doc p) bs))"
  shows "load_file read_file parse is_aot path = Inr cfg"
  using assms validate_config_doc [of cfg is_aot p]
  by (simp add: load_file_def load_string_def config_ok_def)

theorem load_file_complete_witness:
  "load_file (\<lambda>_. Some ''toml'') (\<lambda>_ _. Inr (config_doc example_pos example_config))
     nonempty_tables ''kvmux.toml'' = Inr example_config"
  by (rule load_file_complete [where p = example_pos and content = "''toml''"])
     (simp_all add: example_config_ok nonempty_tables_doc)

text \<open>
  The range test of \<open>opt_double\<close> lets NaN through: a document whose \<open>load_threshold\<close> is NaN is
  accepted, whatever the rest of the (valid) configuration, although an out-of-range value is
  meant to be a hard error.
\<close>

theorem nan_threshold_accepted:
  assumes "config_ok cfg"
    and "is_aot (TArray p (map (backend_doc p) (cfg_backends cfg)))"
    and "cfg' = cfg\<lparr>cfg_routing := (cfg_routing cfg)\<lparr>rc_load_threshold := NaN\<rparr>\<rparr>"
  shows "validate is_aot (config_doc p cfg') = Inr cfg'"
proof -
  have "config_ok cfg'" using assms(1,3) by (simp add: config_ok_def routing_ok_def threshold_ok_def)
  with assms show ?thesis by (intro validate_config_doc) simp_all
qed

theorem nan_threshold_accepted_witness:
  "\<exists>cfg'. validate nonempty_tables (config_doc example_pos cfg') = Inr cfg' \<and>
     rc_load_threshold (cfg_routing cfg') = NaN"
  using nan_threshold_accepted [of example_config nonempty_tables, OF example_config_ok
      example_is_tables refl, of example_pos]
  by (intro exI conjI) (assumption, simp)

end
