(* ===== verification/Upstream_Client.thy ===== *)
theory Upstream_Client
  imports Sse_Parser Openai
begin

text \<open>
  The upstream HTTP client (\<^verbatim>\<open>src/upstream/client.hpp\<close>, \<^verbatim>\<open>src/upstream/client.cpp\<close>).  Boost.Beast
  is the network: what one call meets on it (connect, request write, response header, the
  successive body reads with their error codes) is an argument of type \<open>exchange\<close>.  A call on a
  script of reads that ends before the loop does is still waiting: its value is \<open>None\<close>.
\<close>

section \<open>Targets\<close>

record target =
  host :: string
  port :: string

definition strip_scheme :: "string \<Rightarrow> (string, string) result" where
  "strip_scheme base_url =
     (if starts_with ''http://'' base_url then Inr (drop 7 base_url)
      else if starts_with ''https://'' base_url
      then Inl (''https upstream not supported in v1: '' @ base_url)
      else Inr base_url)"

definition strip_path :: "string \<Rightarrow> string" where
  "strip_path s = (case find_char CHR ''/'' s of None \<Rightarrow> s | Some slash \<Rightarrow> take slash s)"

definition split_port :: "string \<Rightarrow> target" where
  "split_port s =
     (case find_char CHR '':'' s of
        None \<Rightarrow> \<lparr>host = s, port = ''80''\<rparr>
      | Some colon \<Rightarrow> \<lparr>host = take colon s, port = drop (colon + 1) s\<rparr>)"

definition parse_target :: "string \<Rightarrow> (string, target) result" where
  "parse_target base_url =
     result_bind (strip_scheme base_url) (\<lambda>s.
       let t = split_port (strip_path s)
       in if host t = [] \<or> port t = []
          then Inl (''could not parse backend base_url: '' @ base_url) else Inr t)"

section \<open>The request body\<close>

definition inject_include_usage :: "json \<Rightarrow> json" where
  "inject_include_usage body =
     (if \<not> is_object body then body
      else
        let body1 = (case obj_find ''stream_options'' body of
                       Some (JObject m) \<Rightarrow> body
                     | _ \<Rightarrow> obj_put ''stream_options'' (JObject []) body)
        in case obj_find ''stream_options'' body1 of
             Some opts \<Rightarrow>
               obj_put ''stream_options'' (obj_put ''include_usage'' (JBool True) opts) body1
           | None \<Rightarrow> body1)"

section \<open>Calls\<close>

record stream_result =
  connected :: bool
  any_frame_forwarded :: bool
  http_status :: int
  error_body :: string
  upstream_aborted :: bool
  timed_out :: bool

definition new_stream_result :: stream_result where
  "new_stream_result =
     \<lparr>connected = False, any_frame_forwarded = False, http_status = 0, error_body = [],
      upstream_aborted = False, timed_out = False\<rparr>"

record unary_result =
  u_connected :: bool
  u_status :: int
  u_body :: string
  u_timed_out :: bool

definition new_unary_result :: unary_result where
  "new_unary_result = \<lparr>u_connected = False, u_status = 0, u_body = [], u_timed_out = False\<rparr>"

text \<open>
  The error code of one \<open>async_read_some\<close>: none, \<open>need_buffer\<close>, an aborted or timed-out operation,
  anything else (EOF included); \<open>rd_done\<close> is \<open>parser.is_done()\<close> after it.
\<close>

datatype read_code = ReadOk | NeedBuffer | ReadTimeout | ReadError

record body_read =
  rd_data :: string
  rd_code :: read_code
  rd_done :: bool

text \<open>
  One call on the network: resolving or connecting throws; the request write or the header read
  throws; or a header arrives with its status, \<open>is_done()\<close> at that point, and the body reads.
\<close>

datatype exchange =
    NoConnection
  | NoHeader
  | Response int bool "body_read list"

fun drain_error_body :: "bool \<Rightarrow> body_read list \<Rightarrow> string option" where
  "drain_error_body True reads = Some []"
| "drain_error_body False [] = None"
| "drain_error_body False (r # rs) =
     (if rd_code r = ReadTimeout \<or> rd_code r = ReadError then Some (rd_data r)
      else map_option (\<lambda>body. rd_data r @ body) (drain_error_body (rd_done r) rs))"

text \<open>
  The locals of the streaming loop.  The sink is a coroutine of the caller: a step of its state
  that answers whether it wants more.
\<close>

record 's stream_loop =
  sl_parser :: sse_parser
  sl_sink :: 's
  saw_done :: bool
  sink_wants_stop :: bool
  sl_forwarded :: bool

type_synonym 's sink = "'s \<Rightarrow> sse_event \<Rightarrow> 's \<times> bool"

fun drain_pending :: "'s sink \<Rightarrow> sse_event list \<Rightarrow> 's stream_loop \<Rightarrow> 's stream_loop" where
  "drain_pending sink [] st = st"
| "drain_pending sink (ev # evs) st =
     (let (s, keep) = sink (sl_sink st) ev;
          st1 = st\<lparr>saw_done := (saw_done st \<or> is_done ev), sl_forwarded := True, sl_sink := s\<rparr>
      in if keep then drain_pending sink evs st1 else st1\<lparr>sink_wants_stop := True\<rparr>)"

definition feed_read :: "'s sink \<Rightarrow> string \<Rightarrow> 's stream_loop \<Rightarrow> 's stream_loop" where
  "feed_read sink data st =
     (if data = [] then st
      else let (p, evs) = feed (sl_parser st) data in drain_pending sink evs (st\<lparr>sl_parser := p\<rparr>))"

text \<open>The loop's second result is \<open>result.timed_out\<close>.\<close>

fun read_loop ::
  "'s sink \<Rightarrow> bool \<Rightarrow> body_read list \<Rightarrow> 's stream_loop \<Rightarrow> ('s stream_loop \<times> bool) option" where
  "read_loop sink finished reads st =
     (if finished \<or> sink_wants_stop st then Some (st, False)
      else case reads of
        [] \<Rightarrow> None
      | r # rs \<Rightarrow>
          let st1 = feed_read sink (rd_data r) st
          in (case rd_code r of
                NeedBuffer \<Rightarrow> read_loop sink (rd_done r) rs st1
              | ReadTimeout \<Rightarrow> Some (st1, True)
              | ReadError \<Rightarrow> Some (st1, False)
              | ReadOk \<Rightarrow> read_loop sink (rd_done r) rs st1))"

declare read_loop.simps [simp del]

definition flush_tail :: "'s sink \<Rightarrow> 's stream_loop \<Rightarrow> 's stream_loop" where
  "flush_tail sink st =
     (if sink_wants_stop st then st
      else let (p, evs, b) = flush (sl_parser st) in drain_pending sink evs (st\<lparr>sl_parser := p\<rparr>))"

definition stream_body ::
  "'s sink \<Rightarrow> int \<Rightarrow> bool \<Rightarrow> body_read list \<Rightarrow> 's \<Rightarrow> (stream_result \<times> 's) option" where
  "stream_body sink code finished reads s =
     (case read_loop sink finished reads
             \<lparr>sl_parser = init_parser, sl_sink = s, saw_done = False, sink_wants_stop = False,
              sl_forwarded = False\<rparr> of
        None \<Rightarrow> None
      | Some (st, timeout) \<Rightarrow>
          let st1 = flush_tail sink st
          in Some (\<lparr>connected = True, any_frame_forwarded = sl_forwarded st1, http_status = code,
                    error_body = [],
                    upstream_aborted = (\<not> saw_done st1 \<and> \<not> sink_wants_stop st1 \<and> \<not> timeout),
                    timed_out = timeout\<rparr>, sl_sink st1))"

definition stream_chat :: "'s sink \<Rightarrow> exchange \<Rightarrow> 's \<Rightarrow> (stream_result \<times> 's) option" where
  "stream_chat sink ex s =
     (case ex of
        NoConnection \<Rightarrow> Some (new_stream_result, s)
      | NoHeader \<Rightarrow> Some (new_stream_result\<lparr>connected := True, upstream_aborted := True\<rparr>, s)
      | Response code finished reads \<Rightarrow>
          (if code \<ge> 400
           then map_option (\<lambda>body. (new_stream_result\<lparr>connected := True, http_status := code,
                  error_body := body\<rparr>, s)) (drain_error_body finished reads)
           else stream_body sink code finished reads s))"

text \<open>
  \<open>post_chat\<close> and \<open>get\<close> read the whole response in one operation: what it yields is a status and a
  body, or an exception that leaves the result as far as it got.
\<close>

datatype unary_exchange = UNoConnection | UNoResponse | UResponse int string

definition unary_call :: "unary_exchange \<Rightarrow> unary_result" where
  "unary_call ex =
     (case ex of
        UNoConnection \<Rightarrow> new_unary_result
      | UNoResponse \<Rightarrow> new_unary_result\<lparr>u_connected := True\<rparr>
      | UResponse code body \<Rightarrow>
          new_unary_result\<lparr>u_connected := True, u_status := code, u_body := body\<rparr>)"

definition post_chat :: "unary_exchange \<Rightarrow> unary_result" where
  "post_chat ex = unary_call ex"

definition client_get :: "unary_exchange \<Rightarrow> unary_result" where
  "client_get ex = unary_call ex"

section \<open>What a stream offers the sink\<close>

text \<open>
  A sink run on a list of events stops at its first refusal; the second component is whether it
  refused, the third the events it was offered.
\<close>

fun run_sink :: "'s sink \<Rightarrow> 's \<Rightarrow> sse_event list \<Rightarrow> 's \<times> bool \<times> sse_event list" where
  "run_sink sink s [] = (s, False, [])"
| "run_sink sink s (ev # evs) =
     (let (s1, keep) = sink s ev
      in if keep then let (s2, stop, seen) = run_sink sink s1 evs in (s2, stop, ev # seen)
         else (s1, True, [ev]))"

text \<open>The bytes the reads carry up to the end of the response, and whether they end in a timeout.\<close>

fun body_bytes :: "bool \<Rightarrow> body_read list \<Rightarrow> string" where
  "body_bytes True reads = []"
| "body_bytes False [] = []"
| "body_bytes False (r # rs) =
     rd_data r @ (if rd_code r = ReadTimeout \<or> rd_code r = ReadError then []
                  else body_bytes (rd_done r) rs)"

fun body_timeout :: "bool \<Rightarrow> body_read list \<Rightarrow> bool" where
  "body_timeout True reads = False"
| "body_timeout False [] = False"
| "body_timeout False (r # rs) =
     (rd_code r = ReadTimeout \<or> rd_code r \<noteq> ReadError \<and> body_timeout (rd_done r) rs)"

text \<open>The events of a response: those of its bytes, with the end of the body closing the last one.\<close>

definition response_events :: "bool \<Rightarrow> body_read list \<Rightarrow> sse_event list" where
  "response_events finished reads = snd (sse_spec (body_bytes finished reads @ [LF, LF]))"

text \<open>A script of reads that reaches the end of the body, a timeout or an error.\<close>

fun script_complete :: "bool \<Rightarrow> body_read list \<Rightarrow> bool" where
  "script_complete True reads = True"
| "script_complete False [] = False"
| "script_complete False (r # rs) =
     (rd_code r = ReadTimeout \<or> rd_code r = ReadError \<or> script_complete (rd_done r) rs)"

text \<open>A sink that records what it is offered and never refuses.\<close>

definition recording_sink :: "sse_event list sink" where
  "recording_sink evs ev = (evs @ [ev], True)"

definition example_reads :: "body_read list" where
  "example_reads =
     [\<lparr>rd_data = ''data: a'', rd_code = ReadOk, rd_done = False\<rparr>,
      \<lparr>rd_data = [LF, LF] @ ''data: [DONE]'' @ [LF, LF], rd_code = NeedBuffer, rd_done = True\<rparr>]"

section \<open>The loop as one run over the events\<close>

lemma drain_pending_run:
  "run_sink sink (sl_sink st) evs = (s, stop, seen) \<Longrightarrow>
   drain_pending sink evs st =
     st\<lparr>sl_sink := s, saw_done := (saw_done st \<or> list_ex is_done seen),
        sink_wants_stop := (sink_wants_stop st \<or> stop),
        sl_forwarded := (sl_forwarded st \<or> seen \<noteq> [])\<rparr>"
  by (induction sink evs st arbitrary: s stop seen rule: drain_pending.induct)
     (auto simp: Let_def split: prod.splits if_splits)

lemma drain_pending_parser:
  "drain_pending sink evs (st\<lparr>sl_parser := p\<rparr>) = (drain_pending sink evs st)\<lparr>sl_parser := p\<rparr>"
  by (cases "run_sink sink (sl_sink st) evs") (simp add: drain_pending_run)

lemma drain_pending_frame [frame_simps]: "sl_parser (drain_pending sink evs st) = sl_parser st"
  by (induction sink evs st rule: drain_pending.induct) (auto simp: Let_def split: prod.splits)

lemma drain_pending_append:
  "\<not> sink_wants_stop st \<Longrightarrow>
   drain_pending sink (a @ b) st =
     (let st1 = drain_pending sink a st
      in if sink_wants_stop st1 then st1 else drain_pending sink b st1)"
  by (induction sink a st rule: drain_pending.induct) (auto simp: Let_def split: prod.splits)

lemma feed_read_drain:
  "feed_read sink data st =
     (drain_pending sink (snd (feed (sl_parser st) data)) st)
       \<lparr>sl_parser := fst (feed (sl_parser st) data)\<rparr>"
  by (simp add: feed_read_def drain_pending_parser split: prod.splits)

lemma flush_tail_drain:
  "\<not> sink_wants_stop st \<Longrightarrow>
   (flush_tail sink st)\<lparr>sl_parser := p\<rparr> =
     (drain_pending sink (snd (feed (sl_parser st) [LF, LF])) st)\<lparr>sl_parser := p\<rparr>"
  using flush_as_blank_lines [of "sl_parser st"]
  by (auto simp: flush_tail_def drain_pending_parser split: prod.splits)

lemma feed_snd_append:
  "snd (feed p (a @ b)) = snd (feed p a) @ snd (feed (fst (feed p a)) b)"
  by (simp add: feed_append Let_def split: prod.splits)

text \<open>
  One more piece of input: run the sink on its events; if it does not refuse, the rest of the
  input follows from the state reached.
\<close>

lemma drain_feed_append:
  assumes "\<not> sink_wants_stop st"
  shows "drain_pending sink (snd (feed (sl_parser st) (a @ b))) st =
    (let st1 = feed_read sink a st
     in if sink_wants_stop st1 then st1\<lparr>sl_parser := sl_parser st\<rparr>
        else (drain_pending sink (snd (feed (sl_parser st1) b)) st1)\<lparr>sl_parser := sl_parser st\<rparr>)"
  using assms
  by (simp add: feed_snd_append drain_pending_append feed_read_drain Let_def drain_pending_parser
      frame_simps)

lemma read_loop_run:
  assumes "read_loop sink finished reads st = Some (st', t)" "\<not> sink_wants_stop st"
  shows "(flush_tail sink st')\<lparr>sl_parser := p\<rparr> =
       (drain_pending sink (snd (feed (sl_parser st) (body_bytes finished reads @ [LF, LF]))) st)
         \<lparr>sl_parser := p\<rparr>
     \<and> (\<not> sink_wants_stop (flush_tail sink st') \<longrightarrow> t = body_timeout finished reads)"
  using assms
proof (induction sink finished reads st rule: read_loop.induct)
  case (1 sink finished reads st)
  show ?case
  proof (cases finished)
    case True
    with "1.prems" show ?thesis
      using flush_tail_drain [of st p sink]
      by (auto simp: read_loop.simps [of sink True] simp del: feed.simps)
  next
    case False
    with "1.prems" obtain r rs where reads: "reads = r # rs"
      by (cases reads) (auto simp: read_loop.simps [of sink False])
    let ?st1 = "feed_read sink (rd_data r) st"
    let ?rest = "if rd_code r = ReadTimeout \<or> rd_code r = ReadError then []
                 else body_bytes (rd_done r) rs"
    have split: "drain_pending sink (snd (feed (sl_parser st) (body_bytes finished reads @ [LF, LF]))) st
      = (if sink_wants_stop ?st1 then ?st1\<lparr>sl_parser := sl_parser st\<rparr>
         else (drain_pending sink (snd (feed (sl_parser ?st1) (?rest @ [LF, LF]))) ?st1)
           \<lparr>sl_parser := sl_parser st\<rparr>)"
      using drain_feed_append [OF "1.prems"(2), of sink "rd_data r" "?rest @ [LF, LF]"] False reads
      by (simp add: Let_def)
    show ?thesis
    proof (cases "rd_code r = ReadTimeout \<or> rd_code r = ReadError \<or> sink_wants_stop ?st1")
      case True
      then have "st' = ?st1 \<and> (sink_wants_stop ?st1 \<or> t = body_timeout finished reads)"
        using "1.prems" False reads
        by (auto simp: read_loop.simps [of sink False] read_loop.simps [of sink "rd_done r"]
            Let_def split: read_code.splits)
      with True split show ?thesis
        using flush_tail_drain [of ?st1 p sink]
        by (auto simp: flush_tail_def [of sink ?st1] simp del: feed.simps)
    next
      case go: False
      then have "read_loop sink (rd_done r) rs ?st1 = Some (st', t)"
        using "1.prems" False reads
        by (auto simp: read_loop.simps [of sink False] Let_def split: read_code.splits)
      with go "1.IH" False reads "1.prems"(2) split show ?thesis
        by (cases "rd_code r") (auto simp del: feed.simps)
    qed
  qed
qed

lemma stream_body_run:
  assumes "stream_body sink code finished reads s = Some (sr, s')"
    and "run_sink sink s (response_events finished reads) = (s2, stop, seen)"
  shows "s' = s2 \<and> connected sr \<and> http_status sr = code \<and>
    (any_frame_forwarded sr \<longleftrightarrow> seen \<noteq> []) \<and>
    (\<not> stop \<longrightarrow> timed_out sr = body_timeout finished reads) \<and>
    (upstream_aborted sr \<longleftrightarrow> \<not> stop \<and> \<not> timed_out sr \<and> \<not> list_ex is_done seen)"
proof -
  let ?st0 = "\<lparr>sl_parser = init_parser, sl_sink = s, saw_done = False, sink_wants_stop = False,
              sl_forwarded = False\<rparr>"
  from assms(1) obtain st t where l: "read_loop sink finished reads ?st0 = Some (st, t)"
    by (auto simp: stream_body_def split: option.splits)
  have ev: "snd (feed init_parser (body_bytes finished reads @ [LF, LF]))
      = response_events finished reads"
    by (simp add: feed_init_spec response_events_def)
  from read_loop_run [OF l, of "sl_parser (flush_tail sink st)"] obtain p where
    p: "flush_tail sink st = (drain_pending sink (response_events finished reads) ?st0)
         \<lparr>sl_parser := p\<rparr>" and
    t: "\<not> sink_wants_stop (flush_tail sink st) \<longrightarrow> t = body_timeout finished reads"
    by (auto simp: ev)
  from p t drain_pending_run [of sink ?st0, simplified, OF assms(2)] assms(1) l show ?thesis
    by (auto simp: stream_body_def Let_def)
qed

lemma read_loop_returns:
  "script_complete finished reads \<Longrightarrow> \<exists>r. read_loop sink finished reads st = Some r"
proof (induction sink finished reads st rule: read_loop.induct)
  case (1 sink finished reads st)
  show ?case
  proof (cases "finished \<or> sink_wants_stop st")
    case True
    then have "read_loop sink finished reads st = Some (st, False)" by (simp add: read_loop.simps)
    then show ?thesis ..
  next
    case False
    with "1.prems" obtain r rs where "reads = r # rs" by (cases reads) auto
    with False "1" show ?thesis
      by (cases "rd_code r") (auto simp: read_loop.simps [of sink False] Let_def)
  qed
qed

lemma drain_error_body_complete:
  "script_complete finished reads \<Longrightarrow>
   drain_error_body finished reads = Some (body_bytes finished reads)"
  by (induction finished reads rule: script_complete.induct) auto

lemma run_recording: "run_sink recording_sink acc evs = (acc @ evs, False, evs)"
  by (induction evs arbitrary: acc) (simp_all add: recording_sink_def)

lemma stream_chat_run:
  assumes "script_complete finished reads" "code < 400"
    and "run_sink sink s (response_events finished reads) = (s2, stop, seen)"
  shows "\<exists>sr. stream_chat sink (Response code finished reads) s = Some (sr, s2) \<and> connected sr \<and>
    http_status sr = code \<and> (any_frame_forwarded sr \<longleftrightarrow> seen \<noteq> []) \<and>
    (\<not> stop \<longrightarrow> timed_out sr = body_timeout finished reads) \<and>
    (upstream_aborted sr \<longleftrightarrow> \<not> stop \<and> \<not> timed_out sr \<and> \<not> list_ex is_done seen)"
proof -
  obtain r where "stream_body sink code finished reads s = Some r"
    using read_loop_returns [OF assms(1), of sink]
    by (fastforce simp: stream_body_def Let_def split: option.splits prod.splits)
  moreover obtain sr s' where "r = (sr, s')" by (cases r)
  ultimately show ?thesis
    using stream_body_run [of sink code finished reads s sr s', OF _ assms(3)] assms(2)
    by (simp add: stream_chat_def)
qed

section \<open>Targets and bodies\<close>

lemma map_put_twice [simp]: "map_put k v' (map_put k v m) = map_put k v' m"
  by (induction m) auto

lemma obj_put_twice [simp]: "obj_put k v' (obj_put k v j) = obj_put k v' j"
  by (cases j) auto

lemma inject_object:
  assumes "is_object body"
  shows "\<exists>opts. is_object opts \<and> inject_include_usage body =
     obj_put ''stream_options'' (obj_put ''include_usage'' (JBool True) opts) body \<and>
     (\<forall>m. obj_find ''stream_options'' body = Some (JObject m) \<longrightarrow> opts = JObject m)"
proof (cases "\<exists>m. obj_find ''stream_options'' body = Some (JObject m)")
  case True
  with assms show ?thesis by (auto simp: inject_include_usage_def)
next
  case False
  with assms have "inject_include_usage body =
      obj_put ''stream_options'' (obj_put ''include_usage'' (JBool True) (JObject [])) body"
    by (auto simp: inject_include_usage_def Let_def split: option.splits json.splits)
  with False show ?thesis by (intro exI [of _ "JObject []"]) simp
qed

lemma inject_twice: "inject_include_usage (inject_include_usage body) = inject_include_usage body"
proof (cases "is_object body")
  case True
  then obtain opts where o: "is_object opts" "inject_include_usage body =
      obj_put ''stream_options'' (obj_put ''include_usage'' (JBool True) opts) body"
    using inject_object by blast
  then obtain m where m: "obj_put ''include_usage'' (JBool True) opts = JObject m"
    by (cases opts) auto
  have "obj_put ''include_usage'' (JBool True) (JObject m) = JObject m"
    unfolding m [symmetric] by (rule obj_put_twice)
  with o m True show ?thesis
    by (simp add: inject_include_usage_def [of "obj_put a b c" for a b c] del: obj_put.simps)
qed (simp add: inject_include_usage_def)

lemma find_char_prefix:
  "c \<notin> set a \<Longrightarrow> find_char c (a @ b) = map_option (\<lambda>i. length a + i) (find_char c b)"
  by (cases "find_char c b"; induction a) auto

lemma strip_path_append:
  "CHR ''/'' \<notin> set a \<Longrightarrow> path = [] \<or> hd path = CHR ''/'' \<Longrightarrow> strip_path (a @ path) = a"
  by (cases path) (auto simp: strip_path_def find_char_prefix iffD2 [OF find_char_None_iff])

lemma split_port_host: "port (split_port s) \<noteq> [] \<Longrightarrow> CHR '':'' \<notin> set (host (split_port s))"
  using find_char_SomeD [of "CHR '':''" s]
  by (auto simp: split_port_def find_char_None_iff split: option.splits)

section \<open>Properties\<close>

text \<open>
  C19: However the network cuts a 2xx response into reads, a call whose reads reach the end of the
  body, an error or a timeout returns, and has offered the sink exactly the events of the
  response text (end of body closing the last event), in order, up to the sink's first refusal.
  It reports \<open>upstream_aborted\<close> exactly when the sink never refused, no timeout occurred and no
  \<open>[DONE]\<close> was among them.
\<close>

theorem stream_chat_forwards:
  assumes "script_complete finished reads" "code < 400"
    and "run_sink sink s (response_events finished reads) = (s2, stop, seen)"
  shows "\<exists>sr. stream_chat sink (Response code finished reads) s = Some (sr, s2) \<and> connected sr \<and>
    http_status sr = code \<and> (any_frame_forwarded sr \<longleftrightarrow> seen \<noteq> []) \<and>
    (\<not> stop \<longrightarrow> timed_out sr = body_timeout finished reads) \<and>
    (upstream_aborted sr \<longleftrightarrow> \<not> stop \<and> \<not> timed_out sr \<and> \<not> list_ex is_done seen)"
  by (rule stream_chat_run [OF assms])

theorem stream_chat_forwards_witness:
  "\<exists>sr. stream_chat recording_sink (Response 200 False example_reads) [] =
       Some (sr, [\<lparr>ev_data = ''a'', ev_event = []\<rparr>, \<lparr>ev_data = ''[DONE]'', ev_event = []\<rparr>]) \<and>
     connected sr \<and> http_status sr = 200 \<and>
     (any_frame_forwarded sr \<longleftrightarrow>
        [\<lparr>ev_data = ''a'', ev_event = []\<rparr>, \<lparr>ev_data = ''[DONE]'', ev_event = []\<rparr>] \<noteq> []) \<and>
     (\<not> False \<longrightarrow> timed_out sr = body_timeout False example_reads) \<and>
     (upstream_aborted sr \<longleftrightarrow> \<not> False \<and> \<not> timed_out sr \<and> \<not> list_ex is_done
        [\<lparr>ev_data = ''a'', ev_event = []\<rparr>, \<lparr>ev_data = ''[DONE]'', ev_event = []\<rparr>])"
proof (rule stream_chat_forwards)
  have "response_events False example_reads =
      [\<lparr>ev_data = ''a'', ev_event = []\<rparr>, \<lparr>ev_data = ''[DONE]'', ev_event = []\<rparr>]"
    by code_simp
  then show "run_sink recording_sink [] (response_events False example_reads) =
    ([\<lparr>ev_data = ''a'', ev_event = []\<rparr>, \<lparr>ev_data = ''[DONE]'', ev_event = []\<rparr>], False,
     [\<lparr>ev_data = ''a'', ev_event = []\<rparr>, \<lparr>ev_data = ''[DONE]'', ev_event = []\<rparr>])"
    by (simp add: run_recording del: run_sink.simps)
qed (simp_all add: example_reads_def)

text \<open>
  The upstream body always asks for usage: injecting is
  idempotent, sets \<open>stream_options.include_usage\<close> to true, and keeps every other member of the
  request and every other stream option.
\<close>

theorem inject_include_usage_spec:
  "inject_include_usage (inject_include_usage body) = inject_include_usage body \<and>
   (is_object body \<longrightarrow>
     (\<exists>opts. obj_find ''stream_options'' (inject_include_usage body) = Some opts \<and>
        obj_find ''include_usage'' opts = Some (JBool True) \<and>
        (\<forall>m k. obj_find ''stream_options'' body = Some (JObject m) \<and> k \<noteq> ''include_usage'' \<longrightarrow>
           obj_find k opts = map_of m k)) \<and>
     (\<forall>k. k \<noteq> ''stream_options'' \<longrightarrow> obj_find k (inject_include_usage body) = obj_find k body))"
proof (intro conjI impI)
  assume b: "is_object body"
  then obtain opts where o: "is_object opts" "inject_include_usage body =
      obj_put ''stream_options'' (obj_put ''include_usage'' (JBool True) opts) body"
    "\<forall>m. obj_find ''stream_options'' body = Some (JObject m) \<longrightarrow> opts = JObject m"
    using inject_object by blast
  then show "\<exists>opts. obj_find ''stream_options'' (inject_include_usage body) = Some opts \<and>
      obj_find ''include_usage'' opts = Some (JBool True) \<and>
      (\<forall>m k. obj_find ''stream_options'' body = Some (JObject m) \<and> k \<noteq> ''include_usage'' \<longrightarrow>
         obj_find k opts = map_of m k)"
    using b by auto
  show "\<forall>k. k \<noteq> ''stream_options'' \<longrightarrow> obj_find k (inject_include_usage body) = obj_find k body"
    using o b by simp
qed (rule inject_twice)

theorem inject_include_usage_spec_witness:
  "\<exists>opts. obj_find ''stream_options''
       (inject_include_usage (JObject [(''stream_options'', JObject [(''x'', JNull)])])) = Some opts \<and>
     obj_find ''include_usage'' opts = Some (JBool True) \<and> obj_find ''x'' opts = Some JNull"
  using inject_include_usage_spec [of "JObject [(''stream_options'', JObject [(''x'', JNull)])]"]
  by auto

text \<open>
  A backend URL \<open>http://host:port\<close>, with or without a path, is parsed into exactly its host and
  port.
\<close>

theorem parse_target_roundtrip:
  assumes "h \<noteq> []" "CHR '':'' \<notin> set h" "CHR ''/'' \<notin> set h"
    and "pt \<noteq> []" "CHR ''/'' \<notin> set pt"
    and "path = [] \<or> hd path = CHR ''/''"
  shows "parse_target (''http://'' @ h @ '':'' @ pt @ path) = Inr \<lparr>host = h, port = pt\<rparr>"
proof -
  have "strip_scheme (''http://'' @ h @ '':'' @ pt @ path) = Inr ((h @ '':'' @ pt) @ path)"
    by (simp add: strip_scheme_def starts_with_def)
  moreover have "strip_path ((h @ '':'' @ pt) @ path) = h @ '':'' @ pt"
    using assms by (intro strip_path_append) auto
  moreover have "split_port (h @ '':'' @ pt) = \<lparr>host = h, port = pt\<rparr>"
    using assms by (simp add: split_port_def)
  ultimately show ?thesis using assms by (simp add: parse_target_def)
qed

theorem parse_target_roundtrip_witness:
  "parse_target (''http://'' @ ''gpu0'' @ '':'' @ ''8000'' @ ''/v1'') =
     Inr \<lparr>host = ''gpu0'', port = ''8000''\<rparr>"
  by (rule parse_target_roundtrip) simp_all

end
