(* ===== verification/Health.thy ===== *)
theory Health
  imports Config Upstream_Client
begin

text \<open>
  Health checking (\<^verbatim>\<open>src/health/checker.hpp\<close>, \<^verbatim>\<open>src/health/checker.cpp\<close>): the evaluation of probe
  results, one probe of a backend, and the monitor's loop.  What the \<open>GET\<close> requests of one probe
  meet on the network is a function from the path to the exchange.
\<close>

section \<open>Probe evaluation\<close>

datatype health_state = Healthy | NotReady | Dead

fun health_to_string :: "health_state \<Rightarrow> string" where
  "health_to_string Healthy = ''healthy''"
| "health_to_string NotReady = ''not_ready''"
| "health_to_string Dead = ''dead''"

record probe_result =
  pr_connected :: bool
  pr_status :: int
  pr_body :: string

definition evaluate_health_endpoint :: "probe_result \<Rightarrow> health_state" where
  "evaluate_health_endpoint h =
     (if \<not> pr_connected h then Dead
      else if pr_status h = 200 then Healthy
      else if pr_status h = 503 then NotReady
      else Dead)"

definition evaluate_ollama :: "probe_result \<Rightarrow> probe_result \<Rightarrow> health_state" where
  "evaluate_ollama liveness readiness =
     (let live = (pr_connected liveness \<and> pr_status liveness = 200 \<and>
                  str_contains ''Ollama is running'' (pr_body liveness))
      in if \<not> live then Dead
         else if pr_connected readiness \<and> pr_status readiness = 200 then Healthy
         else NotReady)"

definition to_probe :: "unary_result \<Rightarrow> probe_result" where
  "to_probe r = \<lparr>pr_connected = u_connected r, pr_status = u_status r, pr_body = u_body r\<rparr>"

section \<open>The monitor\<close>

record health_monitor =
  hm_type :: backend_type
  hm_interval :: time_ns
  hm_state :: health_state
  hm_stopped :: bool

definition new_monitor :: "backend_type \<Rightarrow> time_ns \<Rightarrow> health_monitor" where
  "new_monitor ty interval =
     \<lparr>hm_type = ty, hm_interval = interval, hm_state = Dead, hm_stopped = False\<rparr>"

definition monitor_healthy :: "health_monitor \<Rightarrow> bool" where
  "monitor_healthy m = (hm_state m = Healthy)"

definition monitor_stop :: "health_monitor \<Rightarrow> health_monitor" where
  "monitor_stop m = m\<lparr>hm_stopped := True\<rparr>"

type_synonym probe_net = "string \<Rightarrow> unary_exchange"

definition probe_once :: "probe_net \<Rightarrow> health_monitor \<Rightarrow> health_monitor" where
  "probe_once net m =
     m\<lparr>hm_state :=
        (if hm_type m = Ollama
         then evaluate_ollama (to_probe (client_get (net ''/''))) (to_probe (client_get (net ''/api/tags'')))
         else evaluate_health_endpoint (to_probe (client_get (net ''/health''))))\<rparr>"

text \<open>
  One turn of the loop: the probe's network, whether \<open>stop()\<close> is called before the loop tests its
  flag again, and whether the timer wait fails (it was cancelled).
\<close>

record monitor_turn =
  mt_net :: probe_net
  mt_stop :: bool
  mt_cancelled :: bool

text \<open>The second result says whether the loop has ended.\<close>

fun monitor_run :: "monitor_turn list \<Rightarrow> health_monitor \<Rightarrow> health_monitor \<times> bool" where
  "monitor_run [] m = (m, hm_stopped m)"
| "monitor_run (t # ts) m =
     (if hm_stopped m then (m, True)
      else
        let m1 = probe_once (mt_net t) m;
            m2 = (if mt_stop t then monitor_stop m1 else m1)
        in if mt_cancelled t then (m2, True) else monitor_run ts m2)"

text \<open>
  The same coroutine cut at its suspension points: spawned and not yet begun, inside a probe, asleep
  on its timer, ended.  \<open>monitor_resume\<close> continues it with what it waited for.
\<close>

datatype monitor_pc = MSpawned | MProbing | MSleeping | MEnded

datatype monitor_event = MBegin | MProbe probe_net | MTimer bool

definition monitor_head :: "health_monitor \<Rightarrow> monitor_pc" where
  "monitor_head m = (if hm_stopped m then MEnded else MProbing)"

fun monitor_resume ::
  "monitor_event \<Rightarrow> monitor_pc \<Rightarrow> health_monitor \<Rightarrow> (health_monitor \<times> monitor_pc) option" where
  "monitor_resume MBegin MSpawned m = Some (m, monitor_head m)"
| "monitor_resume (MProbe net) MProbing m = Some (probe_once net m, MSleeping)"
| "monitor_resume (MTimer cancelled) MSleeping m =
     Some (m, if cancelled then MEnded else monitor_head m)"
| "monitor_resume ev pc m = None"

section \<open>What a probe reports\<close>

text \<open>
  The documented meaning of the states: \<open>answers net path code\<close> when the backend completes the
  exchange with that status.
\<close>

definition answers :: "probe_net \<Rightarrow> string \<Rightarrow> int \<Rightarrow> bool" where
  "answers net path code = (\<exists>body. net path = UResponse code body)"

definition ollama_live :: "probe_net \<Rightarrow> bool" where
  "ollama_live net = (\<exists>body. net ''/'' = UResponse 200 body \<and> sublist ''Ollama is running'' body)"

definition documented_health :: "backend_type \<Rightarrow> probe_net \<Rightarrow> health_state \<Rightarrow> bool" where
  "documented_health ty net st =
     (if ty = Ollama
      then (case st of
              Healthy \<Rightarrow> ollama_live net \<and> answers net ''/api/tags'' 200
            | NotReady \<Rightarrow> ollama_live net \<and> \<not> answers net ''/api/tags'' 200
            | Dead \<Rightarrow> \<not> ollama_live net)
      else (case st of
              Healthy \<Rightarrow> answers net ''/health'' 200
            | NotReady \<Rightarrow> answers net ''/health'' 503
            | Dead \<Rightarrow> \<not> answers net ''/health'' 200 \<and> \<not> answers net ''/health'' 503))"

definition example_turn :: monitor_turn where
  "example_turn = \<lparr>mt_net = (\<lambda>_. UResponse 503 []), mt_stop = False, mt_cancelled = False\<rparr>"

lemma probe_of_get:
  "pr_connected (to_probe (client_get ex)) \<and> pr_status (to_probe (client_get ex)) = code \<and>
     P (pr_body (to_probe (client_get ex))) \<longleftrightarrow>
   (\<exists>body. ex = UResponse code body \<and> P body) \<or> (ex = UNoResponse \<and> code = 0 \<and> P [])"
  by (cases ex) (auto simp: to_probe_def client_get_def unary_call_def new_unary_result_def)

lemma probe_status:
  assumes "code \<noteq> 0"
  shows "pr_connected (to_probe (client_get (net path))) \<and>
    pr_status (to_probe (client_get (net path))) = code \<longleftrightarrow> answers net path code"
  using probe_of_get [of "net path" code "\<lambda>_. True"] assms by (simp add: answers_def)

lemma probe_live:
  "pr_connected (to_probe (client_get (net ''/''))) \<and>
     pr_status (to_probe (client_get (net ''/''))) = 200 \<and>
     str_contains ''Ollama is running'' (pr_body (to_probe (client_get (net ''/'')))) \<longleftrightarrow>
   ollama_live net"
  using probe_of_get [of "net ''/''" 200 "str_contains ''Ollama is running''"]
  by (simp add: ollama_live_def str_contains_iff)

lemma probe_once_documented: "documented_health (hm_type m) net (hm_state (probe_once net m))"
  using probe_status [of 200 net "''/health''"] probe_status [of 503 net "''/health''"]
    probe_status [of 200 net "''/api/tags''"] probe_live [of net]
  by (auto simp: documented_health_def probe_once_def evaluate_health_endpoint_def
      evaluate_ollama_def Let_def)

lemma probe_once_frame [frame_simps]:
  "hm_type (probe_once net m) = hm_type m" "hm_stopped (probe_once net m) = hm_stopped m"
  "hm_interval (probe_once net m) = hm_interval m"
  by (simp_all add: probe_once_def)

section \<open>The coroutine and its loop\<close>

text \<open>
  A script of turns as the events the coroutine meets: the probe, a call of \<open>stop()\<close> while it
  sleeps, the end of the timer wait.  From the head of the loop it goes through the same states as
  \<open>monitor_run\<close>, and has ended exactly when the loop has.
\<close>

fun monitor_events :: "monitor_turn list \<Rightarrow> monitor_pc \<times> health_monitor \<Rightarrow> monitor_pc \<times> health_monitor" where
  "monitor_events [] st = st"
| "monitor_events (t # ts) (pc, m) =
     (case monitor_resume (MProbe (mt_net t)) pc m of
        None \<Rightarrow> (pc, m)
      | Some (m1, pc1) \<Rightarrow>
          (case monitor_resume (MTimer (mt_cancelled t)) pc1 (if mt_stop t then monitor_stop m1 else m1) of
             None \<Rightarrow> (pc1, m1)
           | Some (m2, pc2) \<Rightarrow> monitor_events ts (pc2, m2)))"

lemma monitor_events_ended: "monitor_events ts (MEnded, m) = (MEnded, m)"
  by (cases ts) simp_all

lemma monitor_run_stopped: "hm_stopped m \<Longrightarrow> monitor_run ts m = (m, True)"
  by (cases ts) simp_all

lemma monitor_coroutine:
  "monitor_run ts m = (m', ended) \<longleftrightarrow>
     monitor_events ts (monitor_head m, m) = (if ended then MEnded else MProbing, m')"
proof (induction ts arbitrary: m)
  case Nil
  show ?case by (auto simp: monitor_head_def)
next
  case (Cons t ts)
  let ?m2 = "if mt_stop t then monitor_stop (probe_once (mt_net t) m) else probe_once (mt_net t) m"
  show ?case
  proof (cases "hm_stopped m")
    case True
    then show ?thesis by (auto simp: monitor_head_def)
  next
    case False
    with Cons [of ?m2] show ?thesis
      by (auto simp: monitor_head_def [of m] monitor_events_ended Let_def)
  qed
qed

section \<open>Properties\<close>

text \<open>
  After a run of the monitor loop that began on a live monitor, the published state is the
  documented verdict (200, 503, banner and index rules per backend type) on some probe of the
  run, namely the last one made: no turn after a stop or a cancelled timer probes again, and
  without one every turn of the script is probed.
\<close>

theorem monitor_tracks_last_probe:
  assumes "monitor_run ts m = (m', ended)" "\<not> hm_stopped m" "ts \<noteq> []"
  shows "\<exists>made t. made @ [t] = take (length made + 1) ts \<and>
     documented_health (hm_type m) (mt_net t) (hm_state m') \<and>
     list_all (\<lambda>u. \<not> mt_stop u \<and> \<not> mt_cancelled u) made \<and>
     (ended \<longleftrightarrow> mt_stop t \<or> mt_cancelled t) \<and> (\<not> ended \<longrightarrow> made @ [t] = ts)"
  using assms
proof (induction ts arbitrary: m)
  case (Cons t ts)
  let ?m1 = "probe_once (mt_net t) m"
  show ?case
  proof (cases "mt_stop t \<or> mt_cancelled t \<or> ts = []")
    case True
    have "hm_state m' = hm_state ?m1 \<and> (ended \<longleftrightarrow> mt_stop t \<or> mt_cancelled t)"
      using Cons.prems True
      by (cases ts) (auto simp: Let_def monitor_stop_def frame_simps split: if_splits)
    with True show ?thesis
      using probe_once_documented [of m "mt_net t"] by (intro exI [of _ "[]"] exI [of _ t]) auto
  next
    case False
    then have "monitor_run ts ?m1 = (m', ended)" "\<not> hm_stopped ?m1"
      using Cons.prems by (auto simp: Let_def frame_simps split: if_splits)
    from Cons.IH [OF this] False obtain made u where
      "made @ [u] = take (length made + 1) ts" "documented_health (hm_type m) (mt_net u) (hm_state m')"
      "list_all (\<lambda>u. \<not> mt_stop u \<and> \<not> mt_cancelled u) made"
      "ended \<longleftrightarrow> mt_stop u \<or> mt_cancelled u" "\<not> ended \<longrightarrow> made @ [u] = ts"
      by (auto simp: frame_simps)
    with False show ?thesis by (intro exI [of _ "t # made"] exI [of _ u]) auto
  qed
qed simp

theorem monitor_tracks_last_probe_witness:
  "\<exists>made t. made @ [t] = take (length made + 1) [example_turn] \<and>
     documented_health Vllm (mt_net t) NotReady \<and>
     list_all (\<lambda>u. \<not> mt_stop u \<and> \<not> mt_cancelled u) made \<and>
     (False \<longleftrightarrow> mt_stop t \<or> mt_cancelled t) \<and> (\<not> False \<longrightarrow> made @ [t] = [example_turn])"
  using monitor_tracks_last_probe [of "[example_turn]" "new_monitor Vllm 0"
      "(new_monitor Vllm 0)\<lparr>hm_state := NotReady\<rparr>" False]
  by (simp add: new_monitor_def example_turn_def probe_once_def evaluate_health_endpoint_def
      to_probe_def client_get_def unary_call_def new_unary_result_def)

end
