(* ===== verification/Metrics.thy ===== *)
theory Metrics
  imports Kvmux_Prelude Doubles "HOL-Library.Product_Lexorder"
begin

text \<open>
  The metrics registry (\<^verbatim>\<open>src/metrics/registry.hpp\<close>, \<^verbatim>\<open>src/metrics/registry.cpp\<close>): labels,
  histograms, the registry's maps and gauges, and the Prometheus text exposition.  Every method
  runs under the registry's mutex, so it is one function of the state.  Counters are 64-bit words,
  a \<open>std::map\<close> is its key-sorted list of pairs.
\<close>

section \<open>Labels\<close>

datatype labels = Labels (lb_route: string) (lb_backend: string) (lb_model: string)

text \<open>\<open>operator<\<close>: the lexicographic order of \<open>std::tie(route, backend, model)\<close>.\<close>

definition label_key :: "labels \<Rightarrow> string \<times> string \<times> string" where
  "label_key l = (lb_route l, lb_backend l, lb_model l)"

lemma label_key_inject: "label_key a = label_key b \<longleftrightarrow> a = b"
  by (cases a; cases b) (simp add: label_key_def)

instantiation labels :: linorder
begin

definition less_eq_labels :: "labels \<Rightarrow> labels \<Rightarrow> bool" where
  "less_eq_labels a b = (label_key a \<le> label_key b)"

definition less_labels :: "labels \<Rightarrow> labels \<Rightarrow> bool" where
  "less_labels a b = (label_key a < label_key b)"

instance
  by standard
     (auto simp: less_eq_labels_def less_labels_def less_le_not_le label_key_inject [symmetric])

end

section \<open>Histograms\<close>

record histogram =
  bounds :: "double list"
  counts :: "u64 list"
  total_count :: u64
  hist_sum :: double

definition new_histogram :: "double list \<Rightarrow> histogram" where
  "new_histogram upper_bounds =
     \<lparr>bounds = upper_bounds, counts = replicate (length upper_bounds) 0, total_count = 0,
      hist_sum = Fin 0\<rparr>"

definition observe :: "double \<Rightarrow> histogram \<Rightarrow> histogram" where
  "observe v h =
     h\<lparr>hist_sum := double_add (hist_sum h) v, total_count := total_count h + 1,
       counts := map2 (\<lambda>b c. if double_le v b then c + 1 else c) (bounds h) (counts h)\<rparr>"

definition decimals :: "nat list \<Rightarrow> double list" where
  "decimals ns = map (\<lambda>n. round_double (of_nat n / 1000)) ns"

text \<open>The bucket bounds, in thousandths of a second, each read as the nearest double.\<close>

definition ttft_buckets :: "double list" where
  "ttft_buckets = decimals
     [1, 5, 10, 20, 40, 60, 80, 100, 250, 500, 750, 1000, 2500, 5000, 7500, 10000]"

definition tpot_buckets :: "double list" where
  "tpot_buckets = decimals [10, 25, 50, 75, 100, 150, 200, 300, 400, 500, 750, 1000, 2500]"

definition duration_buckets :: "double list" where
  "duration_buckets = decimals
     [10, 20, 40, 80, 160, 320, 640, 1280, 2560, 5120, 10240, 20480, 40960, 81920]"

section \<open>Text\<close>

fun esc :: "string \<Rightarrow> string" where
  "esc [] = []"
| "esc (c # cs) =
     (if c = BS then [BS, BS] else if c = DQ then [BS, DQ]
      else if c = LF then [BS, CHR ''n''] else [c]) @ esc cs"

text \<open>
  \<open>os << d\<close> with the default format: six significant digits (\<open>%g\<close>), the exact value rounded to
  nearest even, trailing zeros dropped, scientific outside \<open>1e-4 <= |d| < 1e6\<close>.
\<close>

definition strip_zeros :: "string \<Rightarrow> string" where
  "strip_zeros s = rev (dropWhile (\<lambda>c. c = CHR ''0'') (rev s))"

definition with_fraction :: "string \<Rightarrow> string \<Rightarrow> string" where
  "with_fraction ip fr = (if strip_zeros fr = [] then ip else ip @ ''.'' @ strip_zeros fr)"

definition sig_digits :: "rat \<Rightarrow> string \<times> int" where
  "sig_digits q =
     (let e = ilog 10 q; n = rint_even (q * 10 powi (5 - e))
      in if n \<ge> 1000000 then (''100000'', e + 1) else (int_to_string n, e))"

definition exponent_text :: "int \<Rightarrow> string" where
  "exponent_text e =
     (if e < 0 then ''e-'' else ''e+'') @ (if \<bar>e\<bar> < 10 then ''0'' else []) @ int_to_string \<bar>e\<bar>"

definition fmt_positive :: "rat \<Rightarrow> string" where
  "fmt_positive q =
     (let (ds, e) = sig_digits q
      in if e < - 4 \<or> e \<ge> 6 then with_fraction (take 1 ds) (drop 1 ds) @ exponent_text e
         else if e \<ge> 0 then with_fraction (take (nat e + 1) ds) (drop (nat e + 1) ds)
         else with_fraction ''0'' (replicate (nat (- e - 1)) (CHR ''0'') @ ds))"

fun fmt_double :: "double \<Rightarrow> string" where
  "fmt_double PInf = ''+Inf''"
| "fmt_double NInf = ''-Inf''"
| "fmt_double NaN = ''nan''"
| "fmt_double (Fin q) =
     (if q = 0 then ''0'' else if q < 0 then ''-'' @ fmt_positive (- q) else fmt_positive q)"

definition u64_to_string :: "u64 \<Rightarrow> string" where
  "u64_to_string w = nat_to_string (unat w)"

definition label_str :: "labels \<Rightarrow> string" where
  "label_str l =
     ''{route='' @ [DQ] @ esc (lb_route l) @ [DQ] @ '',backend='' @ [DQ] @ esc (lb_backend l)
     @ [DQ] @ '',model='' @ [DQ] @ esc (lb_model l) @ [DQ] @ ''}''"

definition with_le :: "string \<Rightarrow> string \<Rightarrow> string" where
  "with_le lstr le =
     (if lstr = [] \<or> lstr = ''{}'' then ''{le='' @ [DQ] @ le @ [DQ] @ ''}''
      else ''{'' @ take (length lstr - 2) (drop 1 lstr) @ '',le='' @ [DQ] @ le @ [DQ] @ ''}'')"

definition bucket_line :: "string \<Rightarrow> string \<Rightarrow> double \<times> u64 \<Rightarrow> string" where
  "bucket_line name lstr bc =
     name @ ''_bucket'' @ with_le lstr (fmt_double (fst bc)) @ '' '' @ u64_to_string (snd bc) @ [LF]"

definition write_histogram :: "string \<Rightarrow> string \<Rightarrow> histogram \<Rightarrow> string" where
  "write_histogram name lstr h =
     concat (map (bucket_line name lstr) (zip (bounds h) (counts h)))
     @ name @ ''_bucket'' @ with_le lstr ''+Inf'' @ '' '' @ u64_to_string (total_count h) @ [LF]
     @ name @ ''_sum'' @ lstr @ '' '' @ fmt_double (hist_sum h) @ [LF]
     @ name @ ''_count'' @ lstr @ '' '' @ u64_to_string (total_count h) @ [LF]"

section \<open>The registry\<close>

type_synonym hist_map = "(labels \<times> histogram) list"

record registry =
  reg_ttft :: hist_map
  reg_itl :: hist_map
  reg_e2e :: hist_map
  reg_queue :: hist_map
  reg_overhead :: hist_map
  requests_total :: "(string \<times> u64) list"
  affinity_spills :: "(labels \<times> u64) list"
  backend_failures :: "(labels \<times> u64) list"
  requests_running :: int
  requests_waiting :: int

definition new_registry :: registry where
  "new_registry =
     \<lparr>reg_ttft = [], reg_itl = [], reg_e2e = [], reg_queue = [], reg_overhead = [],
      requests_total = [], affinity_spills = [], backend_failures = [],
      requests_running = 0, requests_waiting = 0\<rparr>"

definition hist_for :: "hist_map \<Rightarrow> labels \<Rightarrow> double list \<Rightarrow> histogram" where
  "hist_for m l buckets = (case map_of m l of Some h \<Rightarrow> h | None \<Rightarrow> new_histogram buckets)"

definition observe_in :: "double list \<Rightarrow> labels \<Rightarrow> double \<Rightarrow> hist_map \<Rightarrow> hist_map" where
  "observe_in buckets l v m = map_put l (observe v (hist_for m l buckets)) m"

definition observe_ttft :: "labels \<Rightarrow> double \<Rightarrow> registry \<Rightarrow> registry" where
  "observe_ttft l v r = r\<lparr>reg_ttft := observe_in ttft_buckets l v (reg_ttft r)\<rparr>"

definition observe_itl :: "labels \<Rightarrow> double \<Rightarrow> registry \<Rightarrow> registry" where
  "observe_itl l v r = r\<lparr>reg_itl := observe_in tpot_buckets l v (reg_itl r)\<rparr>"

definition observe_e2e :: "labels \<Rightarrow> double \<Rightarrow> registry \<Rightarrow> registry" where
  "observe_e2e l v r = r\<lparr>reg_e2e := observe_in duration_buckets l v (reg_e2e r)\<rparr>"

definition observe_queue_time :: "labels \<Rightarrow> double \<Rightarrow> registry \<Rightarrow> registry" where
  "observe_queue_time l v r = r\<lparr>reg_queue := observe_in duration_buckets l v (reg_queue r)\<rparr>"

definition observe_overhead :: "labels \<Rightarrow> double \<Rightarrow> registry \<Rightarrow> registry" where
  "observe_overhead l v r = r\<lparr>reg_overhead := observe_in duration_buckets l v (reg_overhead r)\<rparr>"

text \<open>\<open>m[k] += n\<close>, a missing entry starting at 0.\<close>

definition bump :: "'k::linorder \<Rightarrow> u64 \<Rightarrow> ('k \<times> u64) list \<Rightarrow> ('k \<times> u64) list" where
  "bump k n m = map_put k ((case map_of m k of Some c \<Rightarrow> c | None \<Rightarrow> 0) + n) m"

definition inc_requests_total :: "string \<Rightarrow> registry \<Rightarrow> registry" where
  "inc_requests_total code r = r\<lparr>requests_total := bump code 1 (requests_total r)\<rparr>"

definition inc_affinity_spills :: "labels \<Rightarrow> int \<Rightarrow> registry \<Rightarrow> registry" where
  "inc_affinity_spills l n r = r\<lparr>affinity_spills := bump l (of_int n) (affinity_spills r)\<rparr>"

definition inc_backend_failures :: "labels \<Rightarrow> int \<Rightarrow> registry \<Rightarrow> registry" where
  "inc_backend_failures l n r = r\<lparr>backend_failures := bump l (of_int n) (backend_failures r)\<rparr>"

definition set_requests_running :: "int \<Rightarrow> registry \<Rightarrow> registry" where
  "set_requests_running v r = r\<lparr>requests_running := v\<rparr>"

definition set_requests_waiting :: "int \<Rightarrow> registry \<Rightarrow> registry" where
  "set_requests_waiting v r = r\<lparr>requests_waiting := v\<rparr>"

section \<open>Exposition\<close>

definition block_header :: "string \<Rightarrow> string \<Rightarrow> string \<Rightarrow> string" where
  "block_header name help kind =
     ''# HELP '' @ name @ '' '' @ help @ [LF] @ ''# TYPE '' @ name @ '' '' @ kind @ [LF]"

definition hist_block :: "string \<Rightarrow> string \<Rightarrow> hist_map \<Rightarrow> string" where
  "hist_block name help m =
     block_header name help ''histogram''
     @ concat (map (\<lambda>(l, h). write_histogram name (label_str l) h) m)"

definition counter_block :: "string \<Rightarrow> string \<Rightarrow> (labels \<times> u64) list \<Rightarrow> string" where
  "counter_block name help m =
     block_header name help ''counter''
     @ concat (map (\<lambda>(l, n). name @ label_str l @ '' '' @ u64_to_string n @ [LF]) m)"

definition gauge_block :: "string \<Rightarrow> string \<Rightarrow> int \<Rightarrow> string" where
  "gauge_block name help v =
     block_header name help ''gauge'' @ name @ '' '' @ int_to_string v @ [LF]"

definition requests_block :: "(string \<times> u64) list \<Rightarrow> string" where
  "requests_block m =
     block_header ''kvmux:requests_total'' ''Completed requests by HTTP status code.'' ''counter''
     @ concat (map (\<lambda>(code, n). ''kvmux:requests_total{code='' @ [DQ] @ esc code @ [DQ] @ ''} ''
         @ u64_to_string n @ [LF]) m)"

definition expose :: "registry \<Rightarrow> string" where
  "expose r =
     hist_block ''kvmux:ttft_seconds'' ''Time to first token, seconds.'' (reg_ttft r)
     @ hist_block ''kvmux:inter_token_latency_seconds''
         ''Inter-token (time-per-output-token) latency, seconds.'' (reg_itl r)
     @ hist_block ''kvmux:e2e_request_latency_seconds'' ''End-to-end request latency, seconds.''
         (reg_e2e r)
     @ hist_block ''kvmux:request_queue_time_seconds'' ''Admission queue wait time, seconds.''
         (reg_queue r)
     @ hist_block ''kvmux:gateway_overhead_seconds''
         ''Gateway self-overhead: admission to first upstream byte forwarded, seconds.''
         (reg_overhead r)
     @ gauge_block ''kvmux:requests_running'' ''In-flight requests.'' (requests_running r)
     @ gauge_block ''kvmux:requests_waiting'' ''Requests waiting in the admission queue.''
         (requests_waiting r)
     @ requests_block (requests_total r)
     @ counter_block ''kvmux:affinity_spills_total'' ''Prefix-affinity load-guard spill cascades.''
         (affinity_spills r)
     @ counter_block ''kvmux:backend_failures_total'' ''Upstream request failures.''
         (backend_failures r)"

section \<open>Reading the text back\<close>

text \<open>What a scraper does with a label value: undo the escapes up to the closing quote.\<close>

fun read_value :: "string \<Rightarrow> string \<times> string" where
  "read_value [] = ([], [])"
| "read_value [c] = (if c = DQ then ([], []) else ([c], []))"
| "read_value (c # d # cs) =
     (if c = DQ then ([], d # cs)
      else if c = BS then let (v, r) = read_value cs in ((if d = CHR ''n'' then LF else d) # v, r)
      else let (v, r) = read_value (d # cs) in (c # v, r))"

definition read_labels :: "string \<Rightarrow> labels" where
  "read_labels s =
     (let (route, s1) = read_value (drop 8 s);
          (backend, s2) = read_value (drop 10 s1);
          (model, s3) = read_value (drop 8 s2)
      in Labels route backend model)"

definition observe_all :: "double list \<Rightarrow> histogram \<Rightarrow> histogram" where
  "observe_all vs h = foldl (\<lambda>h v. observe v h) h vs"

datatype registry_op =
    ObserveTtft labels double
  | ObserveItl labels double
  | ObserveE2e labels double
  | ObserveQueue labels double
  | ObserveOverhead labels double
  | IncRequests string
  | IncSpills labels int
  | IncFailures labels int
  | SetRunning int
  | SetWaiting int

fun apply_registry_op :: "registry_op \<Rightarrow> registry \<Rightarrow> registry" where
  "apply_registry_op (ObserveTtft l v) = observe_ttft l v"
| "apply_registry_op (ObserveItl l v) = observe_itl l v"
| "apply_registry_op (ObserveE2e l v) = observe_e2e l v"
| "apply_registry_op (ObserveQueue l v) = observe_queue_time l v"
| "apply_registry_op (ObserveOverhead l v) = observe_overhead l v"
| "apply_registry_op (IncRequests c) = inc_requests_total c"
| "apply_registry_op (IncSpills l n) = inc_affinity_spills l n"
| "apply_registry_op (IncFailures l n) = inc_backend_failures l n"
| "apply_registry_op (SetRunning v) = set_requests_running v"
| "apply_registry_op (SetWaiting v) = set_requests_waiting v"

definition registry_after :: "registry_op list \<Rightarrow> registry" where
  "registry_after ops = fold apply_registry_op ops new_registry"

text \<open>The values a registry has observed for one series, oldest first.\<close>

fun e2e_values :: "labels \<Rightarrow> registry_op list \<Rightarrow> double list" where
  "e2e_values l [] = []"
| "e2e_values l (op # ops) =
     (case op of ObserveE2e k v \<Rightarrow> if k = l then [v] else [] | _ \<Rightarrow> []) @ e2e_values l ops"

lemmas registry_defs [state_simps] =
  observe_ttft_def observe_itl_def observe_e2e_def observe_queue_time_def observe_overhead_def
  inc_requests_total_def inc_affinity_spills_def inc_backend_failures_def
  set_requests_running_def set_requests_waiting_def

lemma esc_no_lf: "LF \<notin> set (esc s)"
  by (induction s) auto

lemma read_value_plain:
  "c \<noteq> DQ \<Longrightarrow> c \<noteq> BS \<Longrightarrow> s \<noteq> [] \<Longrightarrow>
   read_value (c # s) = (let (v, r) = read_value s in (c # v, r))"
  by (cases s) auto

lemma read_value_esc: "read_value (esc v @ DQ # rest) = (v, rest)"
proof (induction v)
  case Nil
  show ?case by (cases rest) simp_all
next
  case (Cons c v)
  then show ?case by (auto simp: read_value_plain)
qed

lemma read_labels_roundtrip: "read_labels (label_str l) = l"
  by (simp add: read_labels_def label_str_def read_value_esc)

section \<open>Histograms count\<close>

lemma double_le_trans: "double_le a b \<Longrightarrow> double_le b c \<Longrightarrow> double_le a c"
  by (cases a; cases b; cases c) auto

lemma observe_all_snoc: "observe_all (vs @ [v]) h = observe v (observe_all vs h)"
  by (simp add: observe_all_def)

lemma observe_all_counts:
  "bounds (observe_all vs (new_histogram bs)) = bs"
  "counts (observe_all vs (new_histogram bs)) =
     map (\<lambda>b. of_nat (count_if (\<lambda>v. double_le v b) vs)) bs"
  "total_count (observe_all vs (new_histogram bs)) = of_nat (length vs)"
proof (induction vs rule: rev_induct)
  case (snoc v vs)
  { case 1 show ?case using snoc by (simp add: observe_all_snoc observe_def) }
  { case 2 show ?case using snoc
      by (auto simp: observe_all_snoc observe_def map2_map_map [symmetric] intro!: nth_equalityI) }
  { case 3 show ?case using snoc by (simp add: observe_all_snoc observe_def) }
qed (simp_all add: observe_all_def new_histogram_def map_replicate_const)

lemma count_if_le_length: "count_if P xs \<le> length xs"
  by (induction xs) auto

lemma count_if_mono: "(\<And>x. P x \<Longrightarrow> Q x) \<Longrightarrow> count_if P xs \<le> count_if Q xs"
  by (induction xs) (auto simp: le_SucI)

lemma unat_count: "length vs < 2 ^ 64 \<Longrightarrow> unat (of_nat (count_if P vs) :: u64) = count_if P vs"
  using count_if_le_length [of P vs] by (simp add: unat_of_nat take_bit_nat_eq_self)

lemma unat_length: "length vs < 2 ^ 64 \<Longrightarrow> unat (of_nat (length vs) :: u64) = length vs"
  by (simp add: unat_of_nat take_bit_nat_eq_self)

lemma decimals_ascending: "sorted ns \<Longrightarrow> sorted_wrt double_le (decimals ns)"
  by (auto simp: decimals_def sorted_wrt_map divide_right_mono
      intro!: round_double_mono sorted_wrt_mono_rel [of _ "(\<le>)"])

lemma buckets_ascending:
  "sorted_wrt double_le ttft_buckets" "sorted_wrt double_le tpot_buckets"
  "sorted_wrt double_le duration_buckets"
  unfolding ttft_buckets_def tpot_buckets_def duration_buckets_def
  by (rule decimals_ascending, simp)+

section \<open>The registry's maps\<close>

lemma registry_after_snoc: "registry_after (ops @ [op]) = apply_registry_op op (registry_after ops)"
  by (simp add: registry_after_def)

definition registry_sorted :: "registry \<Rightarrow> bool" where
  "registry_sorted r =
     (sorted_map (reg_ttft r) \<and> sorted_map (reg_itl r) \<and> sorted_map (reg_e2e r) \<and>
      sorted_map (reg_queue r) \<and> sorted_map (reg_overhead r) \<and> sorted_map (requests_total r) \<and>
      sorted_map (affinity_spills r) \<and> sorted_map (backend_failures r))"

lemma registry_op_sorted: "registry_sorted r \<Longrightarrow> registry_sorted (apply_registry_op op r)"
  by (cases op) (auto simp: registry_sorted_def state_simps observe_in_def bump_def)

lemma registry_after_sorted: "registry_sorted (registry_after ops)"
proof (induction ops rule: rev_induct)
  case Nil
  show ?case by (simp add: registry_after_def new_registry_def registry_sorted_def sorted_map_def)
qed (simp add: registry_after_snoc registry_op_sorted)

lemma e2e_values_snoc:
  "e2e_values l (ops @ [op]) =
     e2e_values l ops @ (case op of ObserveE2e k v \<Rightarrow> if k = l then [v] else [] | _ \<Rightarrow> [])"
  by (induction ops) auto

lemma e2e_series:
  "map_of (reg_e2e (registry_after ops)) l =
     (if e2e_values l ops = [] then None
      else Some (observe_all (e2e_values l ops) (new_histogram duration_buckets)))"
proof (induction ops rule: rev_induct)
  case Nil
  show ?case by (simp add: registry_after_def new_registry_def)
next
  case (snoc op ops)
  then show ?case
    by (cases op)
       (auto simp: registry_after_snoc e2e_values_snoc state_simps observe_in_def hist_for_def
         observe_all_def)
qed

lemma requests_counter:
  "map_of (requests_total (registry_after ops)) code =
     (let n = count_if (\<lambda>op. op = IncRequests code) ops
      in if n = 0 then None else Some (of_nat n))"
proof (induction ops rule: rev_induct)
  case Nil
  show ?case by (simp add: registry_after_def new_registry_def)
next
  case (snoc op ops)
  then show ?case
    by (cases op) (auto simp: registry_after_snoc state_simps bump_def Let_def)
qed

lemma observe_all_cumulative:
  assumes "sorted_wrt double_le bs" "length vs < 2 ^ 64"
  shows "sorted (map unat (counts (observe_all vs (new_histogram bs))))"
    and "\<forall>c \<in> set (counts (observe_all vs (new_histogram bs))).
      unat c \<le> unat (total_count (observe_all vs (new_histogram bs)))"
proof -
  have "map unat (counts (observe_all vs (new_histogram bs))) =
      map (\<lambda>b. count_if (\<lambda>v. double_le v b) vs) bs"
    using assms(2) by (simp add: observe_all_counts unat_count)
  moreover have "sorted_wrt (\<lambda>b c. count_if (\<lambda>v. double_le v b) vs \<le> count_if (\<lambda>v. double_le v c) vs) bs"
    using assms(1)
    by (rule sorted_wrt_mono_rel [rotated]) (auto intro: count_if_mono double_le_trans)
  ultimately show "sorted (map unat (counts (observe_all vs (new_histogram bs))))"
    by (simp add: sorted_wrt_map)
  show "\<forall>c \<in> set (counts (observe_all vs (new_histogram bs))).
      unat c \<le> unat (total_count (observe_all vs (new_histogram bs)))"
    using assms(2) by (auto simp: observe_all_counts unat_count unat_length count_if_le_length)
qed

section \<open>Properties\<close>

text \<open>
  C40: Whatever the registry recorded, the end-to-end latency series of a label set exists exactly
  when a value was observed for it, each bucket counts the observations at or below its bound, the
  buckets are cumulative (never decreasing along the bounds, never above the total), and the
  total is the number of observations (fewer than \<open>2^64\<close> of them).
\<close>

theorem e2e_histogram_exact:
  assumes "length (e2e_values l ops) < 2 ^ 64"
  shows "(map_of (reg_e2e (registry_after ops)) l = None \<longleftrightarrow> e2e_values l ops = []) \<and>
    (\<forall>h. map_of (reg_e2e (registry_after ops)) l = Some h \<longrightarrow>
       map unat (counts h) =
         map (\<lambda>b. length (filter (\<lambda>v. double_le v b) (e2e_values l ops))) duration_buckets \<and>
       unat (total_count h) = length (e2e_values l ops) \<and>
       sorted (map unat (counts h)) \<and> (\<forall>c \<in> set (counts h). unat c \<le> unat (total_count h)))"
  using assms observe_all_cumulative [OF buckets_ascending(3) assms]
  by (auto simp: e2e_series observe_all_counts unat_count unat_length
      count_if_def [symmetric] split: if_splits)

theorem e2e_histogram_exact_witness:
  "\<exists>h. map_of (reg_e2e (registry_after [ObserveE2e (Labels [] [] []) (Fin 0)])) (Labels [] [] [])
       = Some h \<and> unat (total_count h) = 1"
  using e2e_histogram_exact [of "Labels [] [] []" "[ObserveE2e (Labels [] [] []) (Fin 0)]"]
  by (cases "map_of (reg_e2e (registry_after [ObserveE2e (Labels [] [] []) (Fin 0)]))
        (Labels [] [] [])") auto

text \<open>
  \<open>requests_total{code}\<close> is exactly the number of requests recorded under that code, modulo
  \<open>2^64\<close>, whatever else was recorded in between, and every map of the registry lists each series
  once, in key order.
\<close>

theorem requests_total_exact:
  "map_of (requests_total (registry_after ops)) code =
     (let n = length (filter (\<lambda>op. op = IncRequests code) ops)
      in if n = 0 then None else Some (of_nat n))
   \<and> registry_sorted (registry_after ops)"
  using requests_counter [of ops code] registry_after_sorted by (simp add: count_if_def)

text \<open>
  Label values survive the exposition: a scraper that undoes the escapes reads back exactly
  the route, backend and model, whatever bytes they contain, and no label value breaks a line.
\<close>

theorem label_str_roundtrip: "read_labels (label_str l) = l \<and> LF \<notin> set (label_str l)"
  by (simp add: read_labels_roundtrip) (simp add: label_str_def esc_no_lf)

end
