(* ===== verification/Gateway.thy ===== *)
theory Gateway
  imports Config Health Circuit_Breaker Admission Routing Metrics Sse_Writer Upstream_Client
begin

text \<open>
  The gateway (\<^verbatim>\<open>src/server/gateway.hpp\<close>, \<^verbatim>\<open>src/server/gateway.cpp\<close>): its state, the request
  dispatcher \<open>handle\<close> and the chat handler.  The handler is a coroutine on a single-threaded
  io_context, so what runs between two \<open>co_await\<close> points is atomic: each such segment is one
  function of the gateway and of the coroutine's locals (\<open>chat_ctx\<close>), and the suspended coroutine
  is a value of type \<open>session\<close>.  A segment reads the clock once, as \<open>now\<close>.  An exception that
  leaves the handler is \<open>Inl ()\<close>; it unwinds the locals exactly as a return does.
\<close>

section \<open>State\<close>

text \<open>Third-party functions the gateway calls: JSON parser and serialiser, XXH64.\<close>

record lib =
  jparse :: "string \<Rightarrow> json option"
  jdump :: "json \<Rightarrow> string option"
  xxh64 :: "string \<Rightarrow> u64"

record backend =
  be_conf :: backend_config
  be_target :: target
  be_health :: health_monitor
  be_breaker :: circuit_breaker
  be_limiter :: limiter
  be_forced :: "health_state option"

record gateway =
  gw_cfg :: config
  gw_backends :: "backend list"
  gw_gate :: global_gate
  gw_cursor :: u64
  gw_registry :: registry
  gw_draining :: bool
  gw_in_flight :: int

definition of_ms :: "int \<Rightarrow> time_ns" where
  "of_ms n = n * 1000000"

definition new_backend :: "backend_config \<Rightarrow> (string, backend) result" where
  "new_backend bc =
     result_bind (parse_target (bc_base_url bc)) (\<lambda>t.
       Inr \<lparr>be_conf = bc, be_target = t,
            be_health = new_monitor (bc_type bc) (of_ms (bc_health_interval_ms bc)),
            be_breaker = new_breaker (bc_failure_threshold bc) (of_ms (bc_open_ms bc)),
            be_limiter = new_limiter (bc_max_in_flight bc), be_forced = None\<rparr>)"

fun new_backends :: "backend_config list \<Rightarrow> (string, backend list) result" where
  "new_backends [] = Inr []"
| "new_backends (bc # bcs) =
     result_bind (new_backend bc) (\<lambda>b. result_bind (new_backends bcs) (\<lambda>bs. Inr (b # bs)))"

definition new_gateway :: "config \<Rightarrow> (string, gateway) result" where
  "new_gateway cfg =
     result_bind (new_backends (cfg_backends cfg)) (\<lambda>bs.
       Inr \<lparr>gw_cfg = cfg, gw_backends = bs,
            gw_gate = new_gate (sc_max_concurrent_streams (cfg_server cfg))
              (sc_queue_depth (cfg_server cfg)) (of_ms (sc_queue_timeout_ms (cfg_server cfg))),
            gw_cursor = 0, gw_registry = new_registry, gw_draining = False, gw_in_flight = 0\<rparr>)"

definition update_backend :: "nat \<Rightarrow> (backend \<Rightarrow> backend) \<Rightarrow> gateway \<Rightarrow> gateway" where
  "update_backend i f gw = gw\<lparr>gw_backends := (gw_backends gw)[i := f (gw_backends gw ! i)]\<rparr>"

definition update_breaker :: "nat \<Rightarrow> (circuit_breaker \<Rightarrow> circuit_breaker) \<Rightarrow> gateway \<Rightarrow> gateway" where
  "update_breaker i f = update_backend i (\<lambda>b. b\<lparr>be_breaker := f (be_breaker b)\<rparr>)"

definition update_limiter :: "nat \<Rightarrow> (limiter \<Rightarrow> limiter) \<Rightarrow> gateway \<Rightarrow> gateway" where
  "update_limiter i f = update_backend i (\<lambda>b. b\<lparr>be_limiter := f (be_limiter b)\<rparr>)"

definition update_registry :: "(registry \<Rightarrow> registry) \<Rightarrow> gateway \<Rightarrow> gateway" where
  "update_registry f gw = gw\<lparr>gw_registry := f (gw_registry gw)\<rparr>"

definition stop_health_monitors :: "gateway \<Rightarrow> gateway" where
  "stop_health_monitors gw =
     gw\<lparr>gw_backends := map (\<lambda>b. b\<lparr>be_health := monitor_stop (be_health b)\<rparr>) (gw_backends gw)\<rparr>"

definition begin_drain :: "gateway \<Rightarrow> gateway" where
  "begin_drain gw = gw\<lparr>gw_draining := True\<rparr>"

text \<open>\<open>backends_.at(i)\<close> throws out of range: \<open>None\<close>.\<close>

definition set_health_for_test :: "nat \<Rightarrow> health_state \<Rightarrow> gateway \<Rightarrow> gateway option" where
  "set_health_for_test i st gw =
     (if i < length (gw_backends gw)
      then Some (update_backend i (\<lambda>b. b\<lparr>be_forced := Some st\<rparr>) gw) else None)"

definition observed_health :: "backend \<Rightarrow> health_state" where
  "observed_health b = (case be_forced b of Some st \<Rightarrow> st | None \<Rightarrow> hm_state (be_health b))"

definition health_of :: "nat \<Rightarrow> gateway \<Rightarrow> health_state option" where
  "health_of i gw =
     (if i < length (gw_backends gw) then Some (observed_health (gw_backends gw ! i)) else None)"

definition breaker_of :: "time_ns \<Rightarrow> nat \<Rightarrow> gateway \<Rightarrow> breaker_state option" where
  "breaker_of now i gw =
     (if i < length (gw_backends gw)
      then Some (observed_state now (be_breaker (gw_backends gw ! i))) else None)"

definition backends_for_model :: "string \<Rightarrow> gateway \<Rightarrow> nat list" where
  "backends_for_model model gw =
     filter (\<lambda>i. model \<in> set (bc_models (be_conf (gw_backends gw ! i)))) [0..<length (gw_backends gw)]"

definition order_candidates ::
  "lib \<Rightarrow> chat_request \<Rightarrow> candidate list \<Rightarrow> gateway \<Rightarrow> (gateway \<times> nat list \<times> int) option" where
  "order_candidates lib creq candidates gw =
     (let rc = cfg_routing (gw_cfg gw)
      in if rc_policy rc = PrefixAffinity
         then (case flatten_messages (gateway_content (jdump lib)) (cr_messages creq) of
                 None \<Rightarrow> None
               | Some msgs \<Rightarrow>
                   let ro = affinity_order (xxh64 lib) (rc_load_threshold rc)
                     (canonical_affinity_string (cr_model creq) msgs (rc_prefix_bytes rc)) candidates
                   in Some (gw, ro_order ro, ro_spills ro))
         else let (c, ro) = round_robin_order (gw_cursor gw) candidates
              in Some (gw\<lparr>gw_cursor := c\<rparr>, ro_order ro, 0))"

definition render_metrics :: "gateway \<Rightarrow> string" where
  "render_metrics gw = expose (gw_registry gw)"

definition publish_admission_gauges :: "gateway \<Rightarrow> gateway" where
  "publish_admission_gauges gw =
     update_registry (\<lambda>r. set_requests_waiting (int (length (waiters (gw_gate gw))))
       (set_requests_running (in_flight (gw_gate gw)) r)) gw"

section \<open>Replies\<close>

definition json_response :: "bool \<Rightarrow> int \<Rightarrow> string \<Rightarrow> wire" where
  "json_response keep_alive code body =
     JsonResponse code keep_alive (if code = 429 then Some ''1'' else None) body"

definition error_json :: "lib \<Rightarrow> error_kind \<Rightarrow> string \<Rightarrow> string \<Rightarrow> string option" where
  "error_json lib kind msg param = jdump lib (make_error kind msg param)"

text \<open>\<open>std::chrono::duration<double>\<close> of a nanosecond count.\<close>

definition seconds_of :: "time_ns \<Rightarrow> double" where
  "seconds_of t =
     (case double_of_int t of Fin q \<Rightarrow> round_double (q / 1000000000) | d \<Rightarrow> d)"

section \<open>The chat handler's locals and suspension points\<close>

text \<open>
  \<open>cx_rest\<close> is the tail of \<open>order\<close> after the current position, \<open>cx_slot\<close> the backend whose slot the
  loop body's \<open>BackendSlot\<close> holds, \<open>cx_ticket\<close> whether the \<open>Ticket\<close> exists, \<open>cx_sent\<close> what has left
  on the client's socket.
\<close>

record chat_ctx =
  cx_arrive :: time_ns
  cx_keep :: bool
  cx_code :: int
  cx_labels :: labels
  cx_req :: chat_request
  cx_serving :: "nat list"
  cx_ticket :: bool
  cx_admitted :: time_ns
  cx_text :: string
  cx_rest :: "nat list"
  cx_spills :: int
  cx_spills_recorded :: bool
  cx_attempts :: nat
  cx_slot :: "nat option"
  cx_probe :: bool
  cx_sent :: "wire list"

definition new_ctx :: "time_ns \<Rightarrow> bool \<Rightarrow> chat_ctx" where
  "new_ctx now keep_alive =
     \<lparr>cx_arrive = now, cx_keep = keep_alive, cx_code = 0,
      cx_labels = Labels ''chat_completions'' [] [],
      cx_req = \<lparr>cr_model = [], cr_messages = [], cr_stream = False, cr_raw = JNull\<rparr>,
      cx_serving = [], cx_ticket = False, cx_admitted = 0, cx_text = [], cx_rest = [],
      cx_spills = 0, cx_spills_recorded = False, cx_attempts = 0, cx_slot = None,
      cx_probe = False, cx_sent = []\<rparr>"

text \<open>The locals of the streaming branch that the sink captures.\<close>

record frame_state =
  fs_writer :: sse_writer
  header_started :: bool
  downstream_dead :: bool
  first_frame_seen :: bool
  t_prev_frame :: time_ns

definition new_frame_state :: "bool \<Rightarrow> frame_state" where
  "new_frame_state keep_alive =
     \<lparr>fs_writer = new_writer keep_alive, header_started = False, downstream_dead = False,
      first_frame_seen = False, t_prev_frame = 0\<rparr>"

text \<open>How a finished upstream stream is closed downstream.\<close>

datatype end_plan = EmptyStream | ErrorEnd string | CleanEnd

text \<open>
  Where a request is suspended: in a plain reply, in the gate (granted or not, start of the wait,
  expiry of its timer), in an upstream call, in the write of a JSON reply, in the closing writes
  of a stream; or it has ended, with its result and what was sent.
\<close>

datatype session =
    PlainReply wire bool
  | ChatWait chat_ctx bool time_ns time_ns
  | ChatUnary chat_ctx
  | ChatStream chat_ctx frame_state
  | ChatReply chat_ctx wire
  | ChatEnd chat_ctx frame_state end_plan
  | Done "(unit, bool) result" "wire list"

text \<open>A segment yields the gateway, the waiter its ticket release granted, and where it stopped.\<close>

type_synonym segment = "gateway \<times> nat option \<times> session"

section \<open>Leaving the handler\<close>

text \<open>
  What runs when the handler's frame is destroyed, innermost first: the \<open>BackendSlot\<close>, the
  \<open>Ticket\<close>, the \<open>TerminalRecorder\<close>; then \<open>handle\<close> decrements \<open>in_flight_\<close>.
\<close>

definition drop_slot :: "chat_ctx \<Rightarrow> gateway \<Rightarrow> gateway" where
  "drop_slot ctx gw =
     (case cx_slot ctx of None \<Rightarrow> gw | Some i \<Rightarrow> update_limiter i release_slot gw)"

definition drop_ticket :: "chat_ctx \<Rightarrow> gateway \<Rightarrow> gateway \<times> nat option" where
  "drop_ticket ctx gw =
     (if cx_ticket ctx
      then let (g, w) = gate_release (gw_gate gw) in (gw\<lparr>gw_gate := g\<rparr>, w) else (gw, None))"

definition record_terminal :: "time_ns \<Rightarrow> chat_ctx \<Rightarrow> registry \<Rightarrow> registry" where
  "record_terminal now ctx r =
     (if cx_code ctx \<noteq> 0
      then observe_e2e (cx_labels ctx) (seconds_of (now - cx_arrive ctx))
        (inc_requests_total (int_to_string (cx_code ctx)) r)
      else r)"

definition finish :: "time_ns \<Rightarrow> chat_ctx \<Rightarrow> (unit, bool) result \<Rightarrow> gateway \<Rightarrow> segment" where
  "finish now ctx res gw =
     (let (gw1, w) = drop_ticket ctx (drop_slot ctx gw);
          gw2 = update_registry (record_terminal now ctx) gw1
      in (gw2\<lparr>gw_in_flight := gw_in_flight gw2 - 1\<rparr>, w, Done res (cx_sent ctx)))"

text \<open>\<open>final_code = code; co_return co_await write_json(..., code, body)\<close>; the body may throw.\<close>

definition reply ::
  "time_ns \<Rightarrow> chat_ctx \<Rightarrow> int \<Rightarrow> string option \<Rightarrow> gateway \<Rightarrow> segment" where
  "reply now ctx code body gw =
     (let ctx1 = ctx\<lparr>cx_code := code\<rparr>
      in case body of
           None \<Rightarrow> finish now ctx1 (Inl ()) gw
         | Some b \<Rightarrow> (gw, None, ChatReply ctx1 (json_response (cx_keep ctx) code b)))"

section \<open>The failover walk\<close>

definition exhausted :: "lib \<Rightarrow> time_ns \<Rightarrow> chat_ctx \<Rightarrow> gateway \<Rightarrow> segment" where
  "exhausted lib now ctx gw =
     reply now ctx 503
       (error_json lib NoBackend ''no eligible backend could serve the request'' []) gw"

definition backend_labels :: "nat \<Rightarrow> chat_ctx \<Rightarrow> gateway \<Rightarrow> labels" where
  "backend_labels i ctx gw =
     Labels ''chat_completions'' (bc_name (be_conf (gw_backends gw ! i))) (cr_model (cx_req ctx))"

definition max_attempts :: nat where
  "max_attempts = 2"

definition record_spills :: "nat \<Rightarrow> chat_ctx \<Rightarrow> gateway \<Rightarrow> chat_ctx \<times> gateway" where
  "record_spills i ctx gw =
     (if \<not> cx_spills_recorded ctx \<and> cx_spills ctx > 0
      then (ctx\<lparr>cx_spills_recorded := True\<rparr>,
            update_registry (inc_affinity_spills (backend_labels i ctx gw) (cx_spills ctx)) gw)
      else (ctx, gw))"

fun walk :: "lib \<Rightarrow> time_ns \<Rightarrow> nat list \<Rightarrow> chat_ctx \<Rightarrow> gateway \<Rightarrow> segment" where
  "walk lib now [] ctx gw = exhausted lib now ctx gw"
| "walk lib now (i # rest) ctx gw =
     (if cx_attempts ctx \<ge> max_attempts then exhausted lib now ctx gw
      else
        let (ctx1, gw1) = record_spills i ctx gw;
            (cb, dec) = allow_request now (be_breaker (gw_backends gw1 ! i));
            gw2 = update_breaker i (\<lambda>_. cb) gw1
        in if \<not> allowed dec then walk lib now rest ctx1 gw2
           else
             let (l, got) = try_acquire (be_limiter (gw_backends gw2 ! i))
             in if \<not> got
                then walk lib now rest ctx1 (update_breaker i (abort_probe now (is_probe dec)) gw2)
                else
                  let ctx2 = ctx1\<lparr>cx_slot := Some i, cx_attempts := cx_attempts ctx1 + 1,
                        cx_labels := backend_labels i ctx1 gw2, cx_probe := is_probe dec,
                        cx_rest := rest\<rparr>;
                      gw3 = update_limiter i (\<lambda>_. l) gw2
                  in if cr_stream (cx_req ctx2)
                     then (gw3, None, ChatStream ctx2 (new_frame_state (cx_keep ctx2)))
                     else (gw3, None, ChatUnary ctx2))"

text \<open>\<open>continue\<close> after an attempt: the slot goes out of scope, the walk resumes behind it.\<close>

definition next_backend :: "lib \<Rightarrow> time_ns \<Rightarrow> chat_ctx \<Rightarrow> gateway \<Rightarrow> segment" where
  "next_backend lib now ctx gw =
     walk lib now (cx_rest ctx) (ctx\<lparr>cx_slot := None\<rparr>) (drop_slot ctx gw)"

definition may_retry :: "chat_ctx \<Rightarrow> bool" where
  "may_retry ctx = (cx_attempts ctx < max_attempts \<and> cx_rest ctx \<noteq> [])"

definition note_failure :: "time_ns \<Rightarrow> chat_ctx \<Rightarrow> gateway \<Rightarrow> gateway" where
  "note_failure now ctx gw =
     (case cx_slot ctx of
        None \<Rightarrow> gw
      | Some i \<Rightarrow>
          update_registry (inc_backend_failures (backend_labels i ctx gw) 1)
            (update_breaker i (on_failure now (cx_probe ctx)) gw))"

definition note_success :: "chat_ctx \<Rightarrow> gateway \<Rightarrow> gateway" where
  "note_success ctx gw =
     (case cx_slot ctx of
        None \<Rightarrow> gw | Some i \<Rightarrow> update_breaker i (on_success (cx_probe ctx)) gw)"

definition wrapped_error :: "lib \<Rightarrow> string \<Rightarrow> int \<Rightarrow> string option" where
  "wrapped_error lib body code = jdump lib (wrap_upstream_error (jparse lib) body code)"

definition after_unary ::
  "lib \<Rightarrow> time_ns \<Rightarrow> unary_result \<Rightarrow> chat_ctx \<Rightarrow> gateway \<Rightarrow> segment" where
  "after_unary lib now ur ctx gw =
     (if \<not> u_connected ur then next_backend lib now ctx (note_failure now ctx gw)
      else if u_status ur \<ge> 500
      then (if may_retry ctx then next_backend lib now ctx (note_failure now ctx gw)
            else reply now ctx (u_status ur) (wrapped_error lib (u_body ur) (u_status ur))
                   (note_failure now ctx gw))
      else if u_status ur \<ge> 400
      then reply now ctx (u_status ur) (wrapped_error lib (u_body ur) (u_status ur))
             (note_success ctx gw)
      else reply now ctx 200 (Some (u_body ur)) (note_success ctx gw))"

section \<open>Streaming\<close>

text \<open>
  The sink on one event; \<open>ok1\<close> and \<open>ok2\<close> say whether the header write and the frame write
  complete.
\<close>

definition observe_frame ::
  "time_ns \<Rightarrow> sse_event \<Rightarrow> chat_ctx \<Rightarrow> frame_state \<Rightarrow> registry \<Rightarrow> registry" where
  "observe_frame now ev ctx fs r =
     (if \<not> first_frame_seen fs
      then observe_ttft (cx_labels ctx) (seconds_of (now - cx_admitted ctx))
        (observe_overhead (cx_labels ctx) (seconds_of (now - cx_admitted ctx)) r)
      else if \<not> is_done ev then observe_itl (cx_labels ctx) (seconds_of (now - t_prev_frame fs)) r
      else r)"

definition sink_frame ::
  "time_ns \<Rightarrow> bool \<Rightarrow> bool \<Rightarrow> sse_event \<Rightarrow> chat_ctx \<Rightarrow> frame_state \<Rightarrow> gateway \<Rightarrow>
   (gateway \<times> chat_ctx \<times> frame_state) \<times> bool" where
  "sink_frame now ok1 ok2 ev ctx fs gw =
     (if downstream_dead fs then ((gw, ctx, fs), False)
      else
        case (if header_started fs then Inr (fs_writer fs, []) else writer_begin ok1 (fs_writer fs)) of
          Inl _ \<Rightarrow> ((gw, ctx, fs\<lparr>downstream_dead := True\<rparr>), False)
        | Inr (w1, out1) \<Rightarrow>
            let ctx1 = ctx\<lparr>cx_sent := cx_sent ctx @ out1\<rparr>;
                gw1 = update_registry (observe_frame now ev ctx fs) gw;
                fs1 = fs\<lparr>fs_writer := w1, header_started := True, first_frame_seen := True,
                         t_prev_frame := now\<rparr>
            in case write_data ok2 (ev_data ev) w1 of
                 Inl _ \<Rightarrow> ((gw1, ctx1, fs1\<lparr>downstream_dead := True\<rparr>), False)
               | Inr (w2, out2) \<Rightarrow>
                   ((gw1, ctx1\<lparr>cx_sent := cx_sent ctx1 @ out2\<rparr>, fs1\<lparr>fs_writer := w2\<rparr>), True))"

definition stream_failed :: "stream_result \<Rightarrow> bool" where
  "stream_failed sr \<longleftrightarrow>
     http_status sr \<ge> 400 \<or> \<not> connected sr \<or> timed_out sr \<or> upstream_aborted sr"

definition after_stream ::
  "lib \<Rightarrow> time_ns \<Rightarrow> stream_result \<Rightarrow> chat_ctx \<Rightarrow> frame_state \<Rightarrow> gateway \<Rightarrow> segment" where
  "after_stream lib now sr ctx fs gw =
     (if \<not> header_started fs
      then
        (if stream_failed sr
         then
           (let gw1 = note_failure now ctx gw
            in if may_retry ctx then next_backend lib now ctx gw1
               else if http_status sr \<ge> 400
               then reply now ctx (http_status sr)
                      (wrapped_error lib (error_body sr) (http_status sr)) gw1
               else if timed_out sr
               then reply now ctx 504 (error_json lib UpstreamTimeout ''upstream timed out'' []) gw1
               else reply now ctx 502
                      (error_json lib UpstreamFailure ''upstream connection failed'' []) gw1)
         else (note_success ctx gw, None, ChatEnd ctx fs EmptyStream))
      else
        let ctx1 = ctx\<lparr>cx_code := 200\<rparr>
        in if downstream_dead fs then finish now ctx1 (Inr False) gw
           else if upstream_aborted sr \<or> timed_out sr
           then
             (let gw1 = note_failure now ctx gw;
                  kind = (if timed_out sr then UpstreamTimeout else UpstreamFailure);
                  msg = (if timed_out sr then ''upstream timed out mid-stream''
                         else ''upstream aborted mid-stream'')
              in case error_json lib kind msg [] of
                   None \<Rightarrow> finish now ctx1 (Inr False) gw1
                 | Some payload \<Rightarrow> (gw1, None, ChatEnd ctx1 fs (ErrorEnd payload)))
           else (note_success ctx gw, None, ChatEnd ctx1 fs CleanEnd))"

text \<open>The closing writes of a stream; the three arguments say which of them complete.\<close>

definition close_stream ::
  "bool \<Rightarrow> bool \<Rightarrow> string option \<Rightarrow> bool \<Rightarrow> chat_ctx \<Rightarrow> sse_writer \<Rightarrow> chat_ctx \<times> (unit, bool) result" where
  "close_stream ok2 ok3 payload keep ctx w =
     (case (case payload of None \<Rightarrow> Inr (w, []) | Some p \<Rightarrow> write_data ok2 p w) of
        Inl _ \<Rightarrow> (ctx, Inr False)
      | Inr (w1, out1) \<Rightarrow>
          let ctx1 = ctx\<lparr>cx_sent := cx_sent ctx @ out1\<rparr>
          in case writer_end ok3 w1 of
               Inl _ \<Rightarrow> (ctx1, Inr False)
             | Inr (w2, out2) \<Rightarrow> (ctx1\<lparr>cx_sent := cx_sent ctx1 @ out2\<rparr>, Inr keep))"

definition end_stream ::
  "bool \<Rightarrow> bool \<Rightarrow> bool \<Rightarrow> end_plan \<Rightarrow> chat_ctx \<Rightarrow> frame_state \<Rightarrow> chat_ctx \<times> (unit, bool) result" where
  "end_stream ok1 ok2 ok3 plan ctx fs =
     (case plan of
        EmptyStream \<Rightarrow>
          (case writer_begin ok1 (fs_writer fs) of
             Inl _ \<Rightarrow> (ctx, Inl ())
           | Inr (w, out) \<Rightarrow>
               close_stream ok2 ok3 (Some ''[DONE]'') (cx_keep ctx)
                 (ctx\<lparr>cx_code := 200, cx_sent := cx_sent ctx @ out\<rparr>) w)
      | ErrorEnd payload \<Rightarrow> close_stream ok2 ok3 (Some payload) False ctx (fs_writer fs)
      | CleanEnd \<Rightarrow> close_stream ok2 ok3 None (cx_keep ctx) ctx (fs_writer fs))"

section \<open>From arrival to the walk\<close>

definition eligible_candidates :: "nat list \<Rightarrow> gateway \<Rightarrow> candidate list" where
  "eligible_candidates serving gw =
     map (\<lambda>i. \<lparr>backend_index = i, active_requests = lim_active (be_limiter (gw_backends gw ! i)),
               cand_max = lim_max (be_limiter (gw_backends gw ! i))\<rparr>)
       (filter (\<lambda>i. observed_health (gw_backends gw ! i) = Healthy) serving)"

definition route_and_walk :: "lib \<Rightarrow> time_ns \<Rightarrow> chat_ctx \<Rightarrow> gateway \<Rightarrow> segment" where
  "route_and_walk lib now ctx gw =
     (let candidates = eligible_candidates (cx_serving ctx) gw
      in if candidates = []
         then reply now ctx 503
                (error_json lib NoBackend
                   (''no eligible backend for model '' @ quoted (cr_model (cx_req ctx))) []) gw
         else
           case order_candidates lib (cx_req ctx) candidates gw of
             None \<Rightarrow> finish now ctx (Inl ()) gw
           | Some (gw1, order, spills) \<Rightarrow>
               (case jdump lib (inject_include_usage (cr_raw (cx_req ctx))) of
                  None \<Rightarrow> finish now ctx (Inl ()) gw1
                | Some body \<Rightarrow>
                    walk lib now order (ctx\<lparr>cx_text := body, cx_spills := spills\<rparr>) gw1))"

definition after_admit ::
  "lib \<Rightarrow> time_ns \<Rightarrow> admit_result \<Rightarrow> chat_ctx \<Rightarrow> gateway \<Rightarrow> segment" where
  "after_admit lib now adm ctx gw =
     (let gw1 = update_registry (observe_queue_time (cx_labels ctx) (seconds_of (queued_for adm))) gw
      in if \<not> is_admitted adm
         then reply now ctx 429
                (error_json lib Admission
                   (if status adm = QueueFull then ''admission queue is full''
                    else ''admission queue wait timed out'') []) gw1
         else route_and_walk lib now (ctx\<lparr>cx_ticket := True, cx_admitted := now\<rparr>)
                (publish_admission_gauges gw1))"

text \<open>The handler up to its first suspension; \<open>w\<close> identifies the coroutine's waiter.\<close>

definition acquire_and_go :: "lib \<Rightarrow> nat \<Rightarrow> time_ns \<Rightarrow> chat_ctx \<Rightarrow> gateway \<Rightarrow> segment" where
  "acquire_and_go lib w now ctx gw =
     (case gate_enter w now (gw_gate gw) of
        (g, Ready adm) \<Rightarrow> after_admit lib now adm ctx (gw\<lparr>gw_gate := g\<rparr>)
      | (g, Suspended start deadline) \<Rightarrow>
          (gw\<lparr>gw_gate := g\<rparr>, None, ChatWait ctx False start deadline))"

definition handle_chat ::
  "lib \<Rightarrow> nat \<Rightarrow> time_ns \<Rightarrow> string \<Rightarrow> bool \<Rightarrow> gateway \<Rightarrow> segment" where
  "handle_chat lib w now body keep_alive gw =
     (let ctx = new_ctx now keep_alive
      in case jparse lib body of
           None \<Rightarrow> reply now ctx 400 (error_json lib InvalidRequest ''invalid JSON body'' []) gw
         | Some j \<Rightarrow>
             (case parse_request j of
                Inl e \<Rightarrow>
                  (case jdump lib (request_error_json e) of
                     None \<Rightarrow> finish now ctx (Inl ()) gw
                   | Some b \<Rightarrow> reply now ctx (status_code (err_kind e)) (Some b) gw)
              | Inr creq \<Rightarrow>
                  let serving = backends_for_model (cr_model creq) gw;
                      ctx1 = ctx\<lparr>cx_labels := Labels ''chat_completions'' [] (cr_model creq),
                                 cx_req := creq, cx_serving := serving\<rparr>
                  in if serving = []
                     then reply now ctx1 404
                            (error_json lib UnknownModel
                               (''no backend serves model '' @ quoted (cr_model creq)) ''model'') gw
                     else acquire_and_go lib w now ctx1 gw))"

fun dedup_models :: "string list \<Rightarrow> string list \<Rightarrow> string list" where
  "dedup_models seen [] = []"
| "dedup_models seen (m # ms) =
     (if m \<in> set seen then dedup_models seen ms else m # dedup_models (seen @ [m]) ms)"

definition models_json :: "gateway \<Rightarrow> json" where
  "models_json gw =
     json_of_pairs
       [(''object'', JString ''list''),
        (''data'', JArray (map (\<lambda>m. card_json (new_card m))
           (dedup_models [] (concat (map (\<lambda>b. bc_models (be_conf b)) (gw_backends gw))))))]"

record http_request =
  rq_method :: string
  rq_target :: string
  rq_body :: string

definition plain_reply :: "bool \<Rightarrow> int \<Rightarrow> string option \<Rightarrow> gateway \<Rightarrow> segment" where
  "plain_reply keep_alive code body gw =
     (case body of
        None \<Rightarrow> (gw, None, Done (Inl ()) [])
      | Some b \<Rightarrow> (gw, None, PlainReply (json_response keep_alive code b) keep_alive))"

definition handle ::
  "lib \<Rightarrow> nat \<Rightarrow> time_ns \<Rightarrow> http_request \<Rightarrow> bool \<Rightarrow> gateway \<Rightarrow> segment" where
  "handle lib w now req keep_alive gw =
     (if gw_draining gw
      then plain_reply False 503 (error_json lib NoBackend ''gateway is shutting down'' []) gw
      else if rq_method req = ''GET'' \<and> rq_target req = ''/healthz''
      then plain_reply keep_alive 200
             (Some (''{'' @ [DQ] @ ''status'' @ [DQ] @ '':'' @ [DQ] @ ''ok'' @ [DQ] @ ''}'')) gw
      else if rq_method req = ''GET'' \<and>
        (rq_target req = ''/v1/models'' \<or> starts_with ''/v1/models'' (rq_target req))
      then plain_reply keep_alive 200 (jdump lib (models_json gw)) gw
      else if rq_method req = ''POST'' \<and> rq_target req = ''/v1/chat/completions''
      then handle_chat lib w now (rq_body req) keep_alive
             (gw\<lparr>gw_in_flight := gw_in_flight gw + 1\<rparr>)
      else plain_reply keep_alive 404 (error_json lib NotFound ''unknown route'' []) gw)"

section \<open>Resumption\<close>

text \<open>
  What a suspended request is resumed with: its gate timer completed (cancelled by a grant, or
  expired), its upstream call returned, the upstream delivered a frame to its sink, a write of its
  completed or threw.
\<close>

datatype wakeup =
    TimerDone
  | UnaryDone unary_result
  | Frame sse_event bool bool
  | StreamDone stream_result
  | Written bool
  | Closed3 bool bool bool

fun resume :: "lib \<Rightarrow> nat \<Rightarrow> time_ns \<Rightarrow> wakeup \<Rightarrow> session \<Rightarrow> gateway \<Rightarrow> segment option" where
  "resume lib w now TimerDone (ChatWait ctx granted start deadline) gw =
     (if granted \<or> deadline \<le> now
      then let (g, adm) = gate_resume w granted start now (gw_gate gw)
           in Some (after_admit lib now adm ctx (gw\<lparr>gw_gate := g\<rparr>))
      else None)"
| "resume lib w now (UnaryDone ur) (ChatUnary ctx) gw = Some (after_unary lib now ur ctx gw)"
| "resume lib w now (Frame ev ok1 ok2) (ChatStream ctx fs) gw =
     (let ((gw1, ctx1, fs1), keep) = sink_frame now ok1 ok2 ev ctx fs gw
      in Some (gw1, None, ChatStream ctx1 fs1))"
| "resume lib w now (StreamDone sr) (ChatStream ctx fs) gw =
     Some (after_stream lib now sr ctx fs gw)"
| "resume lib w now (Written ok) (ChatReply ctx out) gw =
     Some (if ok then finish now (ctx\<lparr>cx_sent := cx_sent ctx @ [out]\<rparr>) (Inr (cx_keep ctx)) gw
           else finish now ctx (Inl ()) gw)"
| "resume lib w now (Written ok) (PlainReply out keep_alive) gw =
     Some (gw, None, if ok then Done (Inr keep_alive) [out] else Done (Inl ()) [])"
| "resume lib w now (Closed3 ok1 ok2 ok3) (ChatEnd ctx fs plan) gw =
     (let (ctx1, res) = end_stream ok1 ok2 ok3 plan ctx fs in Some (finish now ctx1 res gw))"
| "resume lib w now wk s gw = None"

end
