(* ===== verification/Gateway_Ledger.thy ===== *)
theory Gateway_Ledger
  imports Gateway
begin

text \<open>
  Many requests at once: the step relation of the whole gateway (arrivals, resumptions in any
  order, health probes, drain), and its resource ledger.  In every reachable state the in-flight
  count of each backend's limiter, the gate's slot count and the gateway's own counter equal the
  number of requests that hold the resource, so no exit path leaks or double-releases one.
\<close>

section \<open>The system\<close>

record gw_sys =
  sys_gw :: gateway
  sessions :: "session list"
  sys_now :: time_ns

text \<open>\<open>release\<close> marks the granted waiter and cancels its timer.\<close>

fun grant_session :: "session \<Rightarrow> session" where
  "grant_session (ChatWait ctx granted start deadline) = ChatWait ctx True start deadline"
| "grant_session s = s"

fun apply_grant :: "nat option \<Rightarrow> session list \<Rightarrow> session list" where
  "apply_grant None ss = ss"
| "apply_grant (Some w) ss = ss[w := grant_session (ss ! w)]"

inductive gw_step :: "lib \<Rightarrow> gw_sys \<Rightarrow> gw_sys \<Rightarrow> bool" for lib where
  arrive: "sys_now s \<le> t \<Longrightarrow>
     handle lib (length (sessions s)) t req keep_alive (sys_gw s) = (gw, g, pc) \<Longrightarrow>
     gw_step lib s \<lparr>sys_gw = gw, sessions = apply_grant g (sessions s @ [pc]), sys_now = t\<rparr>"
| wake: "sys_now s \<le> t \<Longrightarrow> i < length (sessions s) \<Longrightarrow>
     resume lib i t wk (sessions s ! i) (sys_gw s) = Some (gw, g, pc) \<Longrightarrow>
     gw_step lib s \<lparr>sys_gw = gw, sessions = apply_grant g ((sessions s)[i := pc]), sys_now = t\<rparr>"
| probed: "k < length (gw_backends (sys_gw s)) \<Longrightarrow>
     gw_step lib s (s\<lparr>sys_gw := update_backend k
       (\<lambda>b. b\<lparr>be_health := probe_once net (be_health b)\<rparr>) (sys_gw s)\<rparr>)"
| forced: "set_health_for_test k st (sys_gw s) = Some gw \<Longrightarrow> gw_step lib s (s\<lparr>sys_gw := gw\<rparr>)"
| drain: "gw_step lib s (s\<lparr>sys_gw := stop_health_monitors (begin_drain (sys_gw s))\<rparr>)"

definition gw_start :: "gw_sys \<Rightarrow> bool" where
  "gw_start s \<longleftrightarrow>
     (\<exists>cfg gw. config_ok cfg \<and> length (cfg_backends cfg) < 2 ^ 64 \<and> new_gateway cfg = Inr gw \<and>
        sys_gw s = gw \<and> sessions s = [])"

section \<open>What a request holds\<close>

datatype share = NoShare | Queued | Holds

datatype view = View (v_slot: "nat option") (v_gate: share) (v_live: bool)

definition ctx_view :: "chat_ctx \<Rightarrow> view" where
  "ctx_view ctx = View (cx_slot ctx) (if cx_ticket ctx then Holds else NoShare) True"

fun session_view :: "session \<Rightarrow> view" where
  "session_view (PlainReply out keep) = View None NoShare False"
| "session_view (ChatWait ctx granted a b) = View None (if granted then Holds else Queued) True"
| "session_view (ChatUnary ctx) = ctx_view ctx"
| "session_view (ChatStream ctx fs) = ctx_view ctx"
| "session_view (ChatReply ctx out) = ctx_view ctx"
| "session_view (ChatEnd ctx fs plan) = ctx_view ctx"
| "session_view (Done res sent) = View None NoShare False"

fun grant_view :: "view \<Rightarrow> view" where
  "grant_view (View k g l) = View k (if g = Queued then Holds else g) l"

fun grant_views :: "nat option \<Rightarrow> view list \<Rightarrow> view list" where
  "grant_views None vs = vs"
| "grant_views (Some w) vs = vs[w := grant_view (vs ! w)]"

definition holds_slot :: "nat \<Rightarrow> session \<Rightarrow> bool" where
  "holds_slot k p = (v_slot (session_view p) = Some k)"

definition holds_ticket :: "session \<Rightarrow> bool" where
  "holds_ticket p = (v_gate (session_view p) = Holds)"

definition in_chat :: "session \<Rightarrow> bool" where
  "in_chat p = v_live (session_view p)"

text \<open>
  Every resource is accounted for: each backend's in-flight count is the number of requests that
  hold one of its slots and is at most the configured \<open>max_in_flight\<close>; the gate's count is the
  number of requests that own a slot of it (a granted waiter that has not resumed included) and at
  most \<open>max_concurrent_streams\<close>; the gateway's own count is the number of chat requests under way.
\<close>

definition settled :: "gateway \<Rightarrow> session list \<Rightarrow> bool" where
  "settled gw ss \<longleftrightarrow>
     (\<forall>k < length (gw_backends gw).
        lim_active (be_limiter (gw_backends gw ! k)) = int (length (filter (holds_slot k) ss)) \<and>
        lim_active (be_limiter (gw_backends gw ! k)) \<le> bc_max_in_flight (be_conf (gw_backends gw ! k)))
     \<and> in_flight (gw_gate gw) = int (length (filter holds_ticket ss))
     \<and> in_flight (gw_gate gw) \<le> sc_max_concurrent_streams (cfg_server (gw_cfg gw))
     \<and> gw_in_flight gw = int (length (filter in_chat ss))"

text \<open>A start state and a request, used to instantiate the results.\<close>

definition example_lib :: lib where
  "example_lib = \<lparr>jparse = (\<lambda>_. None), jdump = (\<lambda>_. Some ''{}''), xxh64 = (\<lambda>_. 0)\<rparr>"

definition example_sys :: gw_sys where
  "example_sys =
     (case new_gateway example_config of
        Inr gw \<Rightarrow> \<lparr>sys_gw = gw, sessions = [], sys_now = 0\<rparr>
      | Inl _ \<Rightarrow> undefined)"

definition example_post :: http_request where
  "example_post = \<lparr>rq_method = ''POST'', rq_target = ''/v1/chat/completions'', rq_body = ''x''\<rparr>"

interpretation slots: limiter_ledger try_acquire release_slot lim_active lim_max
  "\<lambda>v. v_slot v = Some k" for k
  by unfold_locales

interpretation tickets: gate_ledger gate_enter gate_forget gate_release waiters gate_inv
  "\<lambda>v. v_gate v = Holds" "\<lambda>v. v_gate v = Queued"
  by unfold_locales simp

definition limiter_of :: "gateway \<Rightarrow> nat \<Rightarrow> limiter" where
  "limiter_of gw k = be_limiter (gw_backends gw ! k)"

definition ledger :: "gateway \<Rightarrow> view list \<Rightarrow> bool" where
  "ledger gw vs \<longleftrightarrow>
     (\<forall>k < length (gw_backends gw). slots.balanced k (limiter_of gw k) vs)
     \<and> tickets.consistent (gw_gate gw) vs
     \<and> gw_in_flight gw = int (count_if v_live vs)
     \<and> (\<forall>b \<in> set (gw_backends gw). breaker_wf (be_breaker b) \<and>
          lim_max (be_limiter b) = bc_max_in_flight (be_conf b))
     \<and> max_concurrent (gw_gate gw) = sc_max_concurrent_streams (cfg_server (gw_cfg gw))"

section \<open>Frame rules\<close>

lemma update_same: "xs ! i = v \<Longrightarrow> xs[i := v] = xs"
  by (metis list_update_id)

lemma update_backend_simps [simp]:
  "length (gw_backends (update_backend k f gw)) = length (gw_backends gw)"
  "gw_gate (update_backend k f gw) = gw_gate gw"
  "gw_in_flight (update_backend k f gw) = gw_in_flight gw"
  "gw_cfg (update_backend k f gw) = gw_cfg gw"
  by (simp_all add: update_backend_def)

lemma update_part_simps [simp]:
  "length (gw_backends (update_breaker k h gw)) = length (gw_backends gw)"
  "length (gw_backends (update_limiter k g gw)) = length (gw_backends gw)"
  "gw_backends (update_registry r gw) = gw_backends gw"
  "gw_gate (update_registry r gw) = gw_gate gw"
  "gw_in_flight (update_registry r gw) = gw_in_flight gw"
  by (simp_all add: update_breaker_def update_limiter_def update_registry_def)

lemma ledger_cong:
  assumes "map (\<lambda>b. (be_limiter b, be_breaker b, be_conf b)) (gw_backends gw') =
      map (\<lambda>b. (be_limiter b, be_breaker b, be_conf b)) (gw_backends gw)"
    and "gw_gate gw' = gw_gate gw" "gw_in_flight gw' = gw_in_flight gw" "gw_cfg gw' = gw_cfg gw"
  shows "ledger gw' vs = ledger gw vs"
proof -
  let ?f = "\<lambda>b. (be_limiter b, be_breaker b, be_conf b)"
  have len: "length (gw_backends gw') = length (gw_backends gw)"
    using arg_cong [OF assms(1), of length] by simp
  have "limiter_of gw' k = limiter_of gw k" if "k < length (gw_backends gw)" for k
    using arg_cong [OF assms(1), of "\<lambda>xs. fst (xs ! k)"] that len by (simp add: limiter_of_def)
  moreover have "(\<forall>b \<in> set (gw_backends gw'). breaker_wf (be_breaker b) \<and>
        lim_max (be_limiter b) = bc_max_in_flight (be_conf b)) \<longleftrightarrow>
      (\<forall>b \<in> set (gw_backends gw). breaker_wf (be_breaker b) \<and>
        lim_max (be_limiter b) = bc_max_in_flight (be_conf b))"
    using arg_cong [OF assms(1), of "\<lambda>xs. \<forall>x \<in> set xs. breaker_wf (fst (snd x)) \<and>
      lim_max (fst x) = bc_max_in_flight (snd (snd x))"] by simp
  ultimately show ?thesis using assms(2-4) len by (simp add: ledger_def)
qed

lemma ledger_registry [simp]: "ledger (update_registry f gw) vs = ledger gw vs"
  by (rule ledger_cong) (simp_all add: update_registry_def)

lemma ledger_other_fields [simp]:
  "ledger (gw\<lparr>gw_cursor := c\<rparr>) vs = ledger gw vs"
  "ledger (gw\<lparr>gw_draining := d\<rparr>) vs = ledger gw vs"
  by (rule ledger_cong; simp)+

lemma map_nth_update: "f (g (xs ! k)) = f (xs ! k) \<Longrightarrow> map f (xs[k := g (xs ! k)]) = map f xs"
  by (cases "k < length xs") (simp_all add: map_update list_update_same_conv list_update_beyond)

lemma ledger_backend:
  assumes "\<And>b. be_limiter (f b) = be_limiter b" "\<And>b. be_breaker (f b) = be_breaker b"
    and "\<And>b. be_conf (f b) = be_conf b"
  shows "ledger (update_backend k f gw) vs = ledger gw vs"
proof (rule ledger_cong)
  show "map (\<lambda>b. (be_limiter b, be_breaker b, be_conf b)) (gw_backends (update_backend k f gw)) =
      map (\<lambda>b. (be_limiter b, be_breaker b, be_conf b)) (gw_backends gw)"
    by (simp add: update_backend_def) (rule map_nth_update, simp add: assms)
qed simp_all

lemma in_backends_update:
  "b \<in> set (gw_backends (update_backend k f gw)) \<Longrightarrow>
   b \<in> set (gw_backends gw) \<or>
     k < length (gw_backends gw) \<and> gw_backends gw ! k \<in> set (gw_backends gw) \<and> b = f (gw_backends gw ! k)"
  by (cases "k < length (gw_backends gw)")
     (auto simp: update_backend_def list_update_beyond not_less
       dest!: set_mp [OF set_update_subset_insert])

lemma ledger_breaker:
  assumes "ledger gw vs" "breaker_wf (be_breaker (gw_backends gw ! k)) \<Longrightarrow>
      breaker_wf (f (be_breaker (gw_backends gw ! k)))"
  shows "ledger (update_breaker k f gw) vs"
proof -
  have "limiter_of (update_breaker k f gw) j = limiter_of gw j" for j
    by (cases "k < length (gw_backends gw)")
       (simp_all add: limiter_of_def update_breaker_def update_backend_def nth_list_update
         list_update_beyond not_less)
  moreover have "\<forall>b \<in> set (gw_backends (update_breaker k f gw)). breaker_wf (be_breaker b) \<and>
      lim_max (be_limiter b) = bc_max_in_flight (be_conf b)"
    using assms by (auto simp: ledger_def update_breaker_def dest!: in_backends_update)
  ultimately show ?thesis
    using assms(1) by (simp add: ledger_def update_breaker_def)
qed

lemma limiter_of_update:
  "k < length (gw_backends gw) \<Longrightarrow>
   limiter_of (update_limiter k f gw) j = (if j = k then f (limiter_of gw k) else limiter_of gw j)"
  by (simp add: limiter_of_def update_limiter_def update_backend_def)

lemma update_limiter_backends:
  assumes "ledger gw vs" "lim_max (f (be_limiter (gw_backends gw ! k))) = lim_max (be_limiter (gw_backends gw ! k))"
  shows "\<forall>b \<in> set (gw_backends (update_limiter k f gw)). breaker_wf (be_breaker b) \<and>
    lim_max (be_limiter b) = bc_max_in_flight (be_conf b)"
  using assms by (auto simp: ledger_def update_limiter_def dest!: in_backends_update)

lemma count_live: "i < length vs \<Longrightarrow> v_live v = v_live (vs ! i) \<Longrightarrow>
  count_if v_live (vs[i := v]) = count_if v_live vs"
  using count_if_update [of i vs v_live v] by simp

lemma update_limiter_frame [simp]:
  "gw_gate (update_limiter k f gw) = gw_gate gw"
  "gw_in_flight (update_limiter k f gw) = gw_in_flight gw"
  "gw_cfg (update_limiter k f gw) = gw_cfg gw"
  by (simp_all add: update_limiter_def)

lemma ledger_slot:
  assumes "ledger gw vs" "i < length vs" "v_gate v = v_gate (vs ! i)" "v_live v = v_live (vs ! i)"
    and "\<And>j. j < length (gw_backends gw) \<Longrightarrow>
      slots.balanced j (limiter_of (update_limiter k f gw) j) (vs[i := v])"
    and "lim_max (f (be_limiter (gw_backends gw ! k))) = lim_max (be_limiter (gw_backends gw ! k))"
  shows "ledger (update_limiter k f gw) (vs[i := v])"
  using assms update_limiter_backends [where f = f and k = k, OF assms(1,6)] tickets.consistent_keep [OF _ assms(2)]
  by (simp add: ledger_def count_live)

lemma ledger_acquire:
  assumes "ledger gw vs" "i < length vs" "vs ! i = View None g l" "k < length (gw_backends gw)"
    and "try_acquire (limiter_of gw k) = (l2, True)"
  shows "ledger (update_limiter k (\<lambda>_. l2) gw) (vs[i := View (Some k) g l])"
proof (rule ledger_slot [OF assms(1,2)])
  fix j
  assume "j < length (gw_backends gw)"
  with assms show "slots.balanced j (limiter_of (update_limiter k (\<lambda>_. l2) gw) j)
      (vs[i := View (Some k) g l])"
    using slots.balanced_acquire [of k "limiter_of gw k" vs i l2 "View (Some k) g l"]
      slots.balanced_keep [of j "limiter_of gw j" vs i "View (Some k) g l"]
    by (auto simp: ledger_def limiter_of_update)
qed (use assms(3) lim.acq_true [OF assms(5)] in \<open>simp_all add: limiter_of_def\<close>)

lemma ledger_release:
  assumes "ledger gw vs" "i < length vs" "vs ! i = View (Some k) g l" "k < length (gw_backends gw)"
  shows "ledger (update_limiter k release_slot gw) (vs[i := View None g l])"
proof (rule ledger_slot [OF assms(1,2)])
  fix j
  assume "j < length (gw_backends gw)"
  with assms show "slots.balanced j (limiter_of (update_limiter k release_slot gw) j)
      (vs[i := View None g l])"
    using slots.balanced_release [of k "limiter_of gw k" vs i "View None g l"]
      slots.balanced_keep [of j "limiter_of gw j" vs i "View None g l"]
    by (auto simp: ledger_def limiter_of_update)
qed (use assms(3) lim.rel_act in simp_all)

text \<open>Changes of the gate and of the live flag leave the limiters' ledgers alone.\<close>

lemma slots_keep:
  "ledger gw vs \<Longrightarrow> i < length vs \<Longrightarrow> v_slot v = v_slot (vs ! i) \<Longrightarrow> k < length (gw_backends gw) \<Longrightarrow>
   slots.balanced k (limiter_of gw k) (vs[i := v])"
  by (auto simp: ledger_def intro: slots.balanced_keep)

lemma limiter_of_gate [simp]:
  "limiter_of (gw\<lparr>gw_gate := g\<rparr>) k = limiter_of gw k"
  "limiter_of (gw\<lparr>gw_in_flight := n\<rparr>) k = limiter_of gw k"
  by (simp_all add: limiter_of_def)

lemma count_if_map: "count_if P (map f xs) = count_if (P \<circ> f) xs"
  by (induction xs) auto

lemma ledger_gate:
  assumes "ledger gw vs" "map v_slot vs' = map v_slot vs" "map v_live vs' = map v_live vs"
    and "tickets.consistent g vs'" "max_concurrent g = max_concurrent (gw_gate gw)"
  shows "ledger (gw\<lparr>gw_gate := g\<rparr>) vs'"
proof -
  have "count_if (\<lambda>v. v_slot v = Some k) vs' = count_if (\<lambda>v. v_slot v = Some k) vs" for k
    using arg_cong [OF assms(2), of "count_if (\<lambda>x. x = Some k)"] by (simp add: count_if_map comp_def)
  moreover have "count_if v_live vs' = count_if v_live vs"
    using arg_cong [OF assms(3), of "count_if (\<lambda>x. x)"] by (simp add: count_if_map comp_def)
  ultimately show ?thesis
    using assms(1,4,5) by (auto simp: ledger_def slots.balanced_def)
qed

lemma gate_ceiling_frame:
  "gate_release g = (g', w) \<Longrightarrow> max_concurrent g' = max_concurrent g"
  "gate_enter i t g = (g', r) \<Longrightarrow> max_concurrent g' = max_concurrent g"
  "max_concurrent (gate_forget i g) = max_concurrent g"
  by (auto simp: gate_defs split: list.splits if_splits)

lemma ledger_end:
  assumes "ledger gw vs" "i < length vs" "vs ! i = View None NoShare True"
  shows "ledger (gw\<lparr>gw_in_flight := gw_in_flight gw - 1\<rparr>) (vs[i := View None NoShare False])"
proof -
  have "int (count_if v_live (vs[i := View None NoShare False])) = int (count_if v_live vs) - 1"
    using assms(2,3) count_if_update [OF assms(2), of v_live] by simp
  moreover have "tickets.consistent (gw_gate gw) (vs[i := View None NoShare False])"
    using assms by (intro tickets.consistent_keep) (simp_all add: ledger_def)
  ultimately show ?thesis
    using assms slots_keep [OF assms(1,2)] by (simp add: ledger_def)
qed

section \<open>Leaving the handler settles the ledger\<close>

definition ctx_ok :: "nat \<Rightarrow> chat_ctx \<Rightarrow> bool" where
  "ctx_ok n ctx \<longleftrightarrow>
     (\<forall>k. cx_slot ctx = Some k \<longrightarrow> k < n) \<and> set (cx_rest ctx) \<subseteq> {..<n}
     \<and> set (cx_serving ctx) \<subseteq> {..<n} \<and> length (cx_serving ctx) \<le> n
     \<and> cx_attempts ctx \<le> max_attempts"

fun session_ok :: "nat \<Rightarrow> session \<Rightarrow> bool" where
  "session_ok n (ChatWait ctx granted a b) =
     (ctx_ok n ctx \<and> cx_slot ctx = None \<and> \<not> cx_ticket ctx \<and> cx_attempts ctx = 0)"
| "session_ok n (ChatUnary ctx) = (ctx_ok n ctx \<and> cx_ticket ctx \<and> cx_slot ctx \<noteq> None)"
| "session_ok n (ChatStream ctx fs) = (ctx_ok n ctx \<and> cx_ticket ctx \<and> cx_slot ctx \<noteq> None)"
| "session_ok n (ChatReply ctx out) = ctx_ok n ctx"
| "session_ok n (ChatEnd ctx fs plan) = ctx_ok n ctx"
| "session_ok n s = True"

text \<open>
  The contract of a segment run by request \<open>i\<close>: the ledger is settled for what the request holds
  afterwards, including the grant its ticket release made.
\<close>

definition seg_ok :: "nat \<Rightarrow> view list \<Rightarrow> nat \<Rightarrow> segment \<Rightarrow> bool" where
  "seg_ok n vs i seg =
     (case seg of (gw, g, pc) \<Rightarrow>
        ledger gw (grant_views g (vs[i := session_view pc])) \<and> session_ok n pc
        \<and> length (gw_backends gw) = n)"

definition at_view :: "nat \<Rightarrow> gateway \<Rightarrow> view list \<Rightarrow> nat \<Rightarrow> view \<Rightarrow> bool" where
  "at_view n gw vs i v \<longleftrightarrow>
     ledger gw vs \<and> i < length vs \<and> vs ! i = v \<and> length (gw_backends gw) = n"

lemma seg_stay: "at_view n gw vs i (session_view pc) \<Longrightarrow> session_ok n pc \<Longrightarrow> seg_ok n vs i (gw, None, pc)"
  by (auto simp: seg_ok_def at_view_def update_same)

lemma seg_ok_update [simp]: "seg_ok n (vs[i := v]) i seg = seg_ok n vs i seg"
  by (simp add: seg_ok_def)

lemma at_view_registry [simp]: "at_view n (update_registry f gw) vs i v = at_view n gw vs i v"
  by (simp add: at_view_def)

lemma at_view_breaker:
  "at_view n gw vs i v \<Longrightarrow> (breaker_wf (be_breaker (gw_backends gw ! k)) \<Longrightarrow>
     breaker_wf (f (be_breaker (gw_backends gw ! k)))) \<Longrightarrow>
   at_view n (update_breaker k f gw) vs i v"
  by (auto simp: at_view_def intro: ledger_breaker)

lemma drop_slot_view:
  assumes "at_view n gw vs i (ctx_view ctx)" "ctx_ok n ctx"
  shows "at_view n (drop_slot ctx gw) (vs[i := ctx_view (ctx\<lparr>cx_slot := None\<rparr>)]) i
    (ctx_view (ctx\<lparr>cx_slot := None\<rparr>))"
proof (cases "cx_slot ctx")
  case None
  then have "ctx_view (ctx\<lparr>cx_slot := None\<rparr>) = ctx_view ctx" by (simp add: ctx_view_def)
  with assms None show ?thesis by (auto simp: drop_slot_def at_view_def update_same)
next
  case (Some k)
  with assms show ?thesis
    using ledger_release [of gw vs i k "v_gate (ctx_view ctx)" True]
    by (auto simp: drop_slot_def at_view_def ctx_view_def ctx_ok_def)
qed

lemma drop_ticket_ledger:
  assumes "at_view n gw vs i (ctx_view ctx)" "cx_slot ctx = None" "drop_ticket ctx gw = (gw', g)"
  shows "at_view n gw' (grant_views g (vs[i := View None NoShare True])) i (View None NoShare True)
    \<and> (\<forall>w. g = Some w \<longrightarrow> w \<noteq> i)"
proof (cases "cx_ticket ctx")
  case False
  with assms show ?thesis
    by (auto simp: drop_ticket_def at_view_def ctx_view_def update_same)
next
  case True
  have l: "ledger gw vs" "i < length vs" "vs ! i = View None Holds True"
    using assms(1,2) True by (auto simp: at_view_def ctx_view_def)
  have c: "tickets.consistent (gw_gate gw) vs" using l(1) by (simp add: ledger_def)
  obtain gt where r: "gate_release (gw_gate gw) = (gt, g)" "gw' = gw\<lparr>gw_gate := gt\<rparr>"
    using assms(3) True by (auto simp: drop_ticket_def split: prod.splits)
  show ?thesis
  proof (cases g)
    case None
    then have "tickets.consistent gt (vs[i := View None NoShare True])"
      using tickets.consistent_release_free [OF c l(2)] l(3) r(1) by simp
    with l have "ledger gw' (vs[i := View None NoShare True])"
      unfolding r(2)
      by (intro ledger_gate [OF l(1)])
         (simp_all add: map_update update_same gate_ceiling_frame(1) [OF r(1)])
    with None l r(2) assms(1) show ?thesis by (simp add: at_view_def)
  next
    case (Some w)
    then have w: "w < length vs" "v_gate (vs ! w) = Queued"
      using tickets.consistent_granted_is_queued [OF c l(2)] l(3) r(1) by auto
    then have "w \<noteq> i" using l(3) by auto
    obtain k lv where v: "vs ! w = View k Queued lv" using w(2) by (cases "vs ! w") simp
    have "tickets.consistent gt (vs[i := View None NoShare True, w := View k Holds lv])"
      using tickets.consistent_release_grant [OF c l(2)] l(3) r(1) Some by simp
    with l w v have "ledger gw' (vs[i := View None NoShare True, w := View k Holds lv])"
      unfolding r(2)
      by (intro ledger_gate [OF l(1)])
         (simp_all add: map_update update_same gate_ceiling_frame(1) [OF r(1)])
    with Some l r(2) assms(1) v \<open>w \<noteq> i\<close> show ?thesis by (simp add: at_view_def)
  qed
qed

lemma finish_ok:
  assumes "at_view n gw vs i (ctx_view ctx)" "ctx_ok n ctx"
  shows "seg_ok n vs i (finish now ctx res gw)"
proof -
  let ?ctx = "ctx\<lparr>cx_slot := None\<rparr>"
  obtain gw1 g where d: "drop_ticket ?ctx (drop_slot ctx gw) = (gw1, g)" by fastforce
  have e: "drop_ticket ctx (drop_slot ctx gw) = (gw1, g)" using d by (simp add: drop_ticket_def)
  from drop_ticket_ledger [OF drop_slot_view [OF assms] _ d]
  have v: "at_view n gw1 (grant_views g (vs[i := View None NoShare True])) i (View None NoShare True)"
    and w: "\<forall>w. g = Some w \<longrightarrow> w \<noteq> i" by auto
  let ?gw2 = "update_registry (record_terminal now ctx) gw1"
  from v have "ledger ?gw2 (grant_views g (vs[i := View None NoShare True]))"
    "i < length (grant_views g (vs[i := View None NoShare True]))"
    "grant_views g (vs[i := View None NoShare True]) ! i = View None NoShare True"
    by (simp_all add: at_view_def)
  from ledger_end [OF this] w
  have "ledger (?gw2\<lparr>gw_in_flight := gw_in_flight ?gw2 - 1\<rparr>)
      (grant_views g (vs[i := View None NoShare False]))"
    by (cases g) (auto simp: list_update_swap)
  with e v show ?thesis by (simp add: finish_def seg_ok_def at_view_def)
qed

section \<open>The other segments\<close>

lemma reply_ok:
  assumes "at_view n gw vs i (ctx_view ctx)" "ctx_ok n ctx"
  shows "seg_ok n vs i (reply now ctx code body gw)"
proof -
  have "ctx_view (ctx\<lparr>cx_code := code\<rparr>) = ctx_view ctx" "ctx_ok n (ctx\<lparr>cx_code := code\<rparr>)"
    using assms(2) by (simp_all add: ctx_view_def ctx_ok_def)
  with assms show ?thesis
    by (auto simp: reply_def Let_def intro!: finish_ok seg_stay split: option.split)
qed

lemma record_spills_view:
  assumes "record_spills k ctx gw = (ctx', gw')"
  shows "ctx_view ctx' = ctx_view ctx" "ctx_ok n ctx' = ctx_ok n ctx"
    "at_view n gw' vs i v = at_view n gw vs i v" "gw_backends gw' = gw_backends gw"
    "cx_slot ctx' = cx_slot ctx" "cx_ticket ctx' = cx_ticket ctx"
    "cx_attempts ctx' = cx_attempts ctx" "cx_req ctx' = cx_req ctx"
  using assms by (auto simp: record_spills_def ctx_view_def ctx_ok_def split: if_splits)

lemma breaker_nth_update:
  "k < length (gw_backends gw) \<Longrightarrow>
   be_limiter (gw_backends (update_breaker k f gw) ! j) = be_limiter (gw_backends gw ! j)"
  by (simp add: update_breaker_def update_backend_def nth_list_update)

text \<open>One turn of the loop: the candidate is skipped by its breaker, skipped at capacity, or taken.\<close>

lemma walk_turn:
  assumes "cx_attempts ctx < max_attempts" "record_spills k ctx gw = (ctx1, gw1)"
    and "allow_request now (be_breaker (gw_backends gw1 ! k)) = (cb, dec)"
    and "gw2 = update_breaker k (\<lambda>_. cb) gw1"
    and "try_acquire (be_limiter (gw_backends gw2 ! k)) = (l, got)"
  shows "\<not> allowed dec \<Longrightarrow> walk lib now (k # rest) ctx gw = walk lib now rest ctx1 gw2"
    and "allowed dec \<Longrightarrow> \<not> got \<Longrightarrow> walk lib now (k # rest) ctx gw =
      walk lib now rest ctx1 (update_breaker k (abort_probe now (is_probe dec)) gw2)"
    and "allowed dec \<Longrightarrow> got \<Longrightarrow>
      ctx2 = ctx1\<lparr>cx_slot := Some k, cx_attempts := cx_attempts ctx1 + 1,
        cx_labels := backend_labels k ctx1 gw2, cx_probe := is_probe dec, cx_rest := rest\<rparr> \<Longrightarrow>
      walk lib now (k # rest) ctx gw = (update_limiter k (\<lambda>_. l) gw2, None,
        if cr_stream (cx_req ctx1) then ChatStream ctx2 (new_frame_state (cx_keep ctx1))
        else ChatUnary ctx2)"
  using assms by (simp_all add: Let_def)

lemma walk_ok:
  assumes "at_view n gw vs i (ctx_view ctx)" "ctx_ok n ctx" "cx_slot ctx = None" "cx_ticket ctx"
    and "set order \<subseteq> {..<n}"
  shows "seg_ok n vs i (walk lib now order ctx gw)"
  using assms
proof (induction order arbitrary: ctx gw)
  case Nil
  then show ?case by (simp add: exhausted_def reply_ok)
next
  case (Cons k rest)
  obtain ctx1 gw1 where sp: "record_spills k ctx gw = (ctx1, gw1)" by fastforce
  obtain cb dec where al: "allow_request now (be_breaker (gw_backends gw1 ! k)) = (cb, dec)" by fastforce
  define gw2 where "gw2 = update_breaker k (\<lambda>_. cb) gw1"
  obtain l got where ac: "try_acquire (be_limiter (gw_backends gw2 ! k)) = (l, got)" by fastforce
  note view = record_spills_view [OF sp] and turn = walk_turn [OF _ sp al gw2_def ac]
  have v2: "at_view n gw2 vs i (ctx_view ctx1)" unfolding gw2_def
    using Cons.prems(1) view breaker_wf_allow [of "be_breaker (gw_backends gw1 ! k)" now] al
    by (intro at_view_breaker) simp_all
  have k: "k < length (gw_backends gw1)" using Cons.prems(1,5) view(4) by (auto simp: at_view_def)
  have again: "at_view n gw' vs i (ctx_view ctx1) \<Longrightarrow> seg_ok n vs i (walk lib now rest ctx1 gw')" for gw'
    using Cons.IH [of gw' ctx1] Cons.prems view by simp
  show ?case
  proof (cases "cx_attempts ctx \<ge> max_attempts")
    case True
    with Cons.prems show ?thesis by (simp add: exhausted_def reply_ok)
  next
    case att: False
    show ?thesis
    proof (cases "allowed dec \<and> got")
      case False
      have "at_view n (update_breaker k (abort_probe now (is_probe dec)) gw2) vs i (ctx_view ctx1)"
        by (rule at_view_breaker [OF v2 breaker_wf_abort])
      with False att again v2 turn(1,2) show ?thesis by (cases "allowed dec") (simp_all del: walk.simps)
    next
      case True
      define ctx2 where "ctx2 = ctx1\<lparr>cx_slot := Some k, cx_attempts := cx_attempts ctx1 + 1,
        cx_labels := backend_labels k ctx1 gw2, cx_probe := is_probe dec, cx_rest := rest\<rparr>"
      have "ledger (update_limiter k (\<lambda>_. l) gw2) (vs[i := ctx_view ctx2])"
        using ledger_acquire [of gw2 vs i "v_gate (ctx_view ctx)" True k l] v2 k ac True
          Cons.prems(3,4) view(5,6)
        by (simp add: at_view_def ctx_view_def limiter_of_def gw2_def ctx2_def)
      moreover have "ctx_ok n ctx1" "k < n" "set rest \<subseteq> {..<n}" "cx_attempts ctx1 < max_attempts"
        using Cons.prems(2,5) att view(2,7) by simp_all
      then have "ctx_ok n ctx2" by (simp add: ctx_ok_def ctx2_def)
      ultimately show ?thesis
        using turn(3) [OF _ _ _ ctx2_def] True att Cons.prems(4) view(6) v2
        by (simp add: seg_ok_def at_view_def ctx2_def del: walk.simps)
    qed
  qed
qed

lemma next_backend_ok:
  assumes "at_view n gw vs i (ctx_view ctx)" "ctx_ok n ctx" "cx_ticket ctx"
  shows "seg_ok n vs i (next_backend lib now ctx gw)"
proof -
  have "ctx_ok n (ctx\<lparr>cx_slot := None\<rparr>)" using assms(2) by (simp add: ctx_ok_def)
  with assms walk_ok [OF drop_slot_view [OF assms(1,2)]] show ?thesis
    by (simp add: next_backend_def ctx_ok_def)
qed

lemma note_views:
  "at_view n gw vs i v \<Longrightarrow> at_view n (note_failure now ctx gw) vs i v"
  "at_view n gw vs i v \<Longrightarrow> at_view n (note_success ctx gw) vs i v"
  by (auto simp: note_failure_def note_success_def intro!: at_view_breaker breaker_wf_ops
      split: option.split)

lemma seg_if:
  "(c \<Longrightarrow> seg_ok n vs i a) \<Longrightarrow> (\<not> c \<Longrightarrow> seg_ok n vs i b) \<Longrightarrow> seg_ok n vs i (if c then a else b)"
  by simp

lemma seg_option:
  "(x = None \<Longrightarrow> seg_ok n vs i a) \<Longrightarrow> (\<And>y. x = Some y \<Longrightarrow> seg_ok n vs i (f y)) \<Longrightarrow>
   seg_ok n vs i (case x of None \<Rightarrow> a | Some y \<Rightarrow> f y)"
  by (simp split: option.split)

lemmas seg_intros = seg_if seg_option next_backend_ok reply_ok note_views finish_ok seg_stay

lemma after_unary_ok:
  assumes "at_view n gw vs i (ctx_view ctx)" "ctx_ok n ctx" "cx_ticket ctx"
  shows "seg_ok n vs i (after_unary lib now ur ctx gw)"
  unfolding after_unary_def using assms by (intro seg_intros)

lemma after_stream_ok:
  assumes "at_view n gw vs i (ctx_view ctx)" "ctx_ok n ctx" "cx_ticket ctx"
  shows "seg_ok n vs i (after_stream lib now sr ctx fs gw)"
proof -
  have "ctx_view (ctx\<lparr>cx_code := c\<rparr>) = ctx_view ctx" "ctx_ok n (ctx\<lparr>cx_code := c\<rparr>)" for c
    using assms(2) by (simp_all add: ctx_view_def ctx_ok_def)
  with assms show ?thesis
    unfolding after_stream_def Let_def by (intro seg_intros) (simp_all add: note_views)
qed

lemma sink_frame_view:
  assumes "sink_frame now ok1 ok2 ev ctx fs gw = ((gw', ctx', fs'), keep)"
  shows "at_view n gw' vs i v = at_view n gw vs i v" "ctx_view ctx' = ctx_view ctx"
    "ctx_ok n ctx' = ctx_ok n ctx" "cx_ticket ctx' = cx_ticket ctx" "cx_slot ctx' = cx_slot ctx"
  using assms
  by (auto simp: sink_frame_def Let_def ctx_view_def ctx_ok_def split: if_splits sum.splits prod.splits)

lemma end_stream_view:
  assumes "end_stream ok1 ok2 ok3 plan ctx fs = (ctx', res)"
  shows "ctx_view ctx' = ctx_view ctx" "ctx_ok n ctx' = ctx_ok n ctx"
  using assms
  by (auto simp: end_stream_def close_stream_def Let_def ctx_view_def ctx_ok_def
      split: end_plan.splits sum.splits prod.splits option.splits)

section \<open>Admission and arrival\<close>

lemma order_candidates_members:
  assumes "order_candidates lib creq cs gw = Some (gw', order, spills)" "length cs < 2 ^ 64"
  shows "set order \<subseteq> backend_index ` set cs" "gw' = gw\<lparr>gw_cursor := gw_cursor gw'\<rparr>"
proof -
  have "set (ro_order (affinity_order xxh thr key cs)) \<subseteq> backend_index ` set cs" for xxh thr key
    using affinity.route_members [OF assms(2)] by blast
  with assms round_robin.route_members [OF assms(2)] show "set order \<subseteq> backend_index ` set cs"
    by (fastforce simp: order_candidates_def Let_def split: if_splits option.splits prod.splits)
  show "gw' = gw\<lparr>gw_cursor := gw_cursor gw'\<rparr>"
    using assms(1)
    by (auto simp: order_candidates_def Let_def split: if_splits option.splits prod.splits)
qed

lemma at_view_cursor [simp]: "at_view n (gw\<lparr>gw_cursor := c\<rparr>) vs i v = at_view n gw vs i v"
  by (simp add: at_view_def)

lemma eligible_members:
  "backend_index ` set (eligible_candidates serving gw) \<subseteq> set serving"
  by (auto simp: eligible_candidates_def)

lemma eligible_length: "length (eligible_candidates serving gw) \<le> length serving"
  by (simp add: eligible_candidates_def)

lemma route_and_walk_ok:
  assumes v: "at_view n gw vs i (ctx_view ctx)" "ctx_ok n ctx" "cx_slot ctx = None" "cx_ticket ctx"
    and len: "length (cx_serving ctx) < 2 ^ 64"
  shows "seg_ok n vs i (route_and_walk lib now ctx gw)"
proof -
  let ?cs = "eligible_candidates (cx_serving ctx) gw"
  have serv: "set (cx_serving ctx) \<subseteq> {..<n}" using v(2) by (simp add: ctx_ok_def)
  have "seg_ok n vs i (walk lib now order (ctx\<lparr>cx_text := body, cx_spills := spills\<rparr>) gw1)"
    and "seg_ok n vs i (finish now ctx (Inl ()) gw1)"
    if o: "order_candidates lib (cx_req ctx) ?cs gw = Some (gw1, order, spills)" for gw1 order spills body
  proof -
    have l: "length ?cs < 2 ^ 64" using eligible_length [of "cx_serving ctx" gw] len by linarith
    note m = order_candidates_members [OF o l]
    have g: "at_view n gw1 vs i (ctx_view ctx)" using m(2) v(1) by (metis at_view_cursor)
    have "set order \<subseteq> {..<n}" using m(1) eligible_members serv by blast
    then show "seg_ok n vs i (walk lib now order (ctx\<lparr>cx_text := body, cx_spills := spills\<rparr>) gw1)"
      using g v by (intro walk_ok) (simp_all add: ctx_view_def ctx_ok_def)
    show "seg_ok n vs i (finish now ctx (Inl ()) gw1)" by (rule finish_ok [OF g v(2)])
  qed
  with v show ?thesis
    by (auto simp: route_and_walk_def Let_def intro!: reply_ok finish_ok split: option.split)
qed

lemma ledger_admit:
  assumes "at_view n gw vs i (View None NoShare True)"
    and "gate_enter w t (gw_gate gw) = (g, Ready r)" "is_admitted r"
  shows "at_view n (gw\<lparr>gw_gate := g\<rparr>) (vs[i := View None Holds True]) i (View None Holds True)"
proof -
  have l: "ledger gw vs" "i < length vs" "vs ! i = View None NoShare True"
    using assms(1) by (auto simp: at_view_def)
  have "tickets.consistent g (vs[i := View None Holds True])"
    using l tickets.consistent_admit [OF _ l(2) _ _ assms(2,3), of "View None Holds True"]
    by (simp add: ledger_def)
  then have "ledger (gw\<lparr>gw_gate := g\<rparr>) (vs[i := View None Holds True])"
    using l gate_ceiling_frame(2) [OF assms(2)]
    by (intro ledger_gate [OF l(1)]) (simp_all add: map_update update_same)
  with assms(1) show ?thesis by (simp add: at_view_def)
qed

lemma ledger_suspend:
  assumes "at_view n gw vs i (View None NoShare True)"
    and "gate_enter i t (gw_gate gw) = (g, Suspended a b)"
  shows "ledger (gw\<lparr>gw_gate := g\<rparr>) (vs[i := View None Queued True])"
proof -
  have l: "ledger gw vs" "i < length vs" "vs ! i = View None NoShare True"
    using assms(1) by (auto simp: at_view_def)
  have "tickets.consistent g (vs[i := View None Queued True])"
    using l tickets.consistent_suspend [OF _ l(2) _ _ assms(2), of "View None Queued True"]
    by (simp add: ledger_def)
  then show ?thesis
    using l gate_ceiling_frame(2) [OF assms(2)]
    by (intro ledger_gate [OF l(1)]) (simp_all add: map_update update_same)
qed

lemma ledger_forget:
  assumes "at_view n gw vs i (View None Queued True)"
  shows "at_view n (gw\<lparr>gw_gate := gate_forget i (gw_gate gw)\<rparr>) (vs[i := View None NoShare True]) i
    (View None NoShare True)"
proof -
  have l: "ledger gw vs" "i < length vs" "vs ! i = View None Queued True"
    using assms(1) by (auto simp: at_view_def)
  have "tickets.consistent (gate_forget i (gw_gate gw)) (vs[i := View None NoShare True])"
    using l tickets.consistent_forget [OF _ l(2)] by (simp add: ledger_def)
  then have "ledger (gw\<lparr>gw_gate := gate_forget i (gw_gate gw)\<rparr>) (vs[i := View None NoShare True])"
    using l gate_ceiling_frame(3)
    by (intro ledger_gate [OF l(1)]) (simp_all add: map_update update_same)
  with assms(1) show ?thesis by (simp add: at_view_def)
qed

text \<open>After the gate: the request holds a slot when it was admitted and nothing when it was refused.\<close>

lemma after_admit_ok:
  assumes "at_view n gw vs i (View None (if is_admitted adm then Holds else NoShare) True)"
    and "ctx_ok n ctx" "cx_slot ctx = None" "\<not> cx_ticket ctx" "length (cx_serving ctx) < 2 ^ 64"
  shows "seg_ok n vs i (after_admit lib now adm ctx gw)"
proof (cases "is_admitted adm")
  case True
  with assms have "at_view n gw vs i (ctx_view (ctx\<lparr>cx_ticket := True, cx_admitted := now\<rparr>))"
    "ctx_ok n (ctx\<lparr>cx_ticket := True, cx_admitted := now\<rparr>)"
    by (simp_all add: ctx_view_def ctx_ok_def)
  with True assms show ?thesis
    by (auto simp: after_admit_def Let_def publish_admission_gauges_def intro!: route_and_walk_ok)
next
  case False
  with assms have "at_view n gw vs i (ctx_view ctx)" by (simp add: ctx_view_def)
  with False assms(2) show ?thesis
    by (auto simp: after_admit_def Let_def intro!: reply_ok)
qed

lemma acquire_and_go_ok:
  assumes "at_view n gw vs i (View None NoShare True)"
    and "ctx_ok n ctx" "cx_slot ctx = None" "\<not> cx_ticket ctx" "length (cx_serving ctx) < 2 ^ 64"
    and "cx_attempts ctx = 0"
  shows "seg_ok n vs i (acquire_and_go lib i now ctx gw)"
proof (cases "gate_enter i now (gw_gate gw)")
  case (Pair g r)
  show ?thesis
  proof (cases r)
    case (Ready adm)
    show ?thesis
    proof (cases "is_admitted adm")
      case True
      then show ?thesis
        using after_admit_ok [of n "gw\<lparr>gw_gate := g\<rparr>" "vs[i := View None Holds True]" i adm]
          ledger_admit [OF assms(1)] assms(2-5) Pair Ready
        by (simp add: acquire_and_go_def)
    next
      case False
      then have "g = gw_gate gw" using gate.enter_refused Pair Ready by blast
      with False assms Pair Ready after_admit_ok [of n gw vs i adm] show ?thesis
        by (simp add: acquire_and_go_def)
    qed
  next
    case (Suspended a b)
    with ledger_suspend [OF assms(1)] Pair assms show ?thesis
      by (simp add: acquire_and_go_def seg_ok_def at_view_def)
  qed
qed

lemma backends_for_model_bound:
  "set (backends_for_model m gw) \<subseteq> {..<length (gw_backends gw)}"
  "length (backends_for_model m gw) \<le> length (gw_backends gw)"
  by (auto simp: backends_for_model_def intro: order_trans [OF length_filter_le])

lemma handle_chat_ok:
  assumes "at_view n gw vs i (View None NoShare True)" "n < 2 ^ 64"
  shows "seg_ok n vs i (handle_chat lib i now body keep gw)"
proof -
  have new: "at_view n gw vs i (ctx_view (new_ctx now keep))" "ctx_ok n (new_ctx now keep)"
    using assms by (simp_all add: ctx_view_def ctx_ok_def new_ctx_def)
  have "seg_ok n vs i
      (let serving = backends_for_model (cr_model creq) gw;
           ctx1 = (new_ctx now keep)\<lparr>cx_labels := Labels ''chat_completions'' [] (cr_model creq),
                      cx_req := creq, cx_serving := serving\<rparr>
       in if serving = []
          then reply now ctx1 404
                 (error_json lib UnknownModel
                    (''no backend serves model '' @ quoted (cr_model creq)) ''model'') gw
          else acquire_and_go lib i now ctx1 gw)" for creq
  proof -
    define ctx1 where "ctx1 = (new_ctx now keep)\<lparr>cx_labels := Labels ''chat_completions'' [] (cr_model creq),
                      cx_req := creq, cx_serving := backends_for_model (cr_model creq) gw\<rparr>"
    have len: "length (gw_backends gw) = n" using assms(1) by (simp add: at_view_def)
    have c: "ctx_ok n ctx1" "cx_slot ctx1 = None" "\<not> cx_ticket ctx1" "cx_attempts ctx1 = 0"
      using backends_for_model_bound [of "cr_model creq" gw] len
      by (simp_all add: ctx1_def ctx_ok_def new_ctx_def)
    then have "ctx_view ctx1 = View None NoShare True" by (simp add: ctx_view_def)
    moreover have "length (cx_serving ctx1) < 2 ^ 64"
      using c(1) assms(2) unfolding ctx_ok_def by linarith
    ultimately show ?thesis
      using assms(1) c unfolding Let_def ctx1_def [symmetric]
      by (intro seg_if reply_ok acquire_and_go_ok) simp_all
  qed
  with new show ?thesis
    by (auto simp: handle_chat_def Let_def intro!: reply_ok finish_ok split: option.split sum.split)
qed

section \<open>The invariant of the system\<close>

definition sys_inv :: "gw_sys \<Rightarrow> bool" where
  "sys_inv s \<longleftrightarrow>
     ledger (sys_gw s) (map session_view (sessions s))
     \<and> (\<forall>p \<in> set (sessions s). session_ok (length (gw_backends (sys_gw s))) p)
     \<and> length (gw_backends (sys_gw s)) < 2 ^ 64"

lemma session_view_grant [simp]: "session_view (grant_session p) = grant_view (session_view p)"
  by (cases p) (auto simp: ctx_view_def)

lemma session_ok_grant [simp]: "session_ok n (grant_session p) = session_ok n p"
  by (cases p) auto

lemma length_grant [simp]: "length (apply_grant g ss) = length ss"
  by (cases g) simp_all

lemma views_grant: "map session_view (apply_grant g ss) = grant_views g (map session_view ss)"
proof (cases g)
  case (Some w)
  then show ?thesis
    by (cases "w < length ss") (simp_all add: map_update list_update_beyond not_less)
qed simp

lemma sessions_grant_ok:
  "\<forall>p \<in> set ss. session_ok n p \<Longrightarrow> \<forall>p \<in> set (apply_grant g ss). session_ok n p"
proof (cases g)
  case (Some w)
  assume "\<forall>p \<in> set ss. session_ok n p"
  with Some show ?thesis
    by (cases "w < length ss")
       (auto simp: list_update_beyond not_less dest!: set_mp [OF set_update_subset_insert])
qed simp

lemma sys_inv_segment:
  assumes "seg_ok (length (gw_backends (sys_gw s))) (map session_view ss) i (gw, g, pc)"
    and "length (gw_backends (sys_gw s)) < 2 ^ 64"
    and "\<forall>p \<in> set ss. session_ok (length (gw_backends (sys_gw s))) p"
  shows "sys_inv \<lparr>sys_gw = gw, sessions = apply_grant g (ss[i := pc]), sys_now = t\<rparr>"
proof -
  let ?n = "length (gw_backends (sys_gw s))"
  have "\<forall>p \<in> set (ss[i := pc]). session_ok ?n p"
    using assms(1,3) by (auto simp: seg_ok_def dest!: set_mp [OF set_update_subset_insert])
  with assms show ?thesis
    using sessions_grant_ok [of "ss[i := pc]" ?n g]
    by (simp add: sys_inv_def seg_ok_def views_grant map_update)
qed

lemma ledger_new:
  assumes "ledger gw vs"
  shows "ledger gw (vs @ [View None NoShare False])"
    "ledger (gw\<lparr>gw_in_flight := gw_in_flight gw + 1\<rparr>) (vs @ [View None NoShare True])"
  using assms by (auto simp: ledger_def intro!: slots.balanced_new tickets.consistent_new)

lemma plain_reply_ok:
  "at_view n gw vs i (View None NoShare False) \<Longrightarrow> seg_ok n vs i (plain_reply keep code body gw)"
  by (auto simp: plain_reply_def intro!: seg_stay split: option.split)

lemma handle_ok:
  assumes "ledger gw vs" "length (gw_backends gw) = n" "n < 2 ^ 64"
  shows "\<exists>l. seg_ok n (vs @ [View None NoShare l]) (length vs) (handle lib (length vs) now req keep gw)"
proof (cases "\<not> gw_draining gw \<and> rq_method req = ''POST'' \<and> rq_target req = ''/v1/chat/completions''")
  case True
  then have "handle lib (length vs) now req keep gw =
      handle_chat lib (length vs) now (rq_body req) keep (gw\<lparr>gw_in_flight := gw_in_flight gw + 1\<rparr>)"
    by (simp add: handle_def)
  moreover have "at_view n (gw\<lparr>gw_in_flight := gw_in_flight gw + 1\<rparr>) (vs @ [View None NoShare True])
      (length vs) (View None NoShare True)"
    using ledger_new(2) [OF assms(1)] assms(2) by (simp add: at_view_def)
  ultimately show ?thesis using handle_chat_ok assms(3) by metis
next
  case False
  have "at_view n gw (vs @ [View None NoShare False]) (length vs) (View None NoShare False)"
    using ledger_new(1) [OF assms(1)] assms(2) by (simp add: at_view_def)
  with False have "seg_ok n (vs @ [View None NoShare False]) (length vs)
      (handle lib (length vs) now req keep gw)"
    unfolding handle_def by (auto intro!: seg_if plain_reply_ok)
  then show ?thesis ..
qed

lemma resume_ok:
  assumes "resume lib i now wk p gw = Some seg" "at_view n gw vs i (session_view p)"
    and "session_ok n p" "n < 2 ^ 64"
  shows "seg_ok n vs i seg"
  using assms
proof (induction lib i now wk p gw rule: resume.induct)
  case (1 lib w now ctx granted start deadline gw)
  obtain g adm where r: "gate_resume w granted start now (gw_gate gw) = (g, adm)" by fastforce
  with 1 have seg: "seg = after_admit lib now adm ctx (gw\<lparr>gw_gate := g\<rparr>)" by (auto split: if_splits)
  have len: "length (cx_serving ctx) < 2 ^ 64" using "1.prems"(3,4) by (simp add: ctx_ok_def)
  show ?case
  proof (cases granted)
    case True
    then have "g = gw_gate gw" "is_admitted adm"
      using r by (auto simp: gate_resume_def is_admitted_def)
    with seg "1.prems" True len show ?thesis by (auto intro!: after_admit_ok)
  next
    case False
    then have "g = gate_forget w (gw_gate gw)" "\<not> is_admitted adm"
      using r by (auto simp: gate_resume_def is_admitted_def)
    with seg "1.prems" False len ledger_forget [of n gw vs w]
      after_admit_ok [of n "gw\<lparr>gw_gate := g\<rparr>" "vs[w := View None NoShare True]" w adm ctx]
    show ?thesis by simp
  qed
next
  case (3 lib w now ev ok1 ok2 ctx fs gw)
  obtain gw1 ctx1 fs1 keep where
    f: "sink_frame now ok1 ok2 ev ctx fs gw = ((gw1, ctx1, fs1), keep)" by (metis surj_pair)
  with 3 have "seg = (gw1, None, ChatStream ctx1 fs1)" by simp
  with 3 show ?case by (auto intro!: seg_stay simp: sink_frame_view [OF f])
next
  case (5 lib w now ok ctx out gw)
  then have "ctx_view (ctx\<lparr>cx_sent := x\<rparr>) = ctx_view ctx" "ctx_ok n (ctx\<lparr>cx_sent := x\<rparr>)" for x
    by (simp_all add: ctx_view_def ctx_ok_def)
  with 5 show ?case by (auto intro!: finish_ok split: if_splits)
next
  case (7 lib w now ok1 ok2 ok3 ctx fs plan gw)
  obtain ctx1 res where e: "end_stream ok1 ok2 ok3 plan ctx fs = (ctx1, res)" by fastforce
  with 7 have "seg = finish now ctx1 res gw" by simp
  with 7 show ?case by (auto intro!: finish_ok simp: end_stream_view [OF e])
qed (auto intro!: after_unary_ok after_stream_ok seg_stay split: if_splits)

lemma new_backends_all:
  "new_backends bcs = Inr bs \<Longrightarrow> list_all2 (\<lambda>bc b. new_backend bc = Inr b) bcs bs"
  by (induction bcs arbitrary: bs) (auto simp: result_bind_Inr)

lemma new_backend_fields:
  "new_backend bc = Inr b \<Longrightarrow> be_limiter b = new_limiter (bc_max_in_flight bc) \<and> be_conf b = bc \<and>
     be_breaker b = new_breaker (bc_failure_threshold bc) (of_ms (bc_open_ms bc))"
  by (auto simp: new_backend_def result_bind_Inr)

lemma new_gateway_backend:
  assumes "new_gateway cfg = Inr gw" "config_ok cfg" "b \<in> set (gw_backends gw)"
  shows "lim_active (be_limiter b) = 0 \<and> 0 \<le> lim_max (be_limiter b) \<and> breaker_wf (be_breaker b) \<and>
    lim_max (be_limiter b) = bc_max_in_flight (be_conf b)"
proof -
  have "list_all2 (\<lambda>bc b. new_backend bc = Inr b) (cfg_backends cfg) (gw_backends gw)"
    using assms(1) by (auto simp: new_gateway_def result_bind_Inr new_backends_all)
  moreover obtain j where "j < length (gw_backends gw)" "b = gw_backends gw ! j"
    using assms(3) by (auto simp: in_set_conv_nth)
  ultimately obtain bc where bc: "bc \<in> set (cfg_backends cfg)" "new_backend bc = Inr b"
    by (auto simp: list_all2_conv_all_nth intro!: that [of "cfg_backends cfg ! j"])
  with assms(2) have "backend_ok bc" by (auto simp: config_ok_def list_all_iff)
  with new_backend_fields [OF bc(2)] show ?thesis
    by (simp add: new_limiter_def backend_ok_def breaker_wf_new)
qed

lemma new_gateway_fields:
  "new_gateway cfg = Inr gw \<Longrightarrow>
     gw_gate gw = new_gate (sc_max_concurrent_streams (cfg_server cfg))
       (sc_queue_depth (cfg_server cfg)) (of_ms (sc_queue_timeout_ms (cfg_server cfg))) \<and>
     gw_in_flight gw = 0 \<and> gw_cfg gw = cfg \<and> \<not> gw_draining gw \<and> length (gw_backends gw) = length (cfg_backends cfg)"
  by (auto simp: new_gateway_def result_bind_Inr dest!: new_backends_all list_all2_lengthD)

lemma gw_start_inv: "gw_start s \<Longrightarrow> sys_inv s"
proof -
  assume "gw_start s"
  then obtain cfg where c: "config_ok cfg" "length (cfg_backends cfg) < 2 ^ 64"
    "new_gateway cfg = Inr (sys_gw s)" "sessions s = []" by (auto simp: gw_start_def)
  note g = new_gateway_fields [OF c(3)]
  have "1 \<le> sc_max_concurrent_streams (cfg_server cfg)"
    using c(1) by (simp add: config_ok_def server_ok_def)
  moreover have "lim_active (limiter_of (sys_gw s) k) = 0" "0 \<le> lim_max (limiter_of (sys_gw s) k)"
    if "k < length (gw_backends (sys_gw s))" for k
    using new_gateway_backend [OF c(3,1), of "gw_backends (sys_gw s) ! k"] that
    by (simp_all add: limiter_of_def)
  ultimately show ?thesis using g c new_gateway_backend [OF c(3,1)]
    by (auto simp: sys_inv_def ledger_def slots.balanced_def tickets.consistent_def gate_inv_def
        new_gate_def)
qed

lemma arrive_inv:
  assumes "sys_inv s" "handle lib (length (sessions s)) t req keep (sys_gw s) = (gw, g, pc)"
  shows "sys_inv \<lparr>sys_gw = gw, sessions = apply_grant g (sessions s @ [pc]), sys_now = t\<rparr>"
proof -
  let ?vs = "map session_view (sessions s)" and ?n = "length (gw_backends (sys_gw s))"
  obtain l where h: "seg_ok ?n (?vs @ [View None NoShare l]) (length (sessions s)) (gw, g, pc)"
    using handle_ok [of "sys_gw s" ?vs ?n lib t req keep] assms by (auto simp: sys_inv_def)
  define p0 where "p0 = (if l then ChatReply (new_ctx 0 False) LastChunk else Done (Inl ()) [])"
  have p0: "session_view p0 = View None NoShare l" "session_ok ?n p0"
    by (simp_all add: p0_def ctx_view_def ctx_ok_def new_ctx_def)
  have "seg_ok ?n (map session_view (sessions s @ [p0])) (length (sessions s)) (gw, g, pc)"
    using h p0(1) by simp
  from sys_inv_segment [OF this, of t] assms(1) p0(2) show ?thesis by (simp add: sys_inv_def)
qed

lemma wake_inv:
  assumes "sys_inv s" "i < length (sessions s)"
    and "resume lib i t wk (sessions s ! i) (sys_gw s) = Some (gw, g, pc)"
  shows "sys_inv \<lparr>sys_gw = gw, sessions = apply_grant g ((sessions s)[i := pc]), sys_now = t\<rparr>"
proof -
  let ?vs = "map session_view (sessions s)" and ?n = "length (gw_backends (sys_gw s))"
  have "at_view ?n (sys_gw s) ?vs i (session_view (sessions s ! i))" "session_ok ?n (sessions s ! i)"
    using assms by (auto simp: sys_inv_def at_view_def)
  then have "seg_ok ?n ?vs i (gw, g, pc)"
    using resume_ok [OF assms(3)] assms(1) by (auto simp: sys_inv_def)
  from sys_inv_segment [OF this, of t] assms(1) show ?thesis by (simp add: sys_inv_def)
qed

lemma gw_step_inv:
  assumes "sys_inv s" "gw_step lib s t"
  shows "sys_inv t"
  using assms(2)
proof cases
  case (forced k st gw)
  with assms(1) show ?thesis
    by (auto simp: sys_inv_def set_health_for_test_def ledger_backend split: if_splits)
next
  case drain
  have "ledger (stop_health_monitors (begin_drain (sys_gw s))) vs = ledger (sys_gw s) vs" for vs
    by (rule ledger_cong) (simp_all add: stop_health_monitors_def begin_drain_def comp_def)
  with drain assms(1) show ?thesis
    by (simp add: sys_inv_def stop_health_monitors_def begin_drain_def)
next
  case (probed k net)
  with assms(1) show ?thesis by (simp add: sys_inv_def ledger_backend)
qed (simp_all add: arrive_inv [OF assms(1)] wake_inv [OF assms(1)])

interpretation gateway_sys: step_invariant gw_start "gw_step lib" sys_inv for lib
  by unfold_locales (rule gw_start_inv, assumption, rule gw_step_inv)

lemma sys_inv_settled: "sys_inv s \<Longrightarrow> settled (sys_gw s) (sessions s)"
proof -
  assume inv: "sys_inv s"
  let ?gw = "sys_gw s" and ?ss = "sessions s"
  have "length (filter (holds_slot k) ?ss) = count_if (\<lambda>v. v_slot v = Some k) (map session_view ?ss)"
    "length (filter holds_ticket ?ss) = count_if (\<lambda>v. v_gate v = Holds) (map session_view ?ss)"
    "length (filter in_chat ?ss) = count_if v_live (map session_view ?ss)" for k
    unfolding count_if_map
    by (simp_all add: count_if_def holds_slot_def [abs_def] holds_ticket_def [abs_def]
        in_chat_def [abs_def] comp_def)
  moreover have "lim_max (be_limiter (gw_backends ?gw ! k)) =
      bc_max_in_flight (be_conf (gw_backends ?gw ! k))" if "k < length (gw_backends ?gw)" for k
    using inv that by (auto simp: sys_inv_def ledger_def)
  ultimately show ?thesis
    using inv
    by (auto simp: settled_def sys_inv_def ledger_def slots.balanced_def limiter_of_def
        tickets.consistent_def gate_inv_def)
qed

lemma example_gateway:
  "new_gateway example_config = Inr (sys_gw example_sys)" "sessions example_sys = []"
  "sys_now example_sys = 0"
proof -
  have "\<exists>gw. new_gateway example_config = Inr gw"
    by (simp add: new_gateway_def example_config_def default_config_def new_backend_def
        parse_target_def strip_scheme_def starts_with_def strip_path_def split_port_def)
  then show "new_gateway example_config = Inr (sys_gw example_sys)" "sessions example_sys = []"
    "sys_now example_sys = 0"
    by (auto simp: example_sys_def)
qed

lemma example_start: "gw_start example_sys"
  using example_config_ok example_gateway
  by (auto simp: gw_start_def intro!: exI [of _ example_config]) (simp add: example_config_def)

lemma example_not_draining: "gw_draining (sys_gw example_sys) = False"
  using new_gateway_fields [OF example_gateway(1)] by simp

section \<open>Properties\<close>

text \<open>
  C2: No leak and no overcommitment under any interleaving.  In every state the gateway can reach
  from a valid configuration, with any number of requests suspended anywhere in the handler,
  whatever the upstreams, clients, probes and timers do, every resource is settled: limiter, gate and
  in-flight counters equal the number of requests that hold them and stay within the configured
  limits.
\<close>

theorem gateway_settled:
  assumes "gw_start s" "rtranclp (gw_step lib) s t"
  shows "settled (sys_gw t) (sessions t)"
  by (rule sys_inv_settled [OF gateway_sys.reachable_inv [OF assms]])

theorem gateway_settled_witness:
  "\<exists>t :: gw_sys. sessions t \<noteq> [] \<and> settled (sys_gw t) (sessions t) \<and> gw_in_flight (sys_gw t) = 1"
proof -
  obtain gw g pc where h: "handle example_lib 0 0 example_post True (sys_gw example_sys) = (gw, g, pc)"
    by (metis surj_pair)
  then have p: "g = None" "in_chat pc"
    by (auto simp: handle_def example_post_def example_not_draining handle_chat_def example_lib_def
        reply_def error_json_def in_chat_def ctx_view_def Let_def)
  let ?t = "\<lparr>sys_gw = gw, sessions = [pc], sys_now = 0\<rparr>"
  have "gw_step example_lib example_sys
      \<lparr>sys_gw = gw, sessions = apply_grant g (sessions example_sys @ [pc]), sys_now = 0\<rparr>"
    by (rule gw_step.arrive [where req = example_post and keep_alive = True])
       (simp_all add: h example_gateway(2,3))
  then have "gw_step example_lib example_sys ?t" using p(1) example_gateway(2) by simp
  then have "settled (sys_gw ?t) (sessions ?t)"
    by (intro gateway_settled [OF example_start r_into_rtranclp])
  moreover from this p(2) have "gw_in_flight gw = 1" by (simp add: settled_def)
  ultimately have "sessions ?t \<noteq> [] \<and> settled (sys_gw ?t) (sessions ?t) \<and> gw_in_flight (sys_gw ?t) = 1"
    by simp
  then show ?thesis by blast
qed

text \<open>
  The drain poller's test is exact.  In a reachable state the gateway's in-flight counter is zero
  exactly when no chat request is under way, and then nothing is held: every limiter and the gate
  are at zero and nobody waits in the queue.
\<close>

theorem drained_is_clean:
  assumes "gw_start s" "rtranclp (gw_step lib) s t"
  shows "(gw_in_flight (sys_gw t) = 0 \<longleftrightarrow> (\<forall>p \<in> set (sessions t). \<not> in_chat p)) \<and>
    (gw_in_flight (sys_gw t) = 0 \<longrightarrow>
       in_flight (gw_gate (sys_gw t)) = 0 \<and> waiters (gw_gate (sys_gw t)) = [] \<and>
       (\<forall>b \<in> set (gw_backends (sys_gw t)). lim_active (be_limiter b) = 0))"
proof -
  have inv: "sys_inv t" by (rule gateway_sys.reachable_inv [OF assms])
  have s: "settled (sys_gw t) (sessions t)" by (rule sys_inv_settled [OF inv])
  have c: "tickets.consistent (gw_gate (sys_gw t)) (map session_view (sessions t))"
    using inv by (simp add: sys_inv_def ledger_def)
  have idle: "\<not> holds_slot k p \<and> \<not> holds_ticket p \<and> v_gate (session_view p) \<noteq> Queued"
    if "\<not> in_chat p" for k p
    using that by (cases p) (auto simp: in_chat_def holds_slot_def holds_ticket_def ctx_view_def)
  have zero: "gw_in_flight (sys_gw t) = 0 \<longleftrightarrow> (\<forall>p \<in> set (sessions t). \<not> in_chat p)"
    using s by (auto simp: settled_def filter_empty_conv)
  moreover have "in_flight (gw_gate (sys_gw t)) = 0 \<and> waiters (gw_gate (sys_gw t)) = [] \<and>
       (\<forall>b \<in> set (gw_backends (sys_gw t)). lim_active (be_limiter b) = 0)"
    if "gw_in_flight (sys_gw t) = 0"
  proof -
    have all: "\<forall>p \<in> set (sessions t). \<not> in_chat p" using zero that by simp
    then have none: "filter (holds_slot k) (sessions t) = []" "filter holds_ticket (sessions t) = []" for k
      using idle by (simp_all add: filter_empty_conv)
    have "i \<notin> set (waiters (gw_gate (sys_gw t)))" for i
    proof
      assume "i \<in> set (waiters (gw_gate (sys_gw t)))"
      then have "i < length (sessions t)" "v_gate (session_view (sessions t ! i)) = Queued"
        using conjunct2 [OF c [unfolded tickets.consistent_def], THEN spec, of i]
        by (cases "i < length (sessions t)"; simp)+
      then show False using idle [OF bspec [OF all nth_mem]] by simp
    qed
    then have "waiters (gw_gate (sys_gw t)) = []" by (cases "waiters (gw_gate (sys_gw t))") auto
    moreover have "lim_active (be_limiter b) = 0" if "b \<in> set (gw_backends (sys_gw t))" for b
    proof -
      from that obtain k where "k < length (gw_backends (sys_gw t))" "b = gw_backends (sys_gw t) ! k"
        by (auto simp: in_set_conv_nth)
      with s none show ?thesis by (simp add: settled_def)
    qed
    ultimately show ?thesis using none s by (simp add: settled_def)
  qed
  ultimately show ?thesis by blast
qed

theorem drained_is_clean_witness:
  "in_flight (gw_gate (sys_gw example_sys)) = 0 \<and> waiters (gw_gate (sys_gw example_sys)) = []"
  using drained_is_clean [OF example_start rtranclp.rtrancl_refl]
    example_gateway(2) by simp

end
