(* ===== verification/Gateway_Frame.thy ===== *)
theory Gateway_Frame
  imports Gateway_Ledger
begin

text \<open>
  What the handler's segments leave alone.  Every segment changes the gateway only through its
  breakers, limiters, registry, gate, cursor and in-flight count; whatever does not depend on these
  (the configuration, the drain flag) is the same after a segment as before it.
\<close>

section \<open>The contract and what follows for the segments\<close>

locale gateway_frame =
  fixes obs :: "gateway \<Rightarrow> 'a"
  assumes obs_breaker: "obs (update_breaker k h gw) = obs gw"
    and obs_limiter: "obs (update_limiter k l gw) = obs gw"
    and obs_registry: "obs (update_registry r gw) = obs gw"
    and obs_gate: "obs (gw\<lparr>gw_gate := x\<rparr>) = obs gw"
    and obs_cursor: "obs (gw\<lparr>gw_cursor := c\<rparr>) = obs gw"
    and obs_in_flight: "obs (gw\<lparr>gw_in_flight := n\<rparr>) = obs gw"
begin

lemmas obs_updates = obs_breaker obs_limiter obs_registry obs_gate obs_cursor obs_in_flight

lemma obs_helpers:
  "obs (drop_slot ctx gw) = obs gw" "obs (fst (drop_ticket ctx gw)) = obs gw"
  "obs (note_failure now ctx gw) = obs gw" "obs (note_success ctx gw) = obs gw"
  "obs (snd (record_spills k ctx gw)) = obs gw" "obs (publish_admission_gauges gw) = obs gw"
  "obs (fst (fst (sink_frame now ok1 ok2 ev ctx fs gw))) = obs gw"
  by (auto simp: obs_updates drop_slot_def drop_ticket_def note_failure_def note_success_def
      record_spills_def publish_admission_gauges_def sink_frame_def Let_def
      split: option.split prod.split sum.split)

lemma obs_finish: "obs (fst (finish now ctx res gw)) = obs gw"
proof -
  obtain gw1 g where d: "drop_ticket ctx (drop_slot ctx gw) = (gw1, g)" by fastforce
  have "obs gw1 = obs gw" using obs_helpers(2) [of ctx "drop_slot ctx gw"] d obs_helpers(1) by simp
  with d show ?thesis by (simp add: finish_def obs_updates)
qed

lemma obs_reply: "obs (fst (reply now ctx code body gw)) = obs gw"
  by (simp add: reply_def Let_def obs_finish split: option.split)

lemma obs_walk: "obs (fst (walk lib now order ctx gw)) = obs gw"
proof (induction order arbitrary: ctx gw)
  case Nil
  then show ?case by (simp add: exhausted_def obs_reply)
next
  case (Cons k rest)
  obtain ctx1 gw1 where sp: "record_spills k ctx gw = (ctx1, gw1)" by fastforce
  have "obs gw1 = obs gw" using obs_helpers(5) [of k ctx gw] sp by simp
  with Cons.IH sp show ?case
    by (simp add: exhausted_def obs_reply obs_updates Let_def split: prod.split)
qed

lemma obs_order: "order_candidates lib creq cs gw = Some (gw', order, spills) \<Longrightarrow> obs gw' = obs gw"
  by (auto simp: order_candidates_def Let_def obs_updates split: if_splits option.splits prod.splits)

lemmas obs_parts = obs_updates obs_helpers obs_finish obs_reply obs_walk

lemma obs_segments:
  "obs (fst (after_unary lib now ur ctx gw)) = obs gw"
  "obs (fst (after_stream lib now sr ctx fs gw)) = obs gw"
  "obs (fst (after_admit lib now adm ctx gw)) = obs gw"
  by (auto simp: obs_parts after_unary_def after_stream_def next_backend_def after_admit_def
      route_and_walk_def Let_def dest: obs_order split: option.split)

lemma obs_handle: "obs (fst (handle lib w now req keep gw)) = obs gw"
  by (simp add: obs_parts obs_segments handle_def plain_reply_def handle_chat_def acquire_and_go_def
      Let_def split: option.split sum.split prod.split enter_result.split)

lemma obs_resume: "resume lib w now wk p gw = Some seg \<Longrightarrow> obs (fst seg) = obs gw"
proof (induction lib w now wk p gw rule: resume.induct)
  case (3 lib w now ev ok1 ok2 ctx fs gw)
  obtain gw1 ctx1 fs1 k where f: "sink_frame now ok1 ok2 ev ctx fs gw = ((gw1, ctx1, fs1), k)"
    by (metis surj_pair)
  then have "obs gw1 = obs gw" using obs_helpers(7) [of now ok1 ok2 ev ctx fs gw] by simp
  with f 3 show ?case by auto
qed (auto simp: obs_parts obs_segments split: prod.splits if_splits)

end

section \<open>The configuration and the drain flag\<close>

definition conf_of :: "gateway \<Rightarrow> config \<times> backend_config list" where
  "conf_of gw = (gw_cfg gw, map be_conf (gw_backends gw))"

lemma conf_of_backend: "(\<And>b. be_conf (f b) = be_conf b) \<Longrightarrow> conf_of (update_backend k f gw) = conf_of gw"
  by (simp add: conf_of_def update_backend_def map_nth_update [of be_conf f])

interpretation conf: gateway_frame conf_of
  by unfold_locales
     (simp_all add: update_breaker_def update_limiter_def conf_of_backend,
      simp_all add: conf_of_def update_registry_def)

interpretation drain: gateway_frame gw_draining
  by unfold_locales
     (simp_all add: update_breaker_def update_limiter_def update_backend_def update_registry_def)

end
