(* ===== verification/Gateway_Dispatch.thy ===== *)
theory Gateway_Dispatch
  imports Gateway_Ledger
begin

text \<open>
  Which backend a request goes to: the failover walk over the policy's order, and the routing
  segment that builds the candidates, orders them and starts the walk.
\<close>

section \<open>Dispatches\<close>

text \<open>The backend whose upstream call a suspended request is in.\<close>

fun called :: "session \<Rightarrow> nat list" where
  "called (ChatUnary ctx) = (case cx_slot ctx of None \<Rightarrow> [] | Some i \<Rightarrow> [i])"
| "called (ChatStream ctx fs) = (case cx_slot ctx of None \<Rightarrow> [] | Some i \<Rightarrow> [i])"
| "called p = []"

text \<open>The round-robin cursor is far enough from its wrap-around (or not used).\<close>

definition cursor_room :: "gateway \<Rightarrow> bool" where
  "cursor_room gw \<longleftrightarrow> rc_policy (cfg_routing (gw_cfg gw)) = PrefixAffinity \<or>
     unat (gw_cursor gw) + length (gw_backends gw) < 2 ^ 64"

lemma order_candidates_distinct:
  assumes "order_candidates lib creq cs gw = Some (gw', order, spills)"
    and "distinct (map backend_index cs)"
    and "rc_policy (cfg_routing (gw_cfg gw)) = PrefixAffinity \<or> unat (gw_cursor gw) + length cs < 2 ^ 64"
  shows "distinct order"
proof -
  have "distinct (ro_order (affinity_order xxh thr key cs))" for xxh thr key
    using assms(2) mset_affinity_order [of xxh thr key cs] mset_eq_imp_distinct_iff by blast
  moreover have "distinct (ro_order (snd (round_robin_order (gw_cursor gw) cs)))"
    if "unat (gw_cursor gw) + length cs < 2 ^ 64"
    using that assms(2) round_robin_rotates [of cs "gw_cursor gw"]
    by (cases "cs = []") (simp_all add: round_robin_order_def empty_order_def)
  ultimately show ?thesis
    using assms(1,3)
    by (auto simp: order_candidates_def Let_def split: if_splits option.splits prod.splits)
qed

lemma eligible_indices:
  "map backend_index (eligible_candidates serving gw) =
     filter (\<lambda>i. observed_health (gw_backends gw ! i) = Healthy) serving"
  by (simp add: eligible_candidates_def comp_def)

section \<open>The walk takes the first backend that admits the request\<close>

definition admits :: "time_ns \<Rightarrow> gateway \<Rightarrow> nat \<Rightarrow> bool" where
  "admits now gw i \<longleftrightarrow>
     allowed (snd (allow_request now (be_breaker (gw_backends gw ! i)))) \<and>
     \<not> at_capacity (be_limiter (gw_backends gw ! i))"

text \<open>The tail of a list behind the first element that satisfies a predicate.\<close>

fun behind :: "('a \<Rightarrow> bool) \<Rightarrow> 'a list \<Rightarrow> 'a list" where
  "behind P [] = []"
| "behind P (x # xs) = (if P x then xs else behind P xs)"

lemma find_behind_cong:
  "\<forall>x \<in> set xs. P x = Q x \<Longrightarrow> find P xs = find Q xs \<and> behind P xs = behind Q xs"
  by (induction xs) auto

lemma record_spills_fields:
  "record_spills k ctx gw = (ctx', gw') \<Longrightarrow>
     cx_attempts ctx' = cx_attempts ctx \<and> cx_sent ctx' = cx_sent ctx \<and> cx_req ctx' = cx_req ctx \<and>
     cx_keep ctx' = cx_keep ctx"
  by (auto simp: record_spills_def split: if_splits)

lemma record_spills_backends:
  "record_spills k ctx gw = (ctx', gw') \<Longrightarrow> gw_backends gw' = gw_backends gw"
  by (auto simp: record_spills_def split: if_splits)

lemma update_breaker_other:
  "j \<noteq> k \<Longrightarrow> gw_backends (update_breaker k f gw) ! j = gw_backends gw ! j"
  "be_limiter (gw_backends (update_breaker k f gw) ! j) = be_limiter (gw_backends gw ! j)"
  by (cases "k < length (gw_backends gw)"; cases "j = k";
      simp add: update_breaker_def update_backend_def list_update_beyond)+

lemma walk_first:
  assumes "distinct order" "set order \<subseteq> {..<length (gw_backends gw)}" "cx_attempts ctx < max_attempts"
    and "walk lib now order ctx gw = (gw', g, q)"
  shows "case find (admits now gw) order of
      None \<Rightarrow> called q = [] \<and> (\<exists>ctx1 gw1. (gw', g, q) = exhausted lib now ctx1 gw1 \<and> cx_keep ctx1 = cx_keep ctx)
    | Some i \<Rightarrow> called q = [i] \<and> g = None \<and>
        lim_active (limiter_of gw' i) = lim_active (limiter_of gw i) + 1 \<and>
        (\<exists>ctx1. cx_rest ctx1 = behind (admits now gw) order \<and> cx_attempts ctx1 = cx_attempts ctx + 1 \<and>
          cx_slot ctx1 = Some i \<and> cx_sent ctx1 = cx_sent ctx \<and> cx_keep ctx1 = cx_keep ctx \<and>
          cx_req ctx1 = cx_req ctx \<and>
          q = (if cr_stream (cx_req ctx) then ChatStream ctx1 (new_frame_state (cx_keep ctx)) else ChatUnary ctx1))"
  using assms
proof (induction order arbitrary: ctx gw)
  case Nil
  then have "exhausted lib now ctx gw = (gw', g, q)" by simp
  moreover have "called q = []" using calculation
    by (auto simp: exhausted_def reply_def finish_def Let_def split: option.splits prod.splits)
  ultimately show ?case by (auto intro!: exI [of _ ctx] exI [of _ gw])
next
  case (Cons k rest)
  obtain ctx1 gw1 where sp: "record_spills k ctx gw = (ctx1, gw1)" by fastforce
  obtain cb dec where al: "allow_request now (be_breaker (gw_backends gw1 ! k)) = (cb, dec)" by fastforce
  define gw2 where "gw2 = update_breaker k (\<lambda>_. cb) gw1"
  obtain l got where ac: "try_acquire (be_limiter (gw_backends gw2 ! k)) = (l, got)" by fastforce
  note turn = walk_turn [OF Cons.prems(3) sp al gw2_def ac] and same = record_spills_fields [OF sp]
    and bs = record_spills_backends [OF sp]
  have lim: "be_limiter (gw_backends gw2 ! j) = be_limiter (gw_backends gw ! j)" for j
    by (simp add: gw2_def update_breaker_other bs)
  have adm: "admits now gw k \<longleftrightarrow> allowed dec \<and> got"
    using al ac bs lim by (auto simp: admits_def try_acquire_def at_capacity_def split: if_splits)
  show ?case
  proof (cases "admits now gw k")
    case True
    define ctx2 where "ctx2 = ctx1\<lparr>cx_slot := Some k, cx_attempts := cx_attempts ctx1 + 1,
        cx_labels := backend_labels k ctx1 gw2, cx_probe := is_probe dec, cx_rest := rest\<rparr>"
    have k: "k < length (gw_backends gw2)" using Cons.prems(2) bs by (simp add: gw2_def)
    have "lim_active l = lim_active (limiter_of gw k) + 1"
      using ac True adm lim by (auto simp: try_acquire_def limiter_of_def split: if_splits)
    moreover have "(gw', g, q) = (update_limiter k (\<lambda>_. l) gw2, None,
        if cr_stream (cx_req ctx1) then ChatStream ctx2 (new_frame_state (cx_keep ctx1)) else ChatUnary ctx2)"
      using turn(3) [OF _ _ ctx2_def] True adm Cons.prems(4) by simp
    ultimately show ?thesis
      using True same k by (auto simp: limiter_of_update ctx2_def simp del: walk.simps)
  next
    case False
    define gw3 where "gw3 = (if allowed dec then update_breaker k (abort_probe now (is_probe dec)) gw2 else gw2)"
    have "walk lib now rest ctx1 gw3 = (gw', g, q)"
      using turn(1,2) False adm Cons.prems(4) by (auto simp: gw3_def simp del: walk.simps)
    moreover have other: "gw_backends gw3 ! j = gw_backends gw ! j" if "j \<noteq> k" for j
      using that by (simp add: gw3_def gw2_def update_breaker_other bs)
    moreover have "admits now gw3 j = admits now gw j" if "j \<in> set rest" for j
    proof -
      have "j \<noteq> k" using that Cons.prems(1) by auto
      then show ?thesis by (simp add: admits_def other)
    qed
    moreover have "limiter_of gw3 j = limiter_of gw j" for j
      by (simp add: limiter_of_def gw3_def update_breaker_other lim)
    moreover have "length (gw_backends gw3) = length (gw_backends gw)"
      by (simp add: gw3_def gw2_def bs)
    ultimately show ?thesis
      using Cons.IH [of gw3 ctx1] Cons.prems(1-3) False same
        find_behind_cong [of rest "admits now gw3" "admits now gw"]
      by (cases "find (admits now gw) rest"; cases "cr_stream (cx_req ctx)") simp_all
  qed
qed

text \<open>A backend that may take a request for the model now.\<close>

definition able :: "time_ns \<Rightarrow> string \<Rightarrow> gateway \<Rightarrow> nat \<Rightarrow> bool" where
  "able now model gw i \<longleftrightarrow>
     i < length (gw_backends gw) \<and> model \<in> set (bc_models (be_conf (gw_backends gw ! i))) \<and>
     observed_health (gw_backends gw ! i) = Healthy \<and> admits now gw i"

lemma order_candidates_mset:
  assumes "order_candidates lib creq cs gw = Some (gw', order, spills)"
    and "rc_policy (cfg_routing (gw_cfg gw)) = PrefixAffinity \<or> unat (gw_cursor gw) + length cs < 2 ^ 64"
  shows "mset order = mset (map backend_index cs)"
proof -
  have "mset (ro_order (snd (round_robin_order (gw_cursor gw) cs))) = mset (map backend_index cs)"
    if "unat (gw_cursor gw) + length cs < 2 ^ 64"
    using that round_robin_rotates [of cs "gw_cursor gw"]
    by (cases "cs = []") (simp_all add: round_robin_order_def empty_order_def mset_rotation)
  with assms mset_affinity_order show ?thesis
    by (auto simp: order_candidates_def Let_def split: if_splits option.splits prod.splits)
qed

lemma flatten_total: "(\<And>j. dump j \<noteq> None) \<Longrightarrow> flatten_messages (gateway_content dump) msgs \<noteq> None"
proof (induction msgs)
  case (Cons m msgs)
  have "gateway_content dump (msg_content m) \<noteq> None"
    using Cons.prems by (cases "msg_content m") simp_all
  with Cons show ?case by (auto split: option.split)
qed simp

lemma order_candidates_total:
  assumes "\<And>j. jdump lib j \<noteq> None"
  shows "\<exists>gw' order spills. order_candidates lib creq cs gw = Some (gw', order, spills)"
  using flatten_total [of "jdump lib" "cr_messages creq", OF assms]
  by (auto simp: order_candidates_def Let_def split: option.split prod.split)

lemma eligible_room:
  assumes "cursor_room gw" "distinct serving" "set serving \<subseteq> {..<length (gw_backends gw)}"
  shows "rc_policy (cfg_routing (gw_cfg gw)) = PrefixAffinity \<or>
    unat (gw_cursor gw) + length (eligible_candidates serving gw) < 2 ^ 64"
proof -
  have "length (eligible_candidates serving gw) \<le> length serving" by (rule eligible_length)
  also have "\<dots> \<le> length (gw_backends gw)"
    using card_mono [OF finite_lessThan assms(3)] distinct_card [OF assms(2)] by simp
  finally show ?thesis using assms(1) by (auto simp: cursor_room_def)
qed

lemma able_candidates:
  "able now m gw i \<longleftrightarrow>
     i \<in> set (map backend_index (eligible_candidates (backends_for_model m gw) gw)) \<and> admits now gw i"
  by (auto simp: able_def eligible_indices backends_for_model_def)

lemma find_None_iff_ball: "find P xs = None \<longleftrightarrow> (\<forall>x \<in> set xs. \<not> P x)"
  by (auto simp: find_None_iff)

lemma route_first:
  assumes "\<And>j. jdump lib j \<noteq> None" "cursor_room gw" "cx_serving ctx = backends_for_model m gw"
    and "cx_attempts ctx = 0" "route_and_walk lib now ctx gw = (gw', g, q)"
  shows "if (\<forall>i. \<not> able now m gw i) then \<exists>ctx1 body. q = ChatReply ctx1 (json_response (cx_keep ctx) 503 body)
    else \<exists>i. able now m gw i \<and> called q = [i] \<and>
      lim_active (limiter_of gw' i) = lim_active (limiter_of gw i) + 1"
proof -
  let ?cs = "eligible_candidates (cx_serving ctx) gw"
  have dump: "(jdump lib j = None) = False" for j using assms(1) by blast
  have serving: "distinct (cx_serving ctx)" "set (cx_serving ctx) \<subseteq> {..<length (gw_backends gw)}"
    by (auto simp: assms(3) backends_for_model_def)
  note room = eligible_room [OF assms(2) serving]
  show ?thesis
  proof (cases "?cs = []")
    case True
    then have "\<forall>i. \<not> able now m gw i" by (simp add: able_candidates flip: assms(3))
    with True assms(5) show ?thesis
      by (auto simp: route_and_walk_def reply_def error_json_def Let_def dump split: option.splits)
  next
    case False
    obtain gw1 order spills where o: "order_candidates lib (cx_req ctx) ?cs gw = Some (gw1, order, spills)"
      using order_candidates_total [OF assms(1)] by blast
    have ms: "mset order = mset (map backend_index ?cs)" by (rule order_candidates_mset [OF o room])
    then have dist: "distinct order"
      using serving(1) mset_eq_imp_distinct_iff [OF ms] by (simp add: eligible_indices)
    have set: "set order = set (map backend_index ?cs)" using mset_eq_setD [OF ms] .
    have cur: "gw1 = gw\<lparr>gw_cursor := gw_cursor gw1\<rparr>"
      using o by (auto simp: order_candidates_def Let_def split: if_splits option.splits prod.splits)
    have bs: "gw_backends gw1 = gw_backends gw" using arg_cong [OF cur, of gw_backends] by simp
    obtain body where "jdump lib (inject_include_usage (cr_raw (cx_req ctx))) = Some body" using assms(1) by blast
    with o False assms(5) have w: "walk lib now order (ctx\<lparr>cx_text := body, cx_spills := spills\<rparr>) gw1 = (gw', g, q)"
      by (simp add: route_and_walk_def)
    have adm: "admits now gw1 i = admits now gw i" "limiter_of gw1 i = limiter_of gw i" for i
      by (simp_all add: admits_def limiter_of_def bs)
    have sub: "set order \<subseteq> {..<length (gw_backends gw1)}"
      using set serving(2) by (auto simp: eligible_indices bs)
    note first = walk_first [OF dist sub _ w, unfolded adm]
    have able: "able now m gw i \<longleftrightarrow> i \<in> set order \<and> admits now gw i" for i
      by (simp add: able_candidates set flip: assms(3))
    show ?thesis
    proof (cases "find (admits now gw) order")
      case None
      then have none: "\<forall>i. \<not> able now m gw i" by (simp add: find_None_iff_ball able)
      from first None assms(4) obtain ctx1 gwx where "(gw', g, q) = exhausted lib now ctx1 gwx" "cx_keep ctx1 = cx_keep ctx"
        by (auto simp: max_attempts_def adm)
      with none show ?thesis
        by (auto simp: exhausted_def reply_def error_json_def Let_def dump split: option.splits)
    next
      case (Some i)
      then have "able now m gw i" by (auto simp: able find_Some_iff)
      with first Some assms(4) show ?thesis by (auto simp: max_attempts_def adm)
    qed
  qed
qed

section \<open>Two backends in rotation\<close>

text \<open>A gateway with two healthy backends, used to instantiate the results.\<close>

definition retry_lib :: lib where
  "retry_lib = \<lparr>jparse = (\<lambda>_. Some example_body), jdump = (\<lambda>_. Some ''{}''), xxh64 = (\<lambda>_. 0)\<rparr>"

definition retry_config :: config where
  "retry_config = example_config\<lparr>cfg_routing := (cfg_routing example_config)\<lparr>rc_policy := RoundRobin\<rparr>,
     cfg_backends := cfg_backends example_config @
       [default_backend\<lparr>bc_name := ''b'', bc_base_url := ''http://k'', bc_models := [''m'']\<rparr>]\<rparr>"

definition retry_gateway :: gateway where
  "retry_gateway =
     (case new_gateway retry_config of
        Inr gw \<Rightarrow> gw\<lparr>gw_backends := map (\<lambda>b. b\<lparr>be_forced := Some Healthy\<rparr>) (gw_backends gw)\<rparr>
      | Inl _ \<Rightarrow> undefined)"

lemma retry_gateway_fields:
  "gw_backends retry_gateway = map (\<lambda>bc. \<lparr>be_conf = bc,
      be_target = \<lparr>host = drop 7 (bc_base_url bc), port = ''80''\<rparr>,
      be_health = new_monitor (bc_type bc) (of_ms (bc_health_interval_ms bc)),
      be_breaker = new_breaker (bc_failure_threshold bc) (of_ms (bc_open_ms bc)),
      be_limiter = new_limiter (bc_max_in_flight bc), be_forced = Some Healthy\<rparr>) (cfg_backends retry_config)"
  "gw_cfg retry_gateway = retry_config" "gw_cursor retry_gateway = 0" "\<not> gw_draining retry_gateway"
  "gw_gate retry_gateway = new_gate (sc_max_concurrent_streams default_server)
     (sc_queue_depth default_server) (of_ms (sc_queue_timeout_ms default_server))"
  by (simp_all add: retry_gateway_def new_gateway_def retry_config_def example_config_def
      default_config_def new_backend_def parse_target_def strip_scheme_def starts_with_def
      strip_path_def split_port_def)

lemma retry_configs:
  "cfg_backends retry_config =
     [default_backend\<lparr>bc_name := ''a'', bc_base_url := ''http://h'', bc_models := [''m'']\<rparr>,
      default_backend\<lparr>bc_name := ''b'', bc_base_url := ''http://k'', bc_models := [''m'']\<rparr>]"
  "rc_policy (cfg_routing retry_config) = RoundRobin"
  by (simp_all add: retry_config_def example_config_def)

lemma retry_dump: "jdump retry_lib j = Some ''{}''"
  by (simp add: retry_lib_def)

lemma retry_able:
  assumes "gw_backends gw = gw_backends retry_gateway" "i < 2"
  shows "able now ''m'' gw i" "admits now gw i"
proof -
  have "i = 0 \<or> i = 1" using assms(2) by auto
  then show "able now ''m'' gw i" "admits now gw i"
    by (auto simp: able_def admits_def assms(1) retry_gateway_fields retry_configs default_backend_def
        observed_health_def new_breaker_def new_limiter_def allow_request_def at_capacity_def)
qed

lemma retry_serving:
  "gw_backends gw = gw_backends retry_gateway \<Longrightarrow> backends_for_model ''m'' gw = [0, 1]"
  by (simp add: backends_for_model_def retry_gateway_fields retry_configs upt_rec)

lemma retry_room: "cursor_room retry_gateway"
  by (simp add: cursor_room_def retry_gateway_fields retry_configs)

lemma retry_route:
  assumes "gw_backends gw = gw_backends retry_gateway" "gw_cfg gw = retry_config" "gw_cursor gw = 0"
    and "cx_serving ctx = [0, 1]" "cx_attempts ctx = 0" "cr_stream (cx_req ctx)"
  shows "\<exists>gw' ctx1. route_and_walk retry_lib now ctx gw =
      (gw', None, ChatStream ctx1 (new_frame_state (cx_keep ctx))) \<and> cx_slot ctx1 = Some 0 \<and>
    cx_rest ctx1 = [1] \<and> cx_sent ctx1 = cx_sent ctx \<and> cx_keep ctx1 = cx_keep ctx \<and>
    cx_attempts ctx1 = 1 \<and> cx_req ctx1 = cx_req ctx"
proof -
  obtain gw' g q where w: "walk retry_lib now [0, 1] (ctx\<lparr>cx_text := ''{}'', cx_spills := 0\<rparr>)
      (gw\<lparr>gw_cursor := 1\<rparr>) = (gw', g, q)" by (metis surj_pair)
  have e: "map backend_index (eligible_candidates [0, 1] gw) = [0, 1]"
    by (simp add: eligible_indices assms(1) retry_gateway_fields retry_configs observed_health_def)
  then have o: "order_candidates retry_lib (cx_req ctx) (eligible_candidates [0, 1] gw) gw =
      Some (gw\<lparr>gw_cursor := 1\<rparr>, [0, 1], 0)"
    using round_robin_rotates [of "eligible_candidates [0, 1] gw" 0]
    by (cases "eligible_candidates [0, 1] gw")
       (auto simp: order_candidates_def assms(2,3) retry_configs)
  have "eligible_candidates [0, 1] gw \<noteq> []" using e by auto
  with o w have "route_and_walk retry_lib now ctx gw = (gw', g, q)"
    by (simp add: route_and_walk_def assms(4) retry_dump del: walk.simps)
  moreover have "admits now (gw\<lparr>gw_cursor := 1\<rparr>) 0"
    using retry_able(2) [of "gw\<lparr>gw_cursor := 1\<rparr>" 0] assms(1) by simp
  ultimately show ?thesis
    using walk_first [OF _ _ _ w] assms
    by (auto simp: max_attempts_def retry_gateway_fields retry_configs)
qed

section \<open>Properties\<close>

text \<open>
  The failover walk is first-fit.  Over an order without repetitions it dispatches to the first
  backend whose breaker allows the request and which is below its cap, takes one slot of it and keeps
  the rest of the order for a retry; if no backend of the order admits the request, nobody is called.
\<close>

theorem walk_first_fit:
  assumes "distinct order" "set order \<subseteq> {..<length (gw_backends gw)}" "cx_attempts ctx < max_attempts"
    and "walk lib now order ctx gw = (gw', g, q)"
  shows "called q = (case find (admits now gw) order of None \<Rightarrow> [] | Some i \<Rightarrow> [i]) \<and>
    (\<forall>i. find (admits now gw) order = Some i \<longrightarrow>
       lim_active (limiter_of gw' i) = lim_active (limiter_of gw i) + 1 \<and>
       (\<exists>ctx1. cx_rest ctx1 = behind (admits now gw) order \<and> cx_slot ctx1 = Some i \<and>
          (q = ChatUnary ctx1 \<or> q = ChatStream ctx1 (new_frame_state (cx_keep ctx)))))"
  using walk_first [OF assms] by (fastforce split: option.splits if_splits)

theorem walk_first_fit_witness:
  "\<exists>gw' g q. walk retry_lib 0 [1, 0] (new_ctx 0 True) retry_gateway = (gw', g, q) \<and> called q = [1]"
proof -
  obtain gw' g q where w: "walk retry_lib 0 [1, 0] (new_ctx 0 True) retry_gateway = (gw', g, q)"
    by (metis surj_pair)
  have "called q = (case find (admits 0 retry_gateway) [1, 0] of None \<Rightarrow> [] | Some i \<Rightarrow> [i])"
    using walk_first_fit [OF _ _ _ w]
    by (simp add: new_ctx_def max_attempts_def retry_gateway_fields retry_configs)
  with w retry_able(2) [of retry_gateway 1] show ?thesis by simp
qed



end
