(* ===== verification/Gateway_Session.thy ===== *)
theory Gateway_Session
  imports Gateway_Dispatch Gateway_Frame
begin

text \<open>
  One request from its arrival to its end.  Between two of its segments other requests may do
  anything to the gateway, so the run of a request lets every turn start from an arbitrary gateway
  of the same configuration.  The results say what the request does in any such environment: how
  many upstream calls it makes and to whom, what it may have sent, that it ends, and what it
  leaves in the request counters.
\<close>

section \<open>Runs\<close>

definition configured :: "config \<Rightarrow> gateway \<Rightarrow> bool" where
  "configured cfg gw \<longleftrightarrow> gw_cfg gw = cfg \<and> map be_conf (gw_backends gw) = cfg_backends cfg"

text \<open>A turn: what resumed the request (nothing on arrival), in which gateway, and where it stopped.\<close>

datatype turn = Turn (turn_wk: "wakeup option") (turn_gw: gateway) (turn_pc: session)

inductive request_run :: "lib \<Rightarrow> config \<Rightarrow> nat \<Rightarrow> turn list \<Rightarrow> bool" for lib cfg w where
  arrives: "configured cfg gw \<Longrightarrow> handle lib w now req keep_alive gw = (gw', g, p) \<Longrightarrow>
     request_run lib cfg w [Turn None gw p]"
| resumes: "request_run lib cfg w (trail @ [Turn wk0 gw0 p]) \<Longrightarrow> configured cfg gw \<Longrightarrow>
     resume lib w now wk p gw = Some (gw', g, q) \<Longrightarrow>
     request_run lib cfg w (trail @ [Turn wk0 gw0 p, Turn (Some wk) gw q])"
| granted: "request_run lib cfg w (trail @ [Turn wk0 gw0 p]) \<Longrightarrow>
     request_run lib cfg w (trail @ [Turn wk0 gw0 (grant_session p)])"

text \<open>
  A turn that stops in an upstream call it did not start in has dispatched the request to the
  backend whose slot it holds; a frame of a running stream dispatches nothing.
\<close>

fun is_frame :: "wakeup option \<Rightarrow> bool" where
  "is_frame (Some (Frame ev ok1 ok2)) = True"
| "is_frame wk = False"

definition turn_calls :: "turn \<Rightarrow> nat list" where
  "turn_calls t = (if is_frame (turn_wk t) then [] else called (turn_pc t))"

definition upstream_calls :: "turn list \<Rightarrow> nat list" where
  "upstream_calls trail = concat (map turn_calls trail)"

definition own_turns :: "turn list \<Rightarrow> nat" where
  "own_turns trail = count_if (\<lambda>t. \<not> is_frame (turn_wk t)) trail"

text \<open>What has been sent to the client when the request is suspended or has ended.\<close>

fun session_sent :: "session \<Rightarrow> wire list" where
  "session_sent (PlainReply out keep) = []"
| "session_sent (ChatWait ctx granted a b) = cx_sent ctx"
| "session_sent (ChatUnary ctx) = cx_sent ctx"
| "session_sent (ChatStream ctx fs) = cx_sent ctx"
| "session_sent (ChatReply ctx out) = cx_sent ctx"
| "session_sent (ChatEnd ctx fs plan) = cx_sent ctx"
| "session_sent (Done res sent) = sent"

definition sse_chunks :: "string list \<Rightarrow> wire list" where
  "sse_chunks payloads = map (\<lambda>p. Chunk (sse_frame p)) payloads"

text \<open>
  A complete response, with the keep-alive flag it announces: one JSON response, or an SSE header,
  frames and the last chunk.
\<close>

definition complete_response :: "bool \<Rightarrow> wire list \<Rightarrow> bool" where
  "complete_response keep out \<longleftrightarrow>
     (\<exists>code retry body. out = [JsonResponse code keep retry body]) \<or>
     (\<exists>payloads. out = SseHeader keep # sse_chunks payloads @ [LastChunk])"

definition partial_response :: "wire list \<Rightarrow> bool" where
  "partial_response out \<longleftrightarrow> (\<exists>keep rest. complete_response keep (out @ rest))"

text \<open>How many resumptions, frames apart, a suspended request still needs at most.\<close>

fun turns_left :: "session \<Rightarrow> nat" where
  "turns_left (PlainReply out keep) = 1"
| "turns_left (ChatWait ctx granted a b) = 4"
| "turns_left (ChatUnary ctx) = 4 - cx_attempts ctx"
| "turns_left (ChatStream ctx fs) = 4 - cx_attempts ctx"
| "turns_left (ChatReply ctx out) = 1"
| "turns_left (ChatEnd ctx fs plan) = 1"
| "turns_left (Done res sent) = 0"

section \<open>The invariant of a request\<close>

text \<open>The stream's writer has begun exactly when the header is out, and only frames follow it.\<close>

definition stream_ok :: "chat_ctx \<Rightarrow> frame_state \<Rightarrow> bool" where
  "stream_ok ctx fs \<longleftrightarrow>
     \<not> ended (fs_writer fs) \<and> header_sent (fs_writer fs) = header_started fs \<and>
     w_keep_alive (fs_writer fs) = cx_keep ctx \<and>
     (if header_started fs
      then \<exists>ps. cx_sent ctx = SseHeader (cx_keep ctx) # sse_chunks ps
      else cx_sent ctx = [])"

text \<open>
  What holds of a request that has made the calls \<open>cs\<close>; \<open>d\<close> says that the cursor had room in every
  turn so far.
\<close>

definition at_call :: "bool \<Rightarrow> nat list \<Rightarrow> chat_ctx \<Rightarrow> bool" where
  "at_call d cs ctx \<longleftrightarrow>
     length cs = cx_attempts ctx \<and> cx_attempts ctx \<le> max_attempts \<and> cs \<noteq> [] \<and>
     cx_slot ctx \<noteq> None \<and> (d \<longrightarrow> distinct (cs @ cx_rest ctx))"

definition ended_ok :: "bool \<Rightarrow> nat list \<Rightarrow> bool" where
  "ended_ok d cs \<longleftrightarrow> length cs \<le> max_attempts \<and> (d \<longrightarrow> distinct cs)"

fun sess_inv :: "nat \<Rightarrow> bool \<Rightarrow> nat list \<Rightarrow> session \<Rightarrow> bool" where
  "sess_inv n d cs (PlainReply out keep) =
     (cs = [] \<and> (\<exists>code retry body. out = JsonResponse code keep retry body))"
| "sess_inv n d cs (ChatWait ctx granted a b) =
     (cs = [] \<and> cx_attempts ctx = 0 \<and> cx_sent ctx = [] \<and> distinct (cx_serving ctx) \<and>
      set (cx_serving ctx) \<subseteq> {..<n})"
| "sess_inv n d cs (ChatUnary ctx) = (at_call d cs ctx \<and> cx_sent ctx = [])"
| "sess_inv n d cs (ChatStream ctx fs) = (at_call d cs ctx \<and> stream_ok ctx fs)"
| "sess_inv n d cs (ChatReply ctx out) =
     (ended_ok d cs \<and> cx_sent ctx = [] \<and> cx_code ctx \<noteq> 0 \<and>
      (\<exists>retry body. out = JsonResponse (cx_code ctx) (cx_keep ctx) retry body))"
| "sess_inv n d cs (ChatEnd ctx fs plan) =
     (ended_ok d cs \<and> stream_ok ctx fs \<and> (plan = EmptyStream \<longleftrightarrow> \<not> header_started fs) \<and>
      (header_started fs \<longrightarrow> cx_code ctx = 200))"
| "sess_inv n d cs (Done res out) =
     (ended_ok d cs \<and> partial_response out \<and>
      (res = Inr True \<longrightarrow> complete_response True out))"

text \<open>A segment after the calls \<open>cs\<close> keeps the invariant and leaves that many turns at most.\<close>

definition seg_inv :: "nat \<Rightarrow> bool \<Rightarrow> nat list \<Rightarrow> segment \<Rightarrow> bool" where
  "seg_inv n d cs seg =
     (case seg of (gw, g, q) \<Rightarrow> sess_inv n d (cs @ called q) q \<and> turns_left q \<le> 3 - length cs)"

lemma complete_json [simp]: "complete_response keep [JsonResponse code keep retry body]"
  by (simp add: complete_response_def)

lemma complete_stream [simp]:
  "complete_response keep (SseHeader keep # sse_chunks ps @ [LastChunk])"
  by (auto simp: complete_response_def)

lemma sse_chunks_simps [simp]:
  "sse_chunks [] = []" "sse_chunks (ps @ qs) = sse_chunks ps @ sse_chunks qs"
  "sse_chunks [p] = [Chunk (sse_frame p)]"
  by (simp_all add: sse_chunks_def)

lemma complete_partial [simp]: "complete_response keep out \<Longrightarrow> partial_response out"
  unfolding partial_response_def by (metis append_Nil2)

lemma partial_json [simp]: "partial_response [JsonResponse code keep retry body]"
  by (rule complete_partial [OF complete_json])

lemma partial_Nil [simp]: "partial_response []"
  unfolding partial_response_def append_Nil by (intro exI) (rule complete_json)

lemma partial_frames [simp]:
  "partial_response (SseHeader keep # sse_chunks ps)"
  unfolding partial_response_def by (intro exI [of _ keep] exI [of _ "[LastChunk]"]) simp

lemma partial_stream: "stream_ok ctx fs \<Longrightarrow> partial_response (cx_sent ctx)"
  by (auto simp: stream_ok_def split: if_splits)

lemma seg_inv_if:
  "(c \<Longrightarrow> seg_inv n d cs a) \<Longrightarrow> (\<not> c \<Longrightarrow> seg_inv n d cs b) \<Longrightarrow> seg_inv n d cs (if c then a else b)"
  by simp

lemma seg_inv_option:
  "(x = None \<Longrightarrow> seg_inv n d cs a) \<Longrightarrow> (\<And>y. x = Some y \<Longrightarrow> seg_inv n d cs (f y)) \<Longrightarrow>
   seg_inv n d cs (case x of None \<Rightarrow> a | Some y \<Rightarrow> f y)"
  by (simp split: option.split)

lemma finish_inv:
  assumes "ended_ok d cs" "partial_response (cx_sent ctx)"
    and "res = Inr True \<Longrightarrow> complete_response True (cx_sent ctx)"
  shows "seg_inv n d cs (finish now ctx res gw)"
  using assms by (simp add: finish_def seg_inv_def split: prod.split)

lemma ended_left: "ended_ok d cs \<Longrightarrow> Suc 0 \<le> 3 - length cs"
  by (auto simp: ended_ok_def max_attempts_def)

lemma reply_inv:
  assumes "ended_ok d cs" "cx_sent ctx = []" "code \<noteq> 0"
  shows "seg_inv n d cs (reply now ctx code body gw)"
  unfolding reply_def Let_def using assms
  by (intro seg_inv_option finish_inv) (simp_all add: seg_inv_def json_response_def ended_left)

lemma exhausted_inv:
  "ended_ok d cs \<Longrightarrow> cx_sent ctx = [] \<Longrightarrow> seg_inv n d cs (exhausted lib now ctx gw)"
  by (simp add: exhausted_def reply_inv)

text \<open>The loop: ready to try the backends \<open>order\<close> after the calls \<open>cs\<close>.\<close>

definition at_walk :: "bool \<Rightarrow> nat list \<Rightarrow> nat list \<Rightarrow> chat_ctx \<Rightarrow> bool" where
  "at_walk d cs order ctx \<longleftrightarrow>
     length cs = cx_attempts ctx \<and> cx_attempts ctx \<le> max_attempts \<and> cx_sent ctx = [] \<and>
     (d \<longrightarrow> distinct (cs @ order))"

lemma record_spills_walk:
  "record_spills k ctx gw = (ctx', gw') \<Longrightarrow> at_walk d cs order ctx' = at_walk d cs order ctx"
  using record_spills_fields [of k ctx gw ctx' gw'] by (simp add: at_walk_def)

lemma at_walk_ended: "at_walk d cs order ctx \<Longrightarrow> ended_ok d cs \<and> cx_sent ctx = []"
  by (auto simp: at_walk_def ended_ok_def)

lemma at_walk_tail: "at_walk d cs (k # rest) ctx \<Longrightarrow> at_walk d cs rest ctx"
  by (auto simp: at_walk_def)

lemma stream_ok_new: "cx_sent ctx = [] \<Longrightarrow> stream_ok ctx (new_frame_state (cx_keep ctx))"
  by (simp add: stream_ok_def new_frame_state_def new_writer_def)

lemma walk_inv: "at_walk d cs order ctx \<Longrightarrow> seg_inv n d cs (walk lib now order ctx gw)"
proof (induction order arbitrary: ctx gw)
  case Nil
  then show ?case using at_walk_ended by (simp add: exhausted_inv)
next
  case (Cons k rest)
  obtain ctx1 gw1 where sp: "record_spills k ctx gw = (ctx1, gw1)" by fastforce
  obtain cb dec where al: "allow_request now (be_breaker (gw_backends gw1 ! k)) = (cb, dec)" by fastforce
  define gw2 where "gw2 = update_breaker k (\<lambda>_. cb) gw1"
  obtain l got where ac: "try_acquire (be_limiter (gw_backends gw2 ! k)) = (l, got)" by fastforce
  note turn = walk_turn [OF _ sp al gw2_def ac]
  have at: "at_walk d cs (k # rest) ctx1" and same: "cx_attempts ctx1 = cx_attempts ctx"
    using record_spills_walk [OF sp] record_spills_fields [OF sp] Cons.prems by auto
  show ?case
  proof (cases "cx_attempts ctx \<ge> max_attempts")
    case True
    with Cons.prems at_walk_ended show ?thesis by (simp add: exhausted_inv)
  next
    case att: False
    show ?thesis
    proof (cases "allowed dec \<and> got")
      case False
      with att Cons.IH [OF at_walk_tail [OF at]] turn(1,2) show ?thesis
        by (cases "allowed dec") (simp_all del: walk.simps)
    next
      case True
      define ctx2 where "ctx2 = ctx1\<lparr>cx_slot := Some k, cx_attempts := cx_attempts ctx1 + 1,
        cx_labels := backend_labels k ctx1 gw2, cx_probe := is_probe dec, cx_rest := rest\<rparr>"
      have "at_call d (cs @ [k]) ctx2" "cx_sent ctx2 = []" "cx_slot ctx2 = Some k"
        "cx_attempts ctx2 = Suc (length cs)"
        using at att same by (auto simp: at_call_def at_walk_def ctx2_def)
      with stream_ok_new [of ctx2] turn(3) [OF _ _ _ ctx2_def] True att show ?thesis
        by (simp add: seg_inv_def ctx2_def del: walk.simps)
    qed
  qed
qed

section \<open>The other segments\<close>

lemma at_call_walk:
  "at_call d cs ctx \<Longrightarrow> cx_sent ctx = [] \<Longrightarrow> at_walk d cs (cx_rest ctx) (ctx\<lparr>cx_slot := s\<rparr>)"
  by (auto simp: at_call_def at_walk_def)

lemma at_call_ended: "at_call d cs ctx \<Longrightarrow> ended_ok d cs"
  by (auto simp: at_call_def ended_ok_def)

lemma next_backend_inv:
  "at_call d cs ctx \<Longrightarrow> cx_sent ctx = [] \<Longrightarrow> seg_inv n d cs (next_backend lib now ctx gw)"
  unfolding next_backend_def by (intro walk_inv at_call_walk)

lemma after_unary_inv:
  assumes "at_call d cs ctx" "cx_sent ctx = []"
  shows "seg_inv n d cs (after_unary lib now ur ctx gw)"
  unfolding after_unary_def
  using assms at_call_ended [OF assms(1)]
  by (intro seg_inv_if next_backend_inv reply_inv) simp_all

lemma stream_ok_code [simp]: "stream_ok (ctx\<lparr>cx_code := c\<rparr>) fs = stream_ok ctx fs"
  by (simp add: stream_ok_def)

lemma after_stream_inv:
  assumes "at_call d cs ctx" "stream_ok ctx fs"
  shows "seg_inv n d cs (after_stream lib now sr ctx fs gw)"
proof -
  have e: "ended_ok d cs" by (rule at_call_ended [OF assms(1)])
  have "cx_sent ctx = []" if "\<not> header_started fs"
    using assms(2) that by (simp add: stream_ok_def)
  with assms e partial_stream [OF assms(2)] show ?thesis
    unfolding after_stream_def Let_def
    by (intro seg_inv_if seg_inv_option next_backend_inv reply_inv finish_inv)
       (simp_all add: seg_inv_def ended_left)
qed

text \<open>A frame adds the header if it is missing and the frame itself, as far as the writes complete.\<close>

definition frame_out :: "bool \<Rightarrow> sse_event \<Rightarrow> chat_ctx \<Rightarrow> frame_state \<Rightarrow> wire list" where
  "frame_out ok2 ev ctx fs =
     (if header_started fs then [] else [SseHeader (cx_keep ctx)]) @
     sse_chunks (if ok2 then [ev_data ev] else [])"

definition frame_next :: "time_ns \<Rightarrow> bool \<Rightarrow> frame_state \<Rightarrow> frame_state" where
  "frame_next now ok2 fs =
     fs\<lparr>fs_writer := (if header_started fs then fs_writer fs else (fs_writer fs)\<lparr>header_sent := True\<rparr>),
        header_started := True, first_frame_seen := True, t_prev_frame := now,
        downstream_dead := (\<not> ok2)\<rparr>"

lemma sink_frame_refused:
  assumes "downstream_dead fs \<or> \<not> header_started fs \<and> \<not> ok1" "stream_ok ctx fs"
  shows "sink_frame now ok1 ok2 ev ctx fs gw = ((gw, ctx, fs\<lparr>downstream_dead := True\<rparr>), False)"
  using assms
  by (cases fs; cases "downstream_dead fs") (simp_all add: sink_frame_def stream_ok_def writer_begin_def)

lemma sink_frame_sent:
  assumes "\<not> downstream_dead fs" "header_started fs \<or> ok1" "stream_ok ctx fs"
  shows "sink_frame now ok1 ok2 ev ctx fs gw =
    ((update_registry (observe_frame now ev ctx fs) gw,
      ctx\<lparr>cx_sent := cx_sent ctx @ frame_out ok2 ev ctx fs\<rparr>, frame_next now ok2 fs), ok2)"
  using assms
  by (cases fs; cases "header_started fs"; cases ok2)
     (simp_all add: sink_frame_def Let_def stream_ok_def writer_begin_def write_data_def
        frame_out_def frame_next_def)

lemma stream_ok_frame:
  assumes "stream_ok ctx fs"
  shows "stream_ok (ctx\<lparr>cx_sent := cx_sent ctx @ frame_out ok2 ev ctx fs\<rparr>) (frame_next now ok2 fs)"
proof -
  from assms obtain ps where "cx_sent ctx @ (if header_started fs then [] else [SseHeader (cx_keep ctx)]) =
      SseHeader (cx_keep ctx) # sse_chunks ps"
    by (cases "header_started fs") (auto simp: stream_ok_def intro: that [of "[]"])
  then have "cx_sent ctx @ frame_out ok2 ev ctx fs =
      SseHeader (cx_keep ctx) # sse_chunks (ps @ (if ok2 then [ev_data ev] else []))"
    by (simp add: frame_out_def flip: append_assoc)
  then have "\<exists>qs. cx_sent ctx @ frame_out ok2 ev ctx fs = SseHeader (cx_keep ctx) # sse_chunks qs" ..
  with assms show ?thesis by (simp add: stream_ok_def frame_next_def)
qed

lemma sink_frame_inv:
  assumes "sink_frame now ok1 ok2 ev ctx fs gw = ((gw', ctx', fs'), keep)"
    and "at_call d cs ctx" "stream_ok ctx fs"
  shows "at_call d cs ctx' \<and> stream_ok ctx' fs' \<and> prefix (cx_sent ctx) (cx_sent ctx') \<and>
    cx_slot ctx' = cx_slot ctx \<and> cx_attempts ctx' = cx_attempts ctx"
proof (cases "downstream_dead fs \<or> \<not> header_started fs \<and> \<not> ok1")
  case True
  from sink_frame_refused [OF this assms(3)] assms show ?thesis by (auto simp: stream_ok_def)
next
  case False
  then have "\<not> downstream_dead fs" "header_started fs \<or> ok1" by auto
  from sink_frame_sent [OF this assms(3)] assms(1)
  have "ctx' = ctx\<lparr>cx_sent := cx_sent ctx @ frame_out ok2 ev ctx fs\<rparr>" "fs' = frame_next now ok2 fs"
    by auto
  with assms(2) stream_ok_frame [OF assms(3)] show ?thesis by (simp add: at_call_def)
qed

lemma close_stream_inv:
  assumes "close_stream ok2 ok3 payload keep ctx w = (ctx', res)" "\<not> ended w"
    and "cx_sent ctx = SseHeader (cx_keep ctx) # sse_chunks ps"
  shows "prefix (cx_sent ctx) (cx_sent ctx') \<and> partial_response (cx_sent ctx') \<and> cx_code ctx' = cx_code ctx \<and>
    (res = Inr True \<longrightarrow> keep \<and> complete_response (cx_keep ctx) (cx_sent ctx'))"
proof -
  define out where "out = (case payload of None \<Rightarrow> [] | Some p \<Rightarrow> [p])"
  have "complete_response (cx_keep ctx) (cx_sent ctx @ sse_chunks out @ [LastChunk])"
    "partial_response (cx_sent ctx @ sse_chunks out)" "partial_response (cx_sent ctx)"
    using complete_stream [of "cx_keep ctx" "ps @ out"] partial_frames [of "cx_keep ctx" "ps @ out"]
      partial_frames [of "cx_keep ctx" ps] assms(3)
    by simp_all
  with assms(1,2) show ?thesis
    by (cases payload; cases ok2; cases ok3)
       (auto simp: close_stream_def write_data_def writer_end_def out_def Let_def)
qed

lemma end_stream_inv:
  assumes "end_stream ok1 ok2 ok3 plan ctx fs = (ctx', res)" "stream_ok ctx fs"
    and "plan = EmptyStream \<longleftrightarrow> \<not> header_started fs"
  shows "prefix (cx_sent ctx) (cx_sent ctx') \<and> partial_response (cx_sent ctx') \<and>
    (res = Inr True \<longrightarrow> complete_response True (cx_sent ctx')) \<and>
    (cx_sent ctx' \<noteq> [] \<longrightarrow> hd (cx_sent ctx') = SseHeader (cx_keep ctx) \<and>
       (cx_code ctx' = 200 \<or> header_started fs \<and> cx_code ctx' = cx_code ctx))"
proof (cases plan)
  case EmptyStream
  let ?ctx = "ctx\<lparr>cx_code := 200, cx_sent := [SseHeader (cx_keep ctx)]\<rparr>"
  from EmptyStream assms consider "ctx' = ctx" "res = Inl ()" "cx_sent ctx = []"
    | "close_stream ok2 ok3 (Some ''[DONE]'') (cx_keep ctx) ?ctx ((fs_writer fs)\<lparr>header_sent := True\<rparr>) =
        (ctx', res)" "cx_sent ctx = []" "\<not> ended (fs_writer fs)"
    by (cases ok1) (auto simp: end_stream_def writer_begin_def stream_ok_def)
  then show ?thesis
  proof cases
    case 2
    from close_stream_inv [OF 2(1), of "[]"] 2(2,3) show ?thesis
      by (auto simp: prefix_def)
  qed simp
next
  case (ErrorEnd p)
  with assms obtain ps where "cx_sent ctx = SseHeader (cx_keep ctx) # sse_chunks ps" "header_started fs"
    "close_stream ok2 ok3 (Some p) False ctx (fs_writer fs) = (ctx', res)" "\<not> ended (fs_writer fs)"
    by (auto simp: end_stream_def stream_ok_def)
  with close_stream_inv [OF this(3,4,1)] show ?thesis by (auto simp: prefix_def)
next
  case CleanEnd
  with assms obtain ps where "cx_sent ctx = SseHeader (cx_keep ctx) # sse_chunks ps" "header_started fs"
    "close_stream ok2 ok3 None (cx_keep ctx) ctx (fs_writer fs) = (ctx', res)" "\<not> ended (fs_writer fs)"
    by (auto simp: end_stream_def stream_ok_def)
  with close_stream_inv [OF this(3,4,1)] show ?thesis by (auto simp: prefix_def)
qed

section \<open>Admission, arrival, resumption\<close>

lemma route_and_walk_inv:
  assumes "cx_attempts ctx = 0" "cx_sent ctx = []" "distinct (cx_serving ctx)"
    and "set (cx_serving ctx) \<subseteq> {..<length (gw_backends gw)}" "d \<Longrightarrow> cursor_room gw"
  shows "seg_inv n d [] (route_and_walk lib now ctx gw)"
proof -
  let ?cs = "eligible_candidates (cx_serving ctx) gw"
  have none: "ended_ok d []" by (simp add: ended_ok_def)
  have dist: "distinct (map backend_index ?cs)" using assms(3) by (simp add: eligible_indices)
  have "length ?cs \<le> length (cx_serving ctx)" by (rule eligible_length)
  also have "\<dots> \<le> length (gw_backends gw)"
    using card_mono [OF finite_lessThan assms(4)] distinct_card [OF assms(3)] by simp
  finally have room: "rc_policy (cfg_routing (gw_cfg gw)) = PrefixAffinity \<or>
      unat (gw_cursor gw) + length ?cs < 2 ^ 64" if d
    using assms(5) [OF that] by (auto simp: cursor_room_def)
  have "seg_inv n d [] (walk lib now order (ctx\<lparr>cx_text := body, cx_spills := spills\<rparr>) gw1)"
    if "order_candidates lib (cx_req ctx) ?cs gw = Some (gw1, order, spills)" for gw1 order spills body
    using order_candidates_distinct [OF that dist room] assms(1,2)
    by (intro walk_inv) (simp add: at_walk_def)
  with assms(2) none show ?thesis
    unfolding route_and_walk_def Let_def
    by (auto intro!: reply_inv finish_inv split: option.split)
qed

lemma after_admit_inv:
  assumes "cx_attempts ctx = 0" "cx_sent ctx = []" "distinct (cx_serving ctx)"
    and "set (cx_serving ctx) \<subseteq> {..<length (gw_backends gw)}" "d \<Longrightarrow> cursor_room gw"
  shows "seg_inv n d [] (after_admit lib now adm ctx gw)"
  using assms unfolding after_admit_def Let_def
  by (intro seg_inv_if reply_inv route_and_walk_inv)
     (simp_all add: ended_ok_def publish_admission_gauges_def cursor_room_def update_registry_def)

text \<open>The segment of an arrival may also stop in the gate.\<close>

definition arrival_inv :: "nat \<Rightarrow> bool \<Rightarrow> segment \<Rightarrow> bool" where
  "arrival_inv n d seg = (case seg of (gw, g, q) \<Rightarrow> sess_inv n d (called q) q \<and> turns_left q \<le> 4)"

lemma seg_arrival: "seg_inv n d [] seg \<Longrightarrow> arrival_inv n d seg"
  by (auto simp: seg_inv_def arrival_inv_def split: prod.splits)

lemma acquire_and_go_inv:
  assumes "cx_attempts ctx = 0" "cx_sent ctx = []" "distinct (cx_serving ctx)"
    and "set (cx_serving ctx) \<subseteq> {..<length (gw_backends gw)}" "d \<Longrightarrow> cursor_room gw"
  shows "arrival_inv (length (gw_backends gw)) d (acquire_and_go lib w now ctx gw)"
proof (cases "gate_enter w now (gw_gate gw)")
  case (Pair g r)
  have "d \<Longrightarrow> cursor_room (gw\<lparr>gw_gate := g\<rparr>)" using assms(5) by (simp add: cursor_room_def)
  with Pair assms show ?thesis
    by (cases r) (auto simp: acquire_and_go_def arrival_inv_def [of _ _ "(_, None, _)"]
      intro!: seg_arrival after_admit_inv)
qed

lemma handle_chat_inv:
  assumes "d \<Longrightarrow> cursor_room gw"
  shows "arrival_inv (length (gw_backends gw)) d (handle_chat lib w now body keep gw)"
proof -
  have new: "cx_sent (new_ctx now keep) = []" "cx_attempts (new_ctx now keep) = 0"
    by (simp_all add: new_ctx_def)
  have code: "status_code k \<noteq> 0" for k by (cases k) simp_all
  have serving: "distinct (backends_for_model m gw)"
    "x \<in> set (backends_for_model m gw) \<Longrightarrow> x < length (gw_backends gw)" for m x
    by (auto simp: backends_for_model_def)
  show ?thesis
    unfolding handle_chat_def Let_def
    using assms new code serving
    by (auto intro!: seg_arrival [OF reply_inv] seg_arrival [OF finish_inv] acquire_and_go_inv
      simp: ended_ok_def split: option.split sum.split)
qed

lemma handle_inv:
  assumes "d \<Longrightarrow> cursor_room gw"
  shows "arrival_inv (length (gw_backends gw)) d (handle lib w now req keep gw)"
proof -
  have plain: "arrival_inv n d (plain_reply k code body gw)" for n k code body
    by (auto simp: plain_reply_def arrival_inv_def json_response_def ended_ok_def split: option.split)
  have "arrival_inv (length (gw_backends gw)) d (handle_chat lib w now body keep (gw\<lparr>gw_in_flight := x\<rparr>))"
    for body x
    using handle_chat_inv [of d "gw\<lparr>gw_in_flight := x\<rparr>"] assms by (simp add: cursor_room_def)
  with plain show ?thesis unfolding handle_def by simp
qed

lemma sess_inv_mono: "sess_inv n d cs p \<Longrightarrow> (d' \<Longrightarrow> d) \<Longrightarrow> sess_inv n d' cs p"
  by (cases p) (auto simp: at_call_def ended_ok_def)

text \<open>What a resumption owes the run.\<close>

definition turn_inv :: "nat \<Rightarrow> bool \<Rightarrow> nat list \<Rightarrow> wakeup \<Rightarrow> session \<Rightarrow> session \<Rightarrow> bool" where
  "turn_inv n d cs wk p q \<longleftrightarrow>
     sess_inv n d (cs @ (if is_frame (Some wk) then [] else called q)) q \<and>
     turns_left q + (if is_frame (Some wk) then 0 else 1) \<le> turns_left p \<and>
     prefix (session_sent p) (session_sent q) \<and>
     (session_sent p \<noteq> [] \<longrightarrow> is_frame (Some wk) \<or> called q = [])"

lemma seg_turn_inv:
  assumes "seg_inv n d cs (gw, g, q)" "\<not> is_frame (Some wk)" "length cs \<le> 2" "4 - length cs \<le> turns_left p"
    and "session_sent p = [] \<or> session_sent q = session_sent p \<and> called q = []"
  shows "turn_inv n d cs wk p q"
  using assms by (auto simp: seg_inv_def turn_inv_def)

lemma after_stream_started:
  assumes "header_started fs" "after_stream lib now sr ctx fs gw = (gw', g, q)"
  shows "session_sent q = cx_sent ctx \<and> called q = []"
  using assms
  by (auto simp: after_stream_def Let_def finish_def split: if_splits option.splits prod.splits)

lemma at_call_turns:
  "at_call d cs ctx \<Longrightarrow> length cs \<le> 2 \<and> 4 - length cs \<le> 4 - cx_attempts ctx"
  by (auto simp: at_call_def max_attempts_def)

lemma finish_turn:
  "finish now ctx res gw = (gw', g, q) \<Longrightarrow> q = Done res (cx_sent ctx)"
  by (auto simp: finish_def split: prod.splits)

lemma finish_Done: "\<exists>gw' g. finish now ctx res gw = (gw', g, Done res (cx_sent ctx))"
  by (simp add: finish_def split: prod.split)

lemma resume_inv:
  assumes "resume lib w now wk p gw = Some (gw', g, q)" "sess_inv n d cs p"
    and "n = length (gw_backends gw)" "d \<Longrightarrow> cursor_room gw"
  shows "turn_inv n d cs wk p q"
  using assms
proof (induction lib w now wk p gw rule: resume.induct)
  case (1 lib w now ctx granted start deadline gw)
  obtain g2 adm where r: "gate_resume w granted start now (gw_gate gw) = (g2, adm)" by fastforce
  with 1 have "after_admit lib now adm ctx (gw\<lparr>gw_gate := g2\<rparr>) = (gw', g, q)" by (auto split: if_splits)
  moreover have "d \<Longrightarrow> cursor_room (gw\<lparr>gw_gate := g2\<rparr>)" using 1 by (simp add: cursor_room_def)
  ultimately have "seg_inv n d [] (gw', g, q)"
    using after_admit_inv [of ctx "gw\<lparr>gw_gate := g2\<rparr>" d n lib now adm] 1 by simp
  with 1 show ?case by (intro seg_turn_inv) simp_all
next
  case (2 lib w now ur ctx gw)
  then have "seg_inv n d cs (gw', g, q)"
    using after_unary_inv [of d cs ctx n lib now ur gw] by simp
  with 2 at_call_turns [of d cs ctx] show ?case by (intro seg_turn_inv) simp_all
next
  case (3 lib w now ev ok1 ok2 ctx fs gw)
  obtain gw1 ctx1 fs1 keep where
    f: "sink_frame now ok1 ok2 ev ctx fs gw = ((gw1, ctx1, fs1), keep)" by (metis surj_pair)
  with 3 sink_frame_inv [OF f, of d cs] show ?case by (auto simp: turn_inv_def)
next
  case (4 lib w now sr ctx fs gw)
  then have "seg_inv n d cs (gw', g, q)"
    using after_stream_inv [of d cs ctx fs n lib now sr gw] by simp
  moreover have "session_sent (ChatStream ctx fs) = [] \<or>
      session_sent q = session_sent (ChatStream ctx fs) \<and> called q = []"
    using 4 after_stream_started [of fs lib now sr ctx gw gw' g q]
    by (cases "header_started fs") (simp_all add: stream_ok_def)
  ultimately show ?case using 4 at_call_turns [of d cs ctx] by (intro seg_turn_inv) simp_all
next
  case (5 lib w now ok ctx out gw)
  then have "q = (if ok then Done (Inr (cx_keep ctx)) (cx_sent ctx @ [out]) else Done (Inl ()) (cx_sent ctx))"
    by (auto dest!: finish_turn split: if_splits)
  with 5 show ?case by (auto simp: turn_inv_def)
next
  case (7 lib w now ok1 ok2 ok3 ctx fs plan gw)
  obtain ctx1 res where e: "end_stream ok1 ok2 ok3 plan ctx fs = (ctx1, res)" by fastforce
  with 7 have "q = Done res (cx_sent ctx1)" by (auto dest!: finish_turn)
  with 7 end_stream_inv [OF e] show ?case by (simp add: turn_inv_def)
qed (auto simp: turn_inv_def ended_ok_def)

section \<open>The invariant along a run\<close>

lemma configured_length: "configured cfg gw \<Longrightarrow> length (gw_backends gw) = length (cfg_backends cfg)"
  by (metis configured_def length_map)

lemma grant_session_simps [simp]:
  "called (grant_session p) = called p" "session_sent (grant_session p) = session_sent p"
  "turns_left (grant_session p) = turns_left p" "sess_inv n d cs (grant_session p) = sess_inv n d cs p"
  by (cases p; simp)+

lemma turn_calls_Turn: "turn_calls (Turn wk gw p) = (if is_frame wk then [] else called p)"
  by (simp add: turn_calls_def)

lemma turn_calls_grant: "turn_calls (Turn wk gw (grant_session p)) = turn_calls (Turn wk gw p)"
  by (simp add: turn_calls_Turn)

definition trail_inv :: "config \<Rightarrow> turn list \<Rightarrow> bool" where
  "trail_inv cfg trail \<longleftrightarrow>
     sess_inv (length (cfg_backends cfg)) (\<forall>t \<in> set trail. cursor_room (turn_gw t))
       (upstream_calls trail) (turn_pc (last trail)) \<and>
     own_turns trail + turns_left (turn_pc (last trail)) \<le> 5"

lemma upstream_calls_append [simp]:
  "upstream_calls (a @ b) = upstream_calls a @ upstream_calls b"
  "upstream_calls [] = []" "upstream_calls (t # b) = turn_calls t @ upstream_calls b"
  by (simp_all add: upstream_calls_def)

lemma own_turns_append [simp]:
  "own_turns (a @ b) = own_turns a + own_turns b"
  "own_turns [] = 0" "own_turns (t # b) = (if is_frame (turn_wk t) then 0 else 1) + own_turns b"
  by (simp_all add: own_turns_def)

lemma trail_turn:
  assumes "trail_inv cfg (trail @ [Turn wk0 gw0 p])" "configured cfg gw"
    and "resume lib w now wk p gw = Some (gw', g, q)"
  shows "turn_inv (length (cfg_backends cfg))
    (\<forall>t \<in> set (trail @ [Turn wk0 gw0 p, Turn (Some wk) gw q]). cursor_room (turn_gw t))
    (upstream_calls (trail @ [Turn wk0 gw0 p])) wk p q"
  using assms
  by (intro resume_inv [OF assms(3)])
     (auto simp: trail_inv_def configured_length elim!: sess_inv_mono)

lemma run_trail_inv: "request_run lib cfg w trail \<Longrightarrow> trail_inv cfg trail"
proof (induction rule: request_run.induct)
  case (arrives gw now req keep_alive gw' g p)
  then show ?case
    using handle_inv [of "cursor_room gw" gw lib w now req keep_alive]
    by (simp add: trail_inv_def arrival_inv_def turn_calls_Turn configured_length)
next
  case (resumes trail wk0 gw0 p gw now wk gw' g q)
  from trail_turn [OF resumes.IH resumes.hyps(2,3)] resumes.IH show ?case
    by (cases "is_frame wk0"; cases "is_frame (Some wk)")
       (simp_all add: trail_inv_def turn_inv_def turn_calls_Turn)
next
  case (granted trail wk0 gw0 p)
  then show ?case by (simp add: trail_inv_def turn_calls_grant)
qed

text \<open>Along a run what was sent only grows, and once something was sent nobody else is called.\<close>

definition sent_before :: "turn \<Rightarrow> turn \<Rightarrow> bool" where
  "sent_before t u \<longleftrightarrow>
     prefix (session_sent (turn_pc t)) (session_sent (turn_pc u)) \<and>
     (session_sent (turn_pc t) \<noteq> [] \<longrightarrow> turn_calls u = [])"

lemma sent_before_trans: "sent_before t u \<Longrightarrow> sent_before u v \<Longrightarrow> sent_before t v"
  unfolding sent_before_def by (auto intro: prefix_order.order_trans)

lemma run_sent_before: "request_run lib cfg w trail \<Longrightarrow> sorted_wrt sent_before trail"
proof (induction rule: request_run.induct)
  case (resumes trail wk0 gw0 p gw now wk gw' g q)
  from trail_turn [OF run_trail_inv [OF resumes.hyps(1)] resumes.hyps(2,3)]
  have "sent_before (Turn wk0 gw0 p) (Turn (Some wk) gw q)"
    by (auto simp: sent_before_def turn_inv_def turn_calls_Turn)
  with resumes.IH show ?case
    by (auto simp: sorted_wrt_append intro: sent_before_trans [of _ "Turn wk0 gw0 p"])
next
  case (granted trail wk0 gw0 p)
  then show ?case by (simp add: sorted_wrt_append sent_before_def turn_calls_grant)
qed simp

section \<open>The requests of the system are such runs\<close>

lemma configured_conf: "configured cfg gw \<longleftrightarrow> conf_of gw = (cfg, cfg_backends cfg)"
  by (auto simp: configured_def conf_of_def)

definition run_ends_in :: "lib \<Rightarrow> config \<Rightarrow> nat \<Rightarrow> session \<Rightarrow> bool" where
  "run_ends_in lib cfg i p \<longleftrightarrow> (\<exists>trail wk gw. request_run lib cfg i (trail @ [Turn wk gw p]))"

definition all_runs :: "lib \<Rightarrow> config \<Rightarrow> gw_sys \<Rightarrow> bool" where
  "all_runs lib cfg s \<longleftrightarrow>
     configured cfg (sys_gw s) \<and> (\<forall>i < length (sessions s). run_ends_in lib cfg i (sessions s ! i))"

lemma update_all:
  assumes "\<forall>i < length xs. P i (xs ! i)" "k < length xs \<Longrightarrow> P k v"
  shows "\<forall>i < length xs. P i (xs[k := v] ! i)"
  using assms by (cases "k < length xs") (auto simp: nth_list_update list_update_beyond not_less)

lemma run_ends_in_grant:
  assumes "\<forall>i < length ss. run_ends_in lib cfg i (ss ! i)"
  shows "\<forall>i < length (apply_grant g ss). run_ends_in lib cfg i (apply_grant g ss ! i)"
proof (cases g)
  case (Some w)
  have "run_ends_in lib cfg w (ss ! w) \<Longrightarrow> run_ends_in lib cfg w (grant_session (ss ! w))"
    unfolding run_ends_in_def by (blast intro: request_run.granted)
  with assms Some show ?thesis
    using update_all [where P = "run_ends_in lib cfg" and k = w and v = "grant_session (ss ! w)"] by simp
qed (use assms in simp)

lemma gw_step_runs:
  assumes "all_runs lib cfg s" "gw_step lib s t"
  shows "all_runs lib cfg t"
  using assms(2)
proof cases
  case (arrive now req keep_alive gw g pc)
  have "run_ends_in lib cfg (length (sessions s)) pc"
    using request_run.arrives arrive(3) assms(1) unfolding run_ends_in_def all_runs_def
    by (metis append_Nil)
  with assms(1) have "\<forall>i < length (sessions s @ [pc]). run_ends_in lib cfg i ((sessions s @ [pc]) ! i)"
    by (simp add: all_runs_def nth_append less_Suc_eq)
  moreover have "conf_of gw = conf_of (sys_gw s)"
    using conf.obs_handle [of lib "length (sessions s)" now req keep_alive "sys_gw s"] arrive(3) by simp
  ultimately show ?thesis
    using arrive(1) assms(1) run_ends_in_grant [of "sessions s @ [pc]"]
    by (simp add: all_runs_def configured_conf)
next
  case (wake now i wk gw g pc)
  have "run_ends_in lib cfg i pc"
    using request_run.resumes wake(3,4) assms(1) unfolding run_ends_in_def all_runs_def
    by (metis append_Cons append.assoc append_Nil)
  with assms(1) have "\<forall>j < length ((sessions s)[i := pc]). run_ends_in lib cfg j ((sessions s)[i := pc] ! j)"
    using update_all [where P = "run_ends_in lib cfg" and k = i and v = pc] by (simp add: all_runs_def)
  moreover have "conf_of gw = conf_of (sys_gw s)" using conf.obs_resume [OF wake(4)] by simp
  ultimately show ?thesis
    using wake(1) assms(1) run_ends_in_grant [of "(sessions s)[i := pc]"]
    by (simp add: all_runs_def configured_conf)
next
  case (probed k net)
  with assms(1) show ?thesis by (simp add: all_runs_def configured_conf conf_of_backend)
next
  case (forced k st gw)
  with assms(1) show ?thesis
    by (auto simp: all_runs_def configured_conf set_health_for_test_def conf_of_backend split: if_splits)
next
  case drain
  with assms(1) show ?thesis
    by (simp add: all_runs_def configured_def stop_health_monitors_def begin_drain_def comp_def)
qed

lemma new_gateway_backends:
  "new_gateway cfg = Inr gw \<Longrightarrow> list_all2 (\<lambda>bc b. new_backend bc = Inr b) (cfg_backends cfg) (gw_backends gw)"
  by (auto simp: new_gateway_def result_bind_Inr new_backends_all)

lemma gw_start_runs: "gw_start s \<and> gw_cfg (sys_gw s) = cfg \<Longrightarrow> all_runs lib cfg s"
proof -
  assume a: "gw_start s \<and> gw_cfg (sys_gw s) = cfg"
  then obtain cfg' where c: "new_gateway cfg' = Inr (sys_gw s)" "sessions s = []"
    by (auto simp: gw_start_def)
  have bs: "list_all2 (\<lambda>bc b. new_backend bc = Inr b) (cfg_backends cfg') (gw_backends (sys_gw s))"
    by (rule new_gateway_backends [OF c(1)])
  then have "map be_conf (gw_backends (sys_gw s)) = cfg_backends cfg'"
    by (induction rule: list_all2_induct) (auto dest: new_backend_fields)
  with a c new_gateway_fields [OF c(1)] show ?thesis by (simp add: all_runs_def configured_def)
qed

interpretation request_runs:
  step_invariant "\<lambda>s. gw_start s \<and> gw_cfg (sys_gw s) = cfg" "gw_step lib" "all_runs lib cfg" for lib cfg
  by unfold_locales (rule gw_start_runs, assumption, rule gw_step_runs)

text \<open>Whatever a suspended request waits for, its completion resumes it.\<close>

lemma resumable:
  "(\<exists>res out. p = Done res out) \<or> (\<exists>now wk. \<forall>gw. resume lib w now wk p gw \<noteq> None)"
proof (cases p)
  case (ChatWait ctx g start deadline)
  then have "\<forall>gw. resume lib w deadline TimerDone p gw \<noteq> None" by (simp add: Let_def case_prod_unfold)
  then show ?thesis by blast
next
  case (ChatUnary ctx)
  then have "\<forall>gw. resume lib w 0 (UnaryDone new_unary_result) p gw \<noteq> None" by simp
  then show ?thesis by blast
next
  case (ChatStream ctx fs)
  then have "\<forall>gw. resume lib w 0 (StreamDone new_stream_result) p gw \<noteq> None" by simp
  then show ?thesis by blast
next
  case (ChatEnd ctx fs plan)
  then have "\<forall>gw. resume lib w 0 (Closed3 True True True) p gw \<noteq> None"
    by (simp add: Let_def case_prod_unfold)
  then show ?thesis by blast
next
  case (ChatReply ctx out)
  then have "\<forall>gw. resume lib w 0 (Written True) p gw \<noteq> None" by simp
  then show ?thesis by blast
next
  case (PlainReply out keep)
  then have "\<forall>gw. resume lib w 0 (Written True) p gw \<noteq> None" by simp
  then show ?thesis by blast
qed simp

section \<open>A run with a retry\<close>

text \<open>
  The first upstream cannot be reached, the second one streams \<open>[DONE]\<close> and ends.
\<close>

definition done_event :: sse_event where
  "done_event = \<lparr>ev_data = ''[DONE]'', ev_event = []\<rparr>"

definition done_result :: stream_result where
  "done_result = new_stream_result\<lparr>connected := True, any_frame_forwarded := True, http_status := 200\<rparr>"

lemma retry_configured: "configured retry_config retry_gateway"
  by (simp add: configured_def retry_gateway_fields comp_def)

lemma retry_arrival:
  "\<exists>gw ctx. handle retry_lib 0 0 example_post True retry_gateway =
       (gw, None, ChatStream ctx (new_frame_state True)) \<and> cx_slot ctx = Some 0 \<and> cx_rest ctx = [1] \<and>
     cx_sent ctx = [] \<and> cx_keep ctx \<and> cx_attempts ctx = 1 \<and> cr_stream (cx_req ctx)"
proof -
  define gw0 where "gw0 = retry_gateway\<lparr>gw_in_flight := gw_in_flight retry_gateway + 1\<rparr>"
  define g1 where "g1 = (gw_gate retry_gateway)\<lparr>in_flight := 1\<rparr>"
  define ctx0 where "ctx0 = (new_ctx 0 True)\<lparr>cx_labels := Labels ''chat_completions'' [] ''m'',
    cx_req := example_request, cx_serving := [0, 1]\<rparr>"
  define gw1 where "gw1 = publish_admission_gauges (update_registry
    (observe_queue_time (cx_labels ctx0) (seconds_of 0)) (gw0\<lparr>gw_gate := g1\<rparr>))"
  have m: "cr_model example_request = ''m''" "cr_stream example_request"
    by (simp_all add: example_request_def)
  have "handle retry_lib 0 0 example_post True retry_gateway = acquire_and_go retry_lib 0 0 ctx0 gw0"
    using retry_serving [of gw0] m(1) parse_example
    by (simp add: handle_def retry_gateway_fields example_post_def handle_chat_def retry_lib_def
        gw0_def ctx0_def Let_def)
  moreover have "gate_enter 0 0 (gw_gate gw0) = (g1, Ready \<lparr>status = Admitted, queued_for = 0\<rparr>)"
    by (simp add: gw0_def g1_def retry_gateway_fields new_gate_def gate_enter_def default_server_def)
  ultimately have "handle retry_lib 0 0 example_post True retry_gateway =
      route_and_walk retry_lib 0 (ctx0\<lparr>cx_ticket := True, cx_admitted := 0\<rparr>) gw1"
    by (simp add: acquire_and_go_def after_admit_def is_admitted_def gw1_def)
  moreover have "gw_backends gw1 = gw_backends retry_gateway" "gw_cfg gw1 = retry_config" "gw_cursor gw1 = 0"
    by (simp_all add: gw1_def gw0_def publish_admission_gauges_def update_registry_def retry_gateway_fields)
  ultimately show ?thesis
    using retry_route [of gw1 "ctx0\<lparr>cx_ticket := True, cx_admitted := 0\<rparr>" 0] m(2)
    by (auto simp: ctx0_def new_ctx_def)
qed

lemma retry_second:
  assumes "cx_slot ctx = Some 0" "cx_rest ctx = [1]" "cx_sent ctx = []" "cx_attempts ctx = 1"
    and "cr_stream (cx_req ctx)"
  shows "\<exists>gw ctx1. after_stream retry_lib 0 new_stream_result ctx (new_frame_state k) retry_gateway =
      (gw, None, ChatStream ctx1 (new_frame_state (cx_keep ctx))) \<and> cx_slot ctx1 = Some 1 \<and>
    cx_sent ctx1 = [] \<and> cx_keep ctx1 = cx_keep ctx"
proof -
  define gw where "gw = drop_slot ctx (note_failure 0 ctx retry_gateway)"
  obtain gw' g q where w: "walk retry_lib 0 [1] (ctx\<lparr>cx_slot := None\<rparr>) gw = (gw', g, q)"
    by (metis surj_pair)
  have "gw_backends gw ! 1 = gw_backends retry_gateway ! 1" "length (gw_backends gw) = 2"
    by (simp_all add: gw_def drop_slot_def note_failure_def assms(1) update_limiter_def update_backend_def
        update_breaker_def update_registry_def retry_gateway_fields retry_configs)
  then have "admits 0 gw 1" "set [1] \<subseteq> {..<length (gw_backends gw)}"
    using retry_able(2) [of retry_gateway 1 0] by (simp_all add: admits_def)
  moreover have "after_stream retry_lib 0 new_stream_result ctx (new_frame_state k) retry_gateway = (gw', g, q)"
    using w assms
    by (simp add: after_stream_def new_frame_state_def stream_failed_def new_stream_result_def
        may_retry_def max_attempts_def next_backend_def gw_def Let_def del: walk.simps)
  ultimately show ?thesis
    using walk_first [OF _ _ _ w] assms by (auto simp: max_attempts_def)
qed

lemma run_turn:
  assumes "request_run lib cfg w trail" "trail \<noteq> []" "configured cfg gw"
    and "resume lib w now wk (turn_pc (last trail)) gw = Some (gw', g, q)"
  shows "request_run lib cfg w (trail @ [Turn (Some wk) gw q])"
proof -
  obtain wk0 gw0 p where l: "last trail = Turn wk0 gw0 p" by (cases "last trail")
  then have t: "trail = butlast trail @ [Turn wk0 gw0 p]" using assms(2) by (metis append_butlast_last_id)
  have "request_run lib cfg w (butlast trail @ [Turn wk0 gw0 p, Turn (Some wk) gw q])"
    by (rule request_run.resumes) (use assms l t in simp_all)
  then show ?thesis by (subst t) simp
qed

lemma retry_run:
  "\<exists>p1 p2 p3 p4. request_run retry_lib retry_config 0
      [Turn None retry_gateway p1, Turn (Some (StreamDone new_stream_result)) retry_gateway p2,
       Turn (Some (Frame done_event True True)) retry_gateway p3,
       Turn (Some (StreamDone done_result)) retry_gateway p4,
       Turn (Some (Closed3 True True True)) retry_gateway
         (Done (Inr True) (SseHeader True # sse_chunks [''[DONE]''] @ [LastChunk]))] \<and>
    called p1 = [0] \<and> called p2 = [1] \<and> called p4 = [] \<and> session_sent p3 = SseHeader True # sse_chunks [''[DONE]'']"
proof -
  obtain gwa ctx1 where a: "handle retry_lib 0 0 example_post True retry_gateway =
       (gwa, None, ChatStream ctx1 (new_frame_state True))" "cx_slot ctx1 = Some 0" "cx_rest ctx1 = [1]"
     "cx_sent ctx1 = []" "cx_keep ctx1" "cx_attempts ctx1 = 1" "cr_stream (cx_req ctx1)"
    using retry_arrival by blast
  obtain gwb ctx2 where b: "after_stream retry_lib 0 new_stream_result ctx1 (new_frame_state True) retry_gateway =
      (gwb, None, ChatStream ctx2 (new_frame_state True))" "cx_slot ctx2 = Some 1"
    "cx_sent ctx2 = []" "cx_keep ctx2"
    using retry_second [OF a(2,3,4,6,7), of True] a(5) by auto
  define fs2 where "fs2 = frame_next 0 True (new_frame_state True)"
  define ctx3 where "ctx3 = ctx2\<lparr>cx_sent := SseHeader True # sse_chunks [''[DONE]'']\<rparr>"
  have ok: "stream_ok ctx2 (new_frame_state True)" using stream_ok_new [OF b(3)] b(4) by simp
  have c: "sink_frame 0 True True done_event ctx2 (new_frame_state True) retry_gateway =
      ((update_registry (observe_frame 0 done_event ctx2 (new_frame_state True)) retry_gateway, ctx3, fs2), True)"
    using sink_frame_sent [OF _ _ ok, of True 0 True done_event retry_gateway] b(3,4)
    by (simp add: new_frame_state_def frame_out_def done_event_def ctx3_def fs2_def)
  have d: "after_stream retry_lib 0 done_result ctx3 fs2 retry_gateway =
      (note_success ctx3 retry_gateway, None, ChatEnd (ctx3\<lparr>cx_code := 200\<rparr>) fs2 CleanEnd)"
    by (simp add: after_stream_def fs2_def frame_next_def new_frame_state_def done_result_def new_stream_result_def)
  have "end_stream True True True CleanEnd (ctx3\<lparr>cx_code := 200\<rparr>) fs2 =
      (ctx3\<lparr>cx_code := 200, cx_sent := cx_sent ctx3 @ [LastChunk]\<rparr>, Inr True)"
    using b(4) by (simp add: end_stream_def close_stream_def writer_end_def fs2_def frame_next_def
        new_frame_state_def new_writer_def ctx3_def)
  moreover obtain gwe g where "finish 0 (ctx3\<lparr>cx_code := 200, cx_sent := cx_sent ctx3 @ [LastChunk]\<rparr>)
      (Inr True) retry_gateway = (gwe, g, Done (Inr True) (cx_sent ctx3 @ [LastChunk]))"
    using finish_Done [of 0 "ctx3\<lparr>cx_code := 200, cx_sent := cx_sent ctx3 @ [LastChunk]\<rparr>"
        "Inr True" retry_gateway] by auto
  ultimately have e: "resume retry_lib 0 0 (Closed3 True True True)
      (ChatEnd (ctx3\<lparr>cx_code := 200\<rparr>) fs2 CleanEnd) retry_gateway =
      Some (gwe, g, Done (Inr True) (SseHeader True # sse_chunks [''[DONE]''] @ [LastChunk]))"
    by (simp add: ctx3_def)
  let ?t1 = "Turn None retry_gateway (ChatStream ctx1 (new_frame_state True))"
  let ?t2 = "Turn (Some (StreamDone new_stream_result)) retry_gateway (ChatStream ctx2 (new_frame_state True))"
  let ?t3 = "Turn (Some (Frame done_event True True)) retry_gateway (ChatStream ctx3 fs2)"
  let ?t4 = "Turn (Some (StreamDone done_result)) retry_gateway (ChatEnd (ctx3\<lparr>cx_code := 200\<rparr>) fs2 CleanEnd)"
  have "request_run retry_lib retry_config 0 [?t1]"
    by (rule request_run.arrives [OF retry_configured a(1)])
  from run_turn [OF this _ retry_configured, of 0 "StreamDone new_stream_result"] b(1)
  have "request_run retry_lib retry_config 0 [?t1, ?t2]" by simp
  from run_turn [OF this _ retry_configured, of 0 "Frame done_event True True"] c
  have "request_run retry_lib retry_config 0 [?t1, ?t2, ?t3]" by simp
  from run_turn [OF this _ retry_configured, of 0 "StreamDone done_result"] d
  have "request_run retry_lib retry_config 0 [?t1, ?t2, ?t3, ?t4]" by simp
  from run_turn [OF this _ retry_configured, of 0 "Closed3 True True True"] e
  have "request_run retry_lib retry_config 0 [?t1, ?t2, ?t3, ?t4, Turn (Some (Closed3 True True True)) retry_gateway
      (Done (Inr True) (SseHeader True # sse_chunks [''[DONE]''] @ [LastChunk]))]" by simp
  moreover have "called (turn_pc ?t1) = [0]" "called (turn_pc ?t2) = [1]" "called (turn_pc ?t4) = []"
    "session_sent (turn_pc ?t3) = SseHeader True # sse_chunks [''[DONE]'']"
    by (simp_all add: a(2) b(2) ctx3_def)
  ultimately show ?thesis unfolding turn.sel by blast
qed

section \<open>Properties\<close>

text \<open>
  Every request of the running system is such a run.  In each reachable state of the gateway with
  any number of concurrent requests, the state of request \<open>i\<close> is the end of a run of a single
  request in an arbitrary environment of the same configuration, so what holds of all runs holds of
  every request of the system.
\<close>

theorem system_requests_run:
  assumes "gw_start s" "rtranclp (gw_step lib) s t" "i < length (sessions t)"
  shows "\<exists>trail wk gw. request_run lib (gw_cfg (sys_gw s)) i (trail @ [Turn wk gw (sessions t ! i)])"
  using request_runs.reachable_inv [of s "gw_cfg (sys_gw s)" lib t] assms
  by (simp add: all_runs_def run_ends_in_def)

theorem system_requests_run_witness:
  "\<exists>trail wk gw p. request_run example_lib example_config 0 (trail @ [Turn wk gw p]) \<and> in_chat p"
proof -
  obtain gw g pc where h: "handle example_lib 0 0 example_post True (sys_gw example_sys) = (gw, g, pc)"
    by (metis surj_pair)
  then have p: "g = None" "in_chat pc"
    by (auto simp: handle_def example_post_def example_not_draining handle_chat_def example_lib_def
        reply_def error_json_def in_chat_def ctx_view_def Let_def)
  define t where "t = \<lparr>sys_gw = gw, sessions = apply_grant g (sessions example_sys @ [pc]), sys_now = 0\<rparr>"
  have step: "gw_step example_lib example_sys t" unfolding t_def
    by (rule gw_step.arrive [where req = example_post and keep_alive = True])
       (simp_all add: h example_gateway(2,3))
  have "0 < length (sessions t)" "sessions t ! 0 = pc" "gw_cfg (sys_gw example_sys) = example_config"
    using p(1) example_gateway(2) new_gateway_fields [OF example_gateway(1)] by (simp_all add: t_def)
  with system_requests_run [OF example_start, of example_lib t 0] r_into_rtranclp [of "gw_step example_lib", OF step] p(2) show ?thesis by auto
qed

text \<open>
  C7: At most one retry, elsewhere.  Whatever the upstreams answer, a request makes at most two
  upstream calls; and unless the round-robin cursor was at its wrap-around when the request was
  routed, the second one goes to another backend than the first.
\<close>

theorem at_most_one_retry:
  assumes "request_run lib cfg w trail"
  shows "length (upstream_calls trail) \<le> 2 \<and>
    ((\<forall>t \<in> set trail. cursor_room (turn_gw t)) \<longrightarrow> distinct (upstream_calls trail))"
  using run_trail_inv [OF assms]
  by (cases "turn_pc (last trail)")
     (auto simp: trail_inv_def at_call_def ended_ok_def max_attempts_def)

theorem at_most_one_retry_witness:
  "\<exists>trail. request_run retry_lib retry_config 0 trail \<and> upstream_calls trail = [0, 1] \<and>
     distinct (upstream_calls trail)"
proof -
  obtain trail where t: "request_run retry_lib retry_config 0 trail" "upstream_calls trail = [0, 1]"
    "\<forall>t \<in> set trail. cursor_room (turn_gw t)"
    using retry_run by (force simp: turn_calls_Turn retry_room)
  with at_most_one_retry [OF t(1)] show ?thesis by blast
qed

text \<open>
  C5: No failover after the first byte.  Once anything was sent to the client, no turn of the request
  calls an upstream again, and everything sent stays the beginning of what is sent later.
\<close>

theorem no_retry_after_bytes:
  assumes "request_run lib cfg w (earlier @ t # later)" "session_sent (turn_pc t) \<noteq> []"
  shows "upstream_calls later = [] \<and>
    (\<forall>u \<in> set later. prefix (session_sent (turn_pc t)) (session_sent (turn_pc u)))"
proof -
  have "\<forall>u \<in> set later. sent_before t u"
    using run_sent_before [OF assms(1)] by (simp add: sorted_wrt_append)
  with assms(2) show ?thesis by (auto simp: upstream_calls_def sent_before_def)
qed

theorem no_retry_after_bytes_witness:
  "\<exists>earlier t later. request_run retry_lib retry_config 0 (earlier @ t # later) \<and>
     session_sent (turn_pc t) \<noteq> [] \<and> length later = 2 \<and> upstream_calls later = []"
proof -
  obtain t1 t2 t3 t4 t5 where t: "request_run retry_lib retry_config 0 ([t1, t2] @ t3 # [t4, t5])"
    "session_sent (turn_pc t3) = SseHeader True # sse_chunks [''[DONE]'']"
    using retry_run by force
  then have "upstream_calls [t4, t5] = []" using no_retry_after_bytes [OF t(1)] by simp
  with t show ?thesis
    by (intro exI [of _ "[t1, t2]"] exI [of _ t3] exI [of _ "[t4, t5]"]) simp
qed

text \<open>
  Responses are framed.  What a finished request has sent is the beginning of one complete
  response (a single JSON response, or an SSE header, frames and the last chunk); and when the
  handler tells the connection loop to go on, the response is complete and has announced keep-alive.
\<close>

theorem response_framed:
  assumes "request_run lib cfg w (trail @ [Turn wk gw (Done res out)])"
  shows "partial_response out \<and> (res = Inr True \<longrightarrow> complete_response True out)"
  using run_trail_inv [OF assms] by (simp add: trail_inv_def)

theorem response_framed_witness:
  "complete_response True (SseHeader True # sse_chunks [''[DONE]''] @ [LastChunk])"
proof -
  obtain t1 t2 t3 t4 wk gw where "request_run retry_lib retry_config 0 ([t1, t2, t3, t4] @ [Turn wk gw
      (Done (Inr True) (SseHeader True # sse_chunks [''[DONE]''] @ [LastChunk]))])"
    using retry_run by force
  from response_framed [OF this] show ?thesis by simp
qed

text \<open>
  C8: Every request ends.  Frames of its stream apart, a request has at most five turns, its arrival
  included: after the fifth it has ended.  And a request that has not ended can always be resumed:
  there is a completion it is waiting for.
\<close>

theorem request_ends:
  assumes "request_run lib cfg w (trail @ [Turn wk gw p])"
  shows "own_turns (trail @ [Turn wk gw p]) \<le> 5 \<and>
    (own_turns (trail @ [Turn wk gw p]) = 5 \<longrightarrow> (\<exists>res out. p = Done res out)) \<and>
    ((\<exists>res out. p = Done res out) \<or> (\<exists>now wk'. \<forall>gw'. resume lib w now wk' p gw' \<noteq> None))"
proof -
  have inv: "trail_inv cfg (trail @ [Turn wk gw p])" by (rule run_trail_inv [OF assms])
  have "(\<exists>res out. p = Done res out) \<or> turns_left p \<noteq> 0"
    using inv by (cases p) (auto simp: trail_inv_def at_call_def max_attempts_def)
  with inv resumable [of p lib w] show ?thesis by (auto simp: trail_inv_def)
qed

theorem request_ends_witness:
  "\<exists>trail wk gw p. request_run retry_lib retry_config 0 (trail @ [Turn wk gw p]) \<and> length trail = 4 \<and>
     own_turns (trail @ [Turn wk gw p]) \<le> 5"
proof -
  obtain t1 t2 t3 t4 wk gw p where
    r: "request_run retry_lib retry_config 0 ([t1, t2, t3, t4] @ [Turn wk gw p])"
    using retry_run by force
  with request_ends [OF r] show ?thesis by (intro exI [of _ "[t1, t2, t3, t4]"]) auto
qed

end
