(* ===== verification/Gateway_Law.thy ===== *)
theory Gateway_Law
  imports Gateway_Frame
begin

text \<open>
  How a fact about the gateway is carried through the chat handler.  A client of this theory names what
  it wants to keep while the handler runs, as a predicate on the handler's locals and the gateway, and
  what it promises for the end of a segment; it shows that the handler's single moves (a breaker
  asked, a slot taken, a reply begun, the frame left) respect the two.  That every segment does is
  proved here once.
\<close>

section \<open>The contract\<close>

text \<open>
  \<open>keeps ctx gw\<close> holds while a segment runs, \<open>ends seg\<close> when it stops.  A candidate is skipped by its
  breaker (\<open>skipped\<close>), skipped at capacity (\<open>full\<close>) or taken (\<open>taken\<close>).  \<open>now\<close> is the time of the segment.
\<close>

locale handler_law =
  fixes now :: time_ns and keeps :: "chat_ctx \<Rightarrow> gateway \<Rightarrow> bool" and ends :: "segment \<Rightarrow> bool"
  assumes locals: "keeps ctx gw \<Longrightarrow> keeps (ctx\<lparr>cx_text := body, cx_spills := n\<rparr>) gw"
    and coded: "keeps ctx gw \<Longrightarrow> keeps (ctx\<lparr>cx_code := code\<rparr>) gw"
    and spilled: "keeps ctx gw \<Longrightarrow> record_spills k ctx gw = (ctx', gw') \<Longrightarrow> keeps ctx' gw'"
    and rotated: "keeps ctx gw \<Longrightarrow> keeps ctx (gw\<lparr>gw_cursor := c\<rparr>)"
    and dropped: "keeps ctx gw \<Longrightarrow> keeps (ctx\<lparr>cx_slot := None\<rparr>) (drop_slot ctx gw)"
    and skipped: "keeps ctx gw \<Longrightarrow> allow_request now (be_breaker (gw_backends gw ! k)) = (cb, dec) \<Longrightarrow>
      keeps ctx (update_breaker k (\<lambda>_. cb) gw)"
    and full: "keeps ctx gw \<Longrightarrow> allow_request now (be_breaker (gw_backends gw ! k)) = (cb, dec) \<Longrightarrow>
      allowed dec \<Longrightarrow>
      keeps ctx (update_breaker k (abort_probe now (is_probe dec)) (update_breaker k (\<lambda>_. cb) gw))"
    and taken: "keeps ctx gw \<Longrightarrow> allow_request now (be_breaker (gw_backends gw ! k)) = (cb, dec) \<Longrightarrow>
      allowed dec \<Longrightarrow> gw2 = update_breaker k (\<lambda>_. cb) gw \<Longrightarrow>
      try_acquire (be_limiter (gw_backends gw2 ! k)) = (l, True) \<Longrightarrow>
      ctx2 = ctx\<lparr>cx_slot := Some k, cx_attempts := cx_attempts ctx + 1,
        cx_labels := backend_labels k ctx gw2, cx_probe := is_probe dec, cx_rest := rest\<rparr> \<Longrightarrow>
      q = ChatUnary ctx2 \<or> q = ChatStream ctx2 (new_frame_state (cx_keep ctx)) \<Longrightarrow>
      ends (update_limiter k (\<lambda>_. l) gw2, None, q)"
    and left: "keeps ctx gw \<Longrightarrow> ends (finish now ctx res gw)"
    and replying: "keeps ctx gw \<Longrightarrow> ends (gw, None, ChatReply ctx out)"
    and closing: "keeps ctx gw \<Longrightarrow> ends (gw, None, ChatEnd ctx fs plan)"
begin

section \<open>The segments\<close>

lemma ends_if: "(c \<Longrightarrow> ends a) \<Longrightarrow> (\<not> c \<Longrightarrow> ends b) \<Longrightarrow> ends (if c then a else b)"
  by simp

lemma ends_option:
  "(x = None \<Longrightarrow> ends a) \<Longrightarrow> (\<And>y. x = Some y \<Longrightarrow> ends (f y)) \<Longrightarrow> ends (case x of None \<Rightarrow> a | Some y \<Rightarrow> f y)"
  by (simp split: option.split)

lemma ends_sum:
  "(\<And>y. x = Inl y \<Longrightarrow> ends (f y)) \<Longrightarrow> (\<And>y. x = Inr y \<Longrightarrow> ends (h y)) \<Longrightarrow>
   ends (case x of Inl y \<Rightarrow> f y | Inr y \<Rightarrow> h y)"
  by (simp split: sum.split)

lemma ends_prod: "(\<And>a b. x = (a, b) \<Longrightarrow> ends (f a b)) \<Longrightarrow> ends (case x of (a, b) \<Rightarrow> f a b)"
  by (simp split: prod.split)

lemmas ends_splits = ends_if ends_option ends_sum ends_prod

lemma reply_ends: "keeps ctx gw \<Longrightarrow> ends (reply now ctx code body gw)"
  unfolding reply_def Let_def by (intro ends_option left replying coded)

lemma walk_ends: "keeps ctx gw \<Longrightarrow> ends (walk lib now order ctx gw)"
proof (induction order arbitrary: ctx gw)
  case Nil
  then show ?case by (simp add: exhausted_def reply_ends)
next
  case (Cons k rest)
  obtain ctx1 gw1 where sp: "record_spills k ctx gw = (ctx1, gw1)" by fastforce
  obtain cb dec where al: "allow_request now (be_breaker (gw_backends gw1 ! k)) = (cb, dec)" by fastforce
  define gw2 where "gw2 = update_breaker k (\<lambda>_. cb) gw1"
  obtain l got where ac: "try_acquire (be_limiter (gw_backends gw2 ! k)) = (l, got)" by fastforce
  note turn = walk_turn [OF _ sp al gw2_def ac] and k1 = spilled [OF Cons.prems sp]
  show ?case
  proof (cases "cx_attempts ctx < max_attempts")
    case False
    with Cons.prems show ?thesis by (simp add: exhausted_def reply_ends)
  next
    case att: True
    have "ends (walk lib now rest ctx1 gw2)"
      unfolding gw2_def by (rule Cons.IH [OF skipped [OF k1 al]])
    moreover have "ends (walk lib now rest ctx1 (update_breaker k (abort_probe now (is_probe dec)) gw2))"
      if "allowed dec" unfolding gw2_def by (rule Cons.IH [OF full [OF k1 al that]])
    moreover have "ends (walk lib now (k # rest) ctx gw)" if "allowed dec" "got"
      unfolding turn(3) [OF att that refl] using ac that
      by (intro taken [OF k1 al that(1) gw2_def _ refl]) simp_all
    ultimately show ?thesis
      by (cases "allowed dec"; cases got) (simp_all only: turn(1,2) [OF att] not_False_eq_True)
  qed
qed

lemma next_backend_ends: "keeps ctx gw \<Longrightarrow> ends (next_backend lib now ctx gw)"
  unfolding next_backend_def by (intro walk_ends dropped)

lemma after_unary_ends:
  "keeps ctx (note_failure now ctx gw) \<Longrightarrow> keeps ctx (note_success ctx gw) \<Longrightarrow>
   ends (after_unary lib now ur ctx gw)"
  unfolding after_unary_def by (intro ends_if next_backend_ends reply_ends)

lemma after_stream_unsent:
  "\<not> header_started fs \<Longrightarrow> keeps ctx (note_failure now ctx gw) \<Longrightarrow> keeps ctx (note_success ctx gw) \<Longrightarrow>
   ends (after_stream lib now sr ctx fs gw)"
  unfolding after_stream_def Let_def if_True simp_thms
  by (intro ends_if next_backend_ends reply_ends closing) simp_all

lemma after_stream_ends:
  assumes "keeps ctx gw" "keeps ctx (note_failure now ctx gw)" "keeps ctx (note_success ctx gw)"
  shows "ends (after_stream lib now sr ctx fs gw)"
  unfolding after_stream_def Let_def
  by (intro ends_splits next_backend_ends reply_ends left closing coded) (simp_all add: assms)

lemma order_keeps:
  "order_candidates lib creq cs gw = Some (gw', order, spills) \<Longrightarrow> keeps ctx gw \<Longrightarrow> keeps ctx gw'"
  by (auto simp: order_candidates_def Let_def rotated split: if_splits option.splits prod.splits)

lemma route_and_walk_ends: "keeps ctx gw \<Longrightarrow> ends (route_and_walk lib now ctx gw)"
  unfolding route_and_walk_def Let_def
  by (intro ends_splits reply_ends left walk_ends locals) (auto dest: order_keeps)

lemma after_admit_ends:
  assumes "\<not> is_admitted adm \<Longrightarrow>
      keeps ctx (update_registry (observe_queue_time (cx_labels ctx) (seconds_of (queued_for adm))) gw)"
    and "is_admitted adm \<Longrightarrow> keeps (ctx\<lparr>cx_ticket := True, cx_admitted := now\<rparr>) (publish_admission_gauges
      (update_registry (observe_queue_time (cx_labels ctx) (seconds_of (queued_for adm))) gw))"
  shows "ends (after_admit lib now adm ctx gw)"
  unfolding after_admit_def Let_def using assms by (intro ends_if reply_ends route_and_walk_ends) simp_all

text \<open>Up to the gate; what happens at the gate is the client's.\<close>

lemma handle_chat_ends:
  assumes "keeps (new_ctx now keep) gw"
    and "\<And>creq serving. keeps ((new_ctx now keep)\<lparr>cx_labels := Labels ''chat_completions'' [] (cr_model creq),
      cx_req := creq, cx_serving := serving\<rparr>) gw"
    and "\<And>creq. ends (acquire_and_go lib w now ((new_ctx now keep)\<lparr>
      cx_labels := Labels ''chat_completions'' [] (cr_model creq), cx_req := creq,
      cx_serving := backends_for_model (cr_model creq) gw\<rparr>) gw)"
  shows "ends (handle_chat lib w now body keep gw)"
  unfolding handle_chat_def Let_def by (intro ends_splits reply_ends left assms)

end

end
