(* ===== verification/Gateway_Accounting.thy ===== *)
theory Gateway_Accounting
  imports Gateway_Session Gateway_Law
begin

text \<open>
  What a request leaves in \<open>requests_total\<close>: nothing while it is under way, and one count of the
  status the client was sent when it ends.
\<close>

section \<open>The request counters\<close>

definition codes :: "gateway \<Rightarrow> (string \<times> u64) list" where
  "codes gw = requests_total (gw_registry gw)"

text \<open>The status a response carries; an SSE header is a 200.\<close>

fun response_code :: "wire list \<Rightarrow> int option" where
  "response_code (JsonResponse code keep retry body # out) = Some code"
| "response_code (SseHeader keep # out) = Some 200"
| "response_code out = None"

definition counted :: "int \<Rightarrow> (string \<times> u64) list \<Rightarrow> (string \<times> u64) list" where
  "counted code m = (if code = 0 then m else bump (int_to_string code) 1 m)"

text \<open>A segment that started with the counters \<open>m\<close>.\<close>

definition seg_codes :: "(string \<times> u64) list \<Rightarrow> segment \<Rightarrow> bool" where
  "seg_codes m seg =
     (case seg of (gw, g, q) \<Rightarrow>
        (case q of
           Done res out \<Rightarrow>
             (\<exists>code. codes gw = counted code m \<and> (out \<noteq> [] \<longrightarrow> code \<noteq> 0 \<and> response_code out = Some code))
         | _ \<Rightarrow> codes gw = m))"

lemma requests_total_ops [simp]:
  "requests_total (observe_ttft l v r) = requests_total r" "requests_total (observe_itl l v r) = requests_total r"
  "requests_total (observe_e2e l v r) = requests_total r" "requests_total (observe_queue_time l v r) = requests_total r"
  "requests_total (observe_overhead l v r) = requests_total r"
  "requests_total (inc_affinity_spills l n r) = requests_total r"
  "requests_total (inc_backend_failures l n r) = requests_total r"
  "requests_total (set_requests_running v' r) = requests_total r"
  "requests_total (set_requests_waiting v' r) = requests_total r"
  "requests_total (observe_frame now ev ctx fs r) = requests_total r"
  by (simp_all add: registry_defs observe_frame_def)

lemma codes_registry [simp]: "codes (update_registry f gw) = requests_total (f (gw_registry gw))"
  by (simp add: codes_def update_registry_def)

lemma gw_registry_codes: "requests_total (gw_registry gw) = codes gw"
  by (simp add: codes_def)

lemma codes_updates [simp]:
  "codes (update_backend k f gw) = codes gw" "codes (update_breaker k h gw) = codes gw"
  "codes (update_limiter k l gw) = codes gw" "codes (gw\<lparr>gw_gate := x\<rparr>) = codes gw"
  "codes (gw\<lparr>gw_cursor := c\<rparr>) = codes gw" "codes (gw\<lparr>gw_in_flight := n\<rparr>) = codes gw"
  by (simp_all add: codes_def update_breaker_def update_limiter_def update_backend_def)

lemma codes_helpers [simp]:
  "codes (drop_slot ctx gw) = codes gw" "codes (fst (drop_ticket ctx gw)) = codes gw"
  "codes (note_failure now ctx gw) = codes gw" "codes (note_success ctx gw) = codes gw"
  "codes (snd (record_spills k ctx gw)) = codes gw" "codes (publish_admission_gauges gw) = codes gw"
  "codes (fst (fst (sink_frame now ok1 ok2 ev ctx fs gw))) = codes gw"
  by (auto simp: drop_slot_def drop_ticket_def note_failure_def note_success_def record_spills_def
      publish_admission_gauges_def sink_frame_def Let_def gw_registry_codes
      split: option.split prod.split sum.split)

lemma codes_finish:
  "codes (fst (finish now ctx res gw)) = counted (cx_code ctx) (codes gw)"
proof -
  obtain gw1 g where d: "drop_ticket ctx (drop_slot ctx gw) = (gw1, g)" by fastforce
  have "codes gw1 = codes gw" using codes_helpers(2) [of ctx "drop_slot ctx gw", unfolded d] by simp
  with d show ?thesis
    by (simp add: finish_def record_terminal_def inc_requests_total_def counted_def gw_registry_codes)
qed

lemma finish_codes:
  assumes "codes gw = m"
    and "cx_sent ctx \<noteq> [] \<Longrightarrow> cx_code ctx \<noteq> 0 \<and> response_code (cx_sent ctx) = Some (cx_code ctx)"
  shows "seg_codes m (finish now ctx res gw)"
proof -
  obtain gw' g where f: "finish now ctx res gw = (gw', g, Done res (cx_sent ctx))"
    using finish_Done by blast
  with codes_finish [of now ctx res gw] assms show ?thesis by (auto simp: seg_codes_def)
qed

lemma suspended_codes:
  "codes gw = m \<Longrightarrow> \<forall>res out. q \<noteq> Done res out \<Longrightarrow> seg_codes m (gw, g, q)"
  by (cases q) (simp_all add: seg_codes_def)

text \<open>As long as nothing was sent the counters stay as they were.\<close>

interpretation uncounted: handler_law now "\<lambda>ctx gw. cx_sent ctx = [] \<and> codes gw = m" "seg_codes m" for now m
proof (unfold_locales, goal_cases)
  case (3 ctx gw k ctx' gw')
  then show ?case
    using codes_helpers(5) [of k ctx gw] record_spills_fields [of k ctx gw ctx' gw'] by simp
next
  case (8 ctx gw k cb dec gw2 l ctx2 rest q)
  then show ?case by (intro suspended_codes) auto
qed (auto intro: finish_codes suspended_codes)

lemma after_stream_codes:
  assumes "stream_ok ctx fs" "codes gw = m"
  shows "seg_codes m (after_stream lib now sr ctx fs gw)"
proof (cases "header_started fs")
  case False
  with assms show ?thesis
    by (intro uncounted.after_stream_unsent) (auto simp: stream_ok_def)
next
  case True
  with assms(1) have code: "response_code (cx_sent ctx) = Some 200" by (auto simp: stream_ok_def)
  show ?thesis
    using True unfolding after_stream_def Let_def
    by (auto simp: assms(2) code intro!: finish_codes suspended_codes split: option.split)
qed

lemma after_admit_codes:
  "cx_sent ctx = [] \<Longrightarrow> codes gw = m \<Longrightarrow> seg_codes m (after_admit lib now adm ctx gw)"
  by (intro uncounted.after_admit_ends) (simp_all add: gw_registry_codes)

lemma resume_codes:
  assumes "resume lib w now wk p gw = Some seg" "sess_inv n d cs p" "\<And>out keep. p \<noteq> PlainReply out keep"
  shows "seg_codes (codes gw) seg"
  using assms
proof (induction lib w now wk p gw rule: resume.induct)
  case (1 lib w now ctx granted start deadline gw)
  then show ?case by (auto intro!: after_admit_codes split: if_splits prod.splits)
next
  case (3 lib w now ev ok1 ok2 ctx fs gw)
  obtain gw1 ctx1 fs1 k where f: "sink_frame now ok1 ok2 ev ctx fs gw = ((gw1, ctx1, fs1), k)"
    by (metis surj_pair)
  with 3 codes_helpers(7) [of now ok1 ok2 ev ctx fs gw, unfolded f] show ?case
    by (auto simp: seg_codes_def)
next
  case (5 lib w now ok ctx out gw)
  then show ?case by (auto intro!: finish_codes split: if_splits)
next
  case (7 lib w now ok1 ok2 ok3 ctx fs plan gw)
  obtain ctx1 res where e: "end_stream ok1 ok2 ok3 plan ctx fs = (ctx1, res)" by fastforce
  with 7 have inv: "cx_sent ctx1 \<noteq> [] \<longrightarrow> hd (cx_sent ctx1) = SseHeader (cx_keep ctx) \<and> cx_code ctx1 = 200"
    using end_stream_inv [OF e] by auto
  then have "cx_sent ctx1 \<noteq> [] \<Longrightarrow> cx_code ctx1 \<noteq> 0 \<and> response_code (cx_sent ctx1) = Some (cx_code ctx1)"
    by (cases "cx_sent ctx1") simp_all
  with 7 e show ?case by (auto intro!: finish_codes)
qed (auto intro!: uncounted.after_unary_ends after_stream_codes)

section \<open>Properties\<close>

text \<open>
  C9: Every response is counted once, under the status the client was sent.  A turn of a chat request
  that leaves it suspended does not touch \<open>requests_total\<close>; the turn that ends it adds at most one
  count, and if anything was sent it adds exactly one, to the counter of the response's status.
\<close>

theorem response_counted_once:
  assumes "request_run lib cfg w (trail @ [Turn wk0 gw0 p])" "\<And>out keep. p \<noteq> PlainReply out keep"
    and "resume lib w now wk p gw = Some (gw', g, q)"
  shows "case q of
      Done res out \<Rightarrow>
        (\<exists>code. codes gw' = counted code (codes gw) \<and>
           (out \<noteq> [] \<longrightarrow> code \<noteq> 0 \<and> response_code out = Some code))
    | _ \<Rightarrow> codes gw' = codes gw"
  using resume_codes [OF assms(3) _ assms(2)] run_trail_inv [OF assms(1)]
  by (fastforce simp: seg_codes_def trail_inv_def)

theorem response_counted_once_witness:
  "\<exists>p gw' g out. resume example_lib 0 0 (Written True) p (sys_gw example_sys) = Some (gw', g, Done (Inr True) out) \<and>
     response_code out = Some 400 \<and> codes gw' = counted 400 (codes (sys_gw example_sys))"
proof -
  define gw where "gw = sys_gw example_sys"
  define ctx where "ctx = (new_ctx 0 True)\<lparr>cx_code := 400\<rparr>"
  define out where "out = json_response True 400 ''{}''"
  define gw0 where "gw0 = gw\<lparr>gw_in_flight := gw_in_flight gw + 1\<rparr>"
  have "handle example_lib 0 0 example_post True gw = (gw0, None, ChatReply ctx out)"
    using example_not_draining
    by (simp add: handle_def example_post_def handle_chat_def example_lib_def reply_def error_json_def
        gw_def ctx_def out_def gw0_def new_ctx_def)
  moreover have conf: "configured example_config gw"
    using gw_start_runs [of example_sys example_config] example_start
      new_gateway_fields [OF example_gateway(1)] by (simp add: all_runs_def gw_def)
  ultimately have r: "request_run example_lib example_config 0 ([] @ [Turn None gw (ChatReply ctx out)])"
    using request_run.arrives [OF conf] by simp
  obtain gw' g where f: "resume example_lib 0 0 (Written True) (ChatReply ctx out) gw =
      Some (gw', g, Done (Inr True) [out])"
    using finish_Done [of 0 "ctx\<lparr>cx_sent := cx_sent ctx @ [out]\<rparr>" "Inr True" gw]
    by (auto simp: ctx_def new_ctx_def)
  from response_counted_once [OF r _ f] have "codes gw' = counted 400 (codes gw)"
    by (auto simp: out_def json_response_def)
  moreover have "response_code [out] = Some 400" by (simp add: out_def json_response_def)
  ultimately show ?thesis using f unfolding gw_def by blast
qed

end
