(* ===== verification/Gateway_Fragile.thy ===== *)
theory Gateway_Fragile
  imports Gateway_Session
begin

text \<open>
  A second run of the whole gateway, from its start: one backend whose breaker opens at the first
  failure.  A health probe finds the backend ready, the first request's connection fails, and ten
  seconds later the second request is the half-open probe; its client hangs up after the first frame.
\<close>

section \<open>The start\<close>

definition fragile_config :: config where
  "fragile_config = example_config\<lparr>cfg_routing := (cfg_routing example_config)\<lparr>rc_policy := RoundRobin\<rparr>,
     cfg_backends := [default_backend\<lparr>bc_name := ''a'', bc_base_url := ''http://h'', bc_models := [''m''],
       bc_failure_threshold := 1\<rparr>]\<rparr>"

definition fragile_gateway :: gateway where
  "fragile_gateway = (case new_gateway fragile_config of Inr gw \<Rightarrow> gw | Inl _ \<Rightarrow> undefined)"

definition fragile_start :: gw_sys where
  "fragile_start = \<lparr>sys_gw = fragile_gateway, sessions = [], sys_now = 0\<rparr>"

text \<open>
  One backend with \<open>a\<close> slots taken and the breaker \<open>cb\<close>, ready, serving the model \<open>m\<close>; \<open>n\<close> slots of
  the gate are taken and nobody waits.
\<close>

definition lone :: "int \<Rightarrow> int \<Rightarrow> circuit_breaker \<Rightarrow> gateway \<Rightarrow> bool" where
  "lone a n cb gw \<longleftrightarrow>
     (\<exists>b. gw_backends gw = [b] \<and> bc_models (be_conf b) = [''m''] \<and> observed_health b = Healthy \<and>
        be_breaker b = cb \<and> be_limiter b = \<lparr>lim_max = 8, lim_active = a\<rparr>) \<and>
     \<not> gw_draining gw \<and> rc_policy (cfg_routing (gw_cfg gw)) = RoundRobin \<and>
     max_concurrent (gw_gate gw) = 256 \<and> in_flight (gw_gate gw) = n \<and> waiters (gw_gate gw) = []"

definition fragile_breaker :: circuit_breaker where
  "fragile_breaker = new_breaker 1 10000000000"

lemma fragile_new: "new_gateway fragile_config = Inr fragile_gateway"
  and fragile_probed: "lone 0 0 fragile_breaker (update_backend 0
    (\<lambda>b. b\<lparr>be_health := probe_once (\<lambda>_. UResponse 200 []) (be_health b)\<rparr>) fragile_gateway)"
  by (simp_all add: fragile_gateway_def new_gateway_def fragile_config_def example_config_def default_config_def
      new_backend_def parse_target_def strip_scheme_def starts_with_def strip_path_def split_port_def
      default_backend_def lone_def update_backend_def observed_health_def new_monitor_def probe_once_def
      evaluate_health_endpoint_def to_probe_def client_get_def unary_call_def fragile_breaker_def of_ms_def new_limiter_def
      new_gate_def default_server_def)

lemma fragile_start: "gw_start fragile_start"
proof -
  have "config_ok fragile_config"
    using example_config_ok
    by (simp add: config_ok_def fragile_config_def example_config_def backend_ok_def routing_ok_def)
  then show ?thesis
    using fragile_new by (auto simp: gw_start_def fragile_start_def intro!: exI [of _ fragile_config])
      (simp add: fragile_config_def)
qed

lemma lone_updates [simp]:
  "lone a n cb (gw\<lparr>gw_in_flight := k\<rparr>) = lone a n cb gw" "lone a n cb (gw\<lparr>gw_cursor := c\<rparr>) = lone a n cb gw"
  "lone a n cb (update_registry r gw) = lone a n cb gw"
  "lone a n cb (publish_admission_gauges gw) = lone a n cb gw"
  by (simp_all add: lone_def update_registry_def publish_admission_gauges_def)

lemma observed_frame [simp]:
  "observed_health (b\<lparr>be_breaker := x\<rparr>) = observed_health b" "observed_health (b\<lparr>be_limiter := l\<rparr>) = observed_health b"
  by (simp_all add: observed_health_def split: option.split)

section \<open>The moves\<close>

text \<open>A request that the breaker lets through calls the backend.\<close>

lemma lone_route:
  assumes "lone a n cb gw" "a < 8" "allow_request t cb = (cb', dec)" "allowed dec"
    and "cx_serving ctx = [0]" "cx_attempts ctx = 0" "cr_stream (cx_req ctx)"
  obtains gw' ctx' where "route_and_walk retry_lib t ctx gw = (gw', None, ChatStream ctx' (new_frame_state (cx_keep ctx)))"
    "cx_slot ctx' = Some 0" "cx_probe ctx' = is_probe dec" "cx_rest ctx' = []" "cx_sent ctx' = cx_sent ctx"
    "lone (a + 1) n cb' gw'"
proof -
  obtain b where b: "gw_backends gw = [b]" "be_breaker b = cb" "observed_health b = Healthy"
    "be_limiter b = \<lparr>lim_max = 8, lim_active = a\<rparr>" using assms(1) by (auto simp: lone_def)
  let ?ctx = "ctx\<lparr>cx_text := ''{}'', cx_spills := 0\<rparr>" and ?c = "gw_cursor gw + 1"
  let ?gw2 = "update_breaker 0 (\<lambda>_. cb') (gw\<lparr>gw_cursor := ?c\<rparr>)"
  let ?ctx2 = "?ctx\<lparr>cx_slot := Some 0, cx_attempts := 1, cx_labels := backend_labels 0 ?ctx ?gw2,
    cx_probe := is_probe dec, cx_rest := []\<rparr>"
  let ?gw3 = "update_limiter 0 (\<lambda>_. \<lparr>lim_max = 8, lim_active = a + 1\<rparr>) ?gw2"
  have e: "eligible_candidates [0] gw = [\<lparr>backend_index = 0, active_requests = a, cand_max = 8\<rparr>]"
    using b by (simp add: eligible_candidates_def)
  then have o: "order_candidates retry_lib (cx_req ctx) (eligible_candidates [0] gw) gw =
      Some (gw\<lparr>gw_cursor := ?c\<rparr>, [0], 0)"
    using assms(1) by (simp add: order_candidates_def lone_def round_robin_order_def Let_def)
  have "walk retry_lib t [0] ?ctx (gw\<lparr>gw_cursor := ?c\<rparr>) =
      (?gw3, None, ChatStream ?ctx2 (new_frame_state (cx_keep ctx)))"
    using b assms(2-7)
    by (simp add: record_spills_def try_acquire_def max_attempts_def update_breaker_def update_backend_def Let_def)
  with o e have "route_and_walk retry_lib t ctx gw = (?gw3, None, ChatStream ?ctx2 (new_frame_state (cx_keep ctx)))"
    by (simp add: route_and_walk_def assms(5) retry_dump del: walk.simps)
  then show ?thesis
    by (rule that) (use assms(1) in \<open>auto simp: lone_def update_limiter_def update_breaker_def update_backend_def\<close>)
qed

lemma lone_arrival:
  assumes "lone a n cb gw" "a < 8" "n < 256" "allow_request t cb = (cb', dec)" "allowed dec"
  obtains gw' ctx where "handle retry_lib w t example_post True gw = (gw', None, ChatStream ctx (new_frame_state True))"
    "cx_slot ctx = Some 0" "cx_probe ctx = is_probe dec" "cx_rest ctx = []" "cx_sent ctx = []"
    "lone (a + 1) (n + 1) cb' gw'"
proof -
  let ?ctx = "(new_ctx t True)\<lparr>cx_labels := Labels ''chat_completions'' [] ''m'', cx_req := example_request,
    cx_serving := [0]\<rparr>"
  let ?gw0 = "gw\<lparr>gw_in_flight := gw_in_flight gw + 1\<rparr>"
  let ?gw1 = "publish_admission_gauges (update_registry (observe_queue_time (cx_labels ?ctx) (seconds_of 0))
    (?gw0\<lparr>gw_gate := (gw_gate gw)\<lparr>in_flight := n + 1\<rparr>\<rparr>))"
  have m: "cr_model example_request = ''m''" "cr_stream example_request" by (simp_all add: example_request_def)
  have "backends_for_model ''m'' ?gw0 = [0]" using assms(1) by (auto simp: backends_for_model_def lone_def)
  then have "handle retry_lib w t example_post True gw = acquire_and_go retry_lib w t ?ctx ?gw0"
    using assms(1) m(1) parse_example
    by (simp add: handle_def example_post_def handle_chat_def retry_lib_def lone_def Let_def)
  also have "\<dots> = route_and_walk retry_lib t (?ctx\<lparr>cx_ticket := True, cx_admitted := t\<rparr>) ?gw1"
    using assms(1,3) by (simp add: acquire_and_go_def gate_enter_def lone_def after_admit_def is_admitted_def)
  finally have h: "handle retry_lib w t example_post True gw =
      route_and_walk retry_lib t (?ctx\<lparr>cx_ticket := True, cx_admitted := t\<rparr>) ?gw1" .
  have "lone a (n + 1) cb ?gw1" using assms(1) by (simp add: lone_def publish_admission_gauges_def update_registry_def)
  from lone_route [OF this assms(2,4,5), of "?ctx\<lparr>cx_ticket := True, cx_admitted := t\<rparr>"] m(2)
  obtain gw' ctx' where "route_and_walk retry_lib t (?ctx\<lparr>cx_ticket := True, cx_admitted := t\<rparr>) ?gw1 =
      (gw', None, ChatStream ctx' (new_frame_state True))"
    "cx_slot ctx' = Some 0" "cx_probe ctx' = is_probe dec" "cx_rest ctx' = []" "cx_sent ctx' = []"
    "lone (a + 1) (n + 1) cb' gw'" by (auto simp: new_ctx_def)
  with h show ?thesis by (intro that) simp_all
qed

text \<open>Its connection fails: the breaker hears of it, the client is told.\<close>

lemma lone_failure:
  assumes "lone a n cb gw" "cx_slot ctx = Some 0" "cx_rest ctx = []"
  obtains gw' ctx' out where "resume retry_lib w t (StreamDone new_stream_result)
      (ChatStream ctx (new_frame_state True)) gw = Some (gw', None, ChatReply ctx' out)"
    "lone a n (on_failure t (cx_probe ctx) cb) gw'"
proof -
  have "resume retry_lib w t (StreamDone new_stream_result) (ChatStream ctx (new_frame_state True)) gw =
      Some (note_failure t ctx gw, None, ChatReply (ctx\<lparr>cx_code := 502\<rparr>) (json_response (cx_keep ctx) 502 ''{}''))"
    using assms(3)
    by (simp add: after_stream_def new_frame_state_def stream_failed_def new_stream_result_def may_retry_def
        reply_def error_json_def retry_dump)
  then show ?thesis
    by (rule that) (use assms(1,2) in \<open>auto simp: note_failure_def lone_def update_registry_def update_breaker_def
        update_backend_def\<close>)
qed

text \<open>The client of a stream hangs up after the header and before the first chunk.\<close>

lemma lone_hangup:
  assumes "lone a n cb gw"
  obtains gw' ctx' fs where "resume retry_lib w t (Frame ev True False) (ChatStream ctx (new_frame_state True)) gw =
      Some (gw', None, ChatStream ctx' fs)"
    "cx_slot ctx' = cx_slot ctx" "cx_probe ctx' = cx_probe ctx" "header_started fs" "downstream_dead fs"
    "lone a n cb gw'"
proof -
  let ?fs = "new_frame_state True"
  let ?w = "(fs_writer ?fs)\<lparr>header_sent := True\<rparr>"
  have "resume retry_lib w t (Frame ev True False) (ChatStream ctx ?fs) gw =
      Some (update_registry (observe_frame t ev ctx ?fs) gw, None,
        ChatStream (ctx\<lparr>cx_sent := cx_sent ctx @ [SseHeader True]\<rparr>) (?fs\<lparr>fs_writer := ?w, header_started := True,
          first_frame_seen := True, t_prev_frame := t, downstream_dead := True\<rparr>))"
    by (simp add: sink_frame_def new_frame_state_def new_writer_def writer_begin_def write_data_def)
  then show ?thesis by (rule that) (use assms in simp_all)
qed

section \<open>The run\<close>

definition half_open :: circuit_breaker where
  "half_open = (on_failure 0 False fragile_breaker)\<lparr>br_state := HalfOpen\<rparr>"

lemma fragile_decisions:
  "allow_request 0 fragile_breaker = (fragile_breaker, \<lparr>allowed = True, is_probe = False\<rparr>)"
  "allow_request 10000000000 (on_failure 0 False fragile_breaker) = (half_open, \<lparr>allowed = True, is_probe = True\<rparr>)"
  by (simp_all add: allow_request_def fragile_breaker_def new_breaker_def on_failure_def half_open_def)

lemma fragile_run:
  obtains s ctx0 out ctx fs where "rtranclp (gw_step retry_lib) fragile_start s"
    "sessions s = [ChatReply ctx0 out, ChatStream ctx fs]" "cx_slot ctx = Some 0" "cx_probe ctx"
    "header_started fs" "downstream_dead fs" "lone 2 2 half_open (sys_gw s)"
proof -
  let ?new = "new_frame_state True" and ?t = "10000000000 :: time_ns"
  define s1 where "s1 = fragile_start\<lparr>sys_gw := update_backend 0
    (\<lambda>b. b\<lparr>be_health := probe_once (\<lambda>_. UResponse 200 []) (be_health b)\<rparr>) fragile_gateway\<rparr>"
  have l1: "lone 0 0 fragile_breaker (sys_gw s1)" using fragile_probed by (simp add: s1_def)
  then have "0 < length (gw_backends fragile_gateway)" by (auto simp: lone_def s1_def update_backend_def)
  then have st1: "gw_step retry_lib fragile_start s1"
    using gw_step.probed [of 0 fragile_start retry_lib "\<lambda>_. UResponse 200 []"] by (simp add: s1_def fragile_start_def)
  obtain gw2 ctx2 where a2: "handle retry_lib 0 0 example_post True (sys_gw s1) = (gw2, None, ChatStream ctx2 ?new)"
    "cx_slot ctx2 = Some 0" "\<not> cx_probe ctx2" "cx_rest ctx2 = []" "lone 1 1 fragile_breaker gw2"
    by (rule lone_arrival [OF l1 _ _ fragile_decisions(1)]) simp_all
  define s2 where "s2 = \<lparr>sys_gw = gw2, sessions = [ChatStream ctx2 ?new], sys_now = 0\<rparr>"
  have st2: "gw_step retry_lib s1 s2"
    using gw_step.arrive [of s1 0 retry_lib example_post True gw2 None "ChatStream ctx2 ?new"] a2(1)
    by (simp add: s1_def s2_def fragile_start_def)
  obtain gw3 ctx3 out where a3: "resume retry_lib 0 0 (StreamDone new_stream_result) (ChatStream ctx2 ?new) gw2 =
      Some (gw3, None, ChatReply ctx3 out)" "lone 1 1 (on_failure 0 (cx_probe ctx2) fragile_breaker) gw3"
    by (rule lone_failure [OF a2(5,2,4)])
  then have l3: "lone 1 1 (on_failure 0 False fragile_breaker) gw3" using a2(3) by simp
  define s3 where "s3 = \<lparr>sys_gw = gw3, sessions = [ChatReply ctx3 out], sys_now = 0\<rparr>"
  have st3: "gw_step retry_lib s2 s3"
    using gw_step.wake [of s2 0 0 retry_lib "StreamDone new_stream_result" gw3 None "ChatReply ctx3 out"] a3(1)
    by (simp add: s2_def s3_def)
  obtain gw4 ctx4 where a4: "handle retry_lib 1 ?t example_post True gw3 = (gw4, None, ChatStream ctx4 ?new)"
    "cx_slot ctx4 = Some 0" "cx_probe ctx4" "lone 2 2 half_open gw4"
    by (rule lone_arrival [OF l3 _ _ fragile_decisions(2)]) simp_all
  define s4 where "s4 = \<lparr>sys_gw = gw4, sessions = [ChatReply ctx3 out, ChatStream ctx4 ?new], sys_now = ?t\<rparr>"
  have st4: "gw_step retry_lib s3 s4"
    using gw_step.arrive [of s3 ?t retry_lib example_post True gw4 None "ChatStream ctx4 ?new"] a4(1)
    by (simp add: s3_def s4_def)
  obtain gw5 ctx5 fs where a5: "resume retry_lib 1 ?t (Frame done_event True False) (ChatStream ctx4 ?new) gw4 =
      Some (gw5, None, ChatStream ctx5 fs)" "cx_slot ctx5 = cx_slot ctx4" "cx_probe ctx5 = cx_probe ctx4"
    "header_started fs" "downstream_dead fs" "lone 2 2 half_open gw5" by (rule lone_hangup [OF a4(4)])
  define s5 where "s5 = \<lparr>sys_gw = gw5, sessions = [ChatReply ctx3 out, ChatStream ctx5 fs], sys_now = ?t\<rparr>"
  have st5: "gw_step retry_lib s4 s5"
    using gw_step.wake [of s4 ?t 1 retry_lib "Frame done_event True False" gw5 None "ChatStream ctx5 fs"] a5(1)
    by (simp add: s4_def s5_def)
  have "rtranclp (gw_step retry_lib) fragile_start s5"
    using st1 st2 st3 st4 st5 by (meson rtranclp.rtrancl_into_rtrancl rtranclp.rtrancl_refl)
  then show ?thesis
    by (rule that [of s5 ctx3 out ctx5 fs]) (use a4(2,3) a5(2-6) in \<open>simp_all add: s5_def\<close>)
qed

end
