(* ===== verification/Gateway_Blackout.thy ===== *)
theory Gateway_Blackout
  imports Gateway_Session Gateway_Law Gateway_Fragile
begin

text \<open>
  What a breaker that denies does for its backend, in the whole gateway.  While the window of an open
  breaker lasts, no request begins to call the backend.  A half-open breaker whose probe is lost
  denies as well, and then nothing ends it: a backend whose breaker is half-open while no request is
  calling it is never called again, whatever requests arrive, whatever its health probes report.
\<close>

section \<open>A backend nobody can reach\<close>

definition denies :: "time_ns \<Rightarrow> circuit_breaker \<Rightarrow> bool" where
  "denies now cb \<longleftrightarrow> \<not> allowed (snd (allow_request now cb))"

text \<open>Backend \<open>i\<close> has the breaker \<open>cb\<close>; a segment leaves it so and does not call the backend.\<close>

definition guarded_by :: "nat \<Rightarrow> circuit_breaker \<Rightarrow> gateway \<Rightarrow> bool" where
  "guarded_by i cb gw \<longleftrightarrow> i < length (gw_backends gw) \<and> be_breaker (gw_backends gw ! i) = cb"

definition seg_shut :: "nat \<Rightarrow> circuit_breaker \<Rightarrow> segment \<Rightarrow> bool" where
  "seg_shut i cb seg = (case seg of (gw, g, q) \<Rightarrow> guarded_by i cb gw \<and> called q \<noteq> [i])"

definition dark :: "nat \<Rightarrow> gateway \<Rightarrow> bool" where
  "dark i gw \<longleftrightarrow>
     i < length (gw_backends gw) \<and> br_state (be_breaker (gw_backends gw ! i)) = HalfOpen"

definition dark_sys :: "nat \<Rightarrow> gw_sys \<Rightarrow> bool" where
  "dark_sys i s \<longleftrightarrow> dark i (sys_gw s) \<and> (\<forall>p \<in> set (sessions s). called p \<noteq> [i])"

lemma denied_same: "allow_request now cb = (cb', dec) \<Longrightarrow> denies now cb \<Longrightarrow> cb' = cb \<and> \<not> allowed dec"
  by (auto simp: denies_def allow_request_def split: breaker_state.splits if_splits)

lemma dark_guarded: "dark i gw \<longleftrightarrow> (\<exists>cb. br_state cb = HalfOpen \<and> guarded_by i cb gw)"
  by (auto simp: dark_def guarded_by_def)

lemma denies_iff:
  "denies now cb \<longleftrightarrow> br_state cb = HalfOpen \<or> br_state cb = Open \<and> now < opened_at cb + open_window cb"
  by (auto simp: denies_def allow_request_def deny_def split: breaker_state.split)

lemma half_open_denies: "br_state cb = HalfOpen \<Longrightarrow> denies now cb"
  by (simp add: denies_iff)

section \<open>What touches a breaker\<close>

lemma breaker_nth [simp]:
  "length (gw_backends (update_backend k f gw)) = length (gw_backends gw)"
  "length (gw_backends (update_breaker k h gw)) = length (gw_backends gw)"
  "k \<noteq> i \<Longrightarrow> be_breaker (gw_backends (update_breaker k h gw) ! i) = be_breaker (gw_backends gw ! i)"
  "i < length (gw_backends gw) \<Longrightarrow>
     be_breaker (gw_backends (update_breaker i h gw) ! i) = h (be_breaker (gw_backends gw ! i))"
  by (simp_all add: update_breaker_def update_backend_def)

lemma breaker_frame:
  "(\<And>b. be_breaker (f b) = be_breaker b) \<Longrightarrow>
   be_breaker (gw_backends (update_backend k f gw) ! i) = be_breaker (gw_backends gw ! i)"
  by (cases "k = i"; cases "k < length (gw_backends gw)")
     (simp_all add: update_backend_def list_update_beyond)

lemma breakers_kept:
  "map be_breaker (gw_backends (update_limiter k l gw)) = map be_breaker (gw_backends gw)"
  "map be_breaker (gw_backends (update_registry r gw)) = map be_breaker (gw_backends gw)"
  "map be_breaker (gw_backends (drop_slot ctx gw)) = map be_breaker (gw_backends gw)"
  "map be_breaker (gw_backends (fst (drop_ticket ctx gw))) = map be_breaker (gw_backends gw)"
  "map be_breaker (gw_backends (snd (record_spills k ctx gw))) = map be_breaker (gw_backends gw)"
  "map be_breaker (gw_backends (publish_admission_gauges gw)) = map be_breaker (gw_backends gw)"
  "map be_breaker (gw_backends (fst (fst (sink_frame now ok1 ok2 ev ctx fs gw)))) = map be_breaker (gw_backends gw)"
  "map be_breaker (gw_backends (stop_health_monitors (begin_drain gw))) = map be_breaker (gw_backends gw)"
proof -
  show lim: "map be_breaker (gw_backends (update_limiter k l gw)) = map be_breaker (gw_backends gw)" for k l gw
    by (rule nth_equalityI) (simp_all add: update_limiter_def breaker_frame)
  show reg: "map be_breaker (gw_backends (update_registry r gw)) = map be_breaker (gw_backends gw)" for r gw
    by (simp add: update_registry_def)
  show "map be_breaker (gw_backends (drop_slot ctx gw)) = map be_breaker (gw_backends gw)"
    "map be_breaker (gw_backends (fst (drop_ticket ctx gw))) = map be_breaker (gw_backends gw)"
    "map be_breaker (gw_backends (snd (record_spills k ctx gw))) = map be_breaker (gw_backends gw)"
    "map be_breaker (gw_backends (publish_admission_gauges gw)) = map be_breaker (gw_backends gw)"
    "map be_breaker (gw_backends (fst (fst (sink_frame now ok1 ok2 ev ctx fs gw)))) = map be_breaker (gw_backends gw)"
    "map be_breaker (gw_backends (stop_health_monitors (begin_drain gw))) = map be_breaker (gw_backends gw)"
    by (auto simp: lim reg drop_slot_def drop_ticket_def record_spills_def publish_admission_gauges_def
        sink_frame_def Let_def stop_health_monitors_def begin_drain_def comp_def
        split: option.split prod.split sum.split)
qed

text \<open>A step that is not a segment of the handler leaves every breaker alone.\<close>

lemma quiet_breakers:
  "map be_breaker (gw_backends (update_backend k (\<lambda>b. b\<lparr>be_health := f (be_health b)\<rparr>) gw)) = map be_breaker (gw_backends gw)"
  "set_health_for_test k st gw = Some gw' \<Longrightarrow> map be_breaker (gw_backends gw') = map be_breaker (gw_backends gw)"
  by (rule nth_equalityI; force simp: breaker_frame set_health_for_test_def split: if_splits)+

lemma guarded_cong:
  assumes "map be_breaker (gw_backends gw') = map be_breaker (gw_backends gw)"
  shows "guarded_by i cb gw' = guarded_by i cb gw"
  using arg_cong [OF assms, of length] arg_cong [OF assms, of "\<lambda>l. l ! i"] by (auto simp: guarded_by_def)

lemmas guarded_kept = breakers_kept [THEN guarded_cong]

lemma guarded_updates [simp]:
  "guarded_by i cb (gw\<lparr>gw_gate := x\<rparr>) = guarded_by i cb gw"
  "guarded_by i cb (gw\<lparr>gw_cursor := c\<rparr>) = guarded_by i cb gw"
  "guarded_by i cb (gw\<lparr>gw_in_flight := n\<rparr>) = guarded_by i cb gw"
  "k \<noteq> i \<Longrightarrow> guarded_by i cb (update_breaker k h gw) = guarded_by i cb gw"
  by (simp_all add: guarded_by_def)

section \<open>The segments\<close>

lemma guarded_notes:
  assumes "cx_slot ctx \<noteq> Some i"
  shows "guarded_by i cb (note_failure now ctx gw) = guarded_by i cb gw"
    "guarded_by i cb (note_success ctx gw) = guarded_by i cb gw"
  using assms by (auto simp: note_failure_def note_success_def guarded_kept(2) split: option.split)

lemma finish_shut: "guarded_by i cb gw \<Longrightarrow> seg_shut i cb (finish now ctx res gw)"
proof -
  assume d: "guarded_by i cb gw"
  obtain gw1 g where t: "drop_ticket ctx (drop_slot ctx gw) = (gw1, g)" by fastforce
  have "guarded_by i cb gw1" using guarded_kept(4) [of i cb ctx "drop_slot ctx gw"] d t by (simp add: guarded_kept(3))
  with t show ?thesis by (simp add: finish_def seg_shut_def guarded_kept(2))
qed

lemma suspended_shut: "guarded_by i cb gw \<Longrightarrow> called q \<noteq> [i] \<Longrightarrow> seg_shut i cb (gw, g, q)"
  by (simp add: seg_shut_def)

text \<open>The breaker denies the backend, so the walk passes it by.\<close>

lemma guarded_asked:
  assumes "denies now cb" "guarded_by i cb gw" "allow_request now (be_breaker (gw_backends gw ! k)) = (cb', dec)"
  shows "allowed dec \<Longrightarrow> k \<noteq> i" "guarded_by i cb (update_breaker k (\<lambda>_. cb') gw)"
proof -
  have same: "cb' = cb \<and> \<not> allowed dec" if "k = i" using assms that denied_same by (auto simp: guarded_by_def)
  then show "allowed dec \<Longrightarrow> k \<noteq> i" by blast
  show "guarded_by i cb (update_breaker k (\<lambda>_. cb') gw)"
    using assms(2) same by (cases "k = i") (auto simp: guarded_by_def)
qed

interpretation unlit: handler_law now "\<lambda>ctx gw. denies now cb \<and> guarded_by i cb gw" "seg_shut i cb" for now i cb
proof (unfold_locales, goal_cases)
  case (3 ctx gw k ctx' gw')
  then show ?case using guarded_kept(5) [of i cb k ctx gw] by simp
next
  case (6 ctx gw k cb' dec)
  then show ?case by (blast intro: guarded_asked(2))
next
  case (7 ctx gw k cb' dec)
  then have "k \<noteq> i" using guarded_asked(1) by blast
  with 7 guarded_asked(2) [of now cb i gw k] show ?case by simp
next
  case (8 ctx gw k cb' dec gw2 l ctx2 rest q)
  then have "k \<noteq> i" "guarded_by i cb gw2" using guarded_asked [of now cb i gw k] by blast+
  with 8 show ?case by (auto intro!: suspended_shut simp: guarded_kept(1))
qed (auto intro: finish_shut suspended_shut simp: guarded_kept(3))

lemma after_call_shut:
  assumes "denies now cb" "guarded_by i cb gw" "cx_slot ctx \<noteq> Some i"
  shows "seg_shut i cb (after_unary lib now ur ctx gw)" "seg_shut i cb (after_stream lib now sr ctx fs gw)"
  by (rule unlit.after_unary_ends unlit.after_stream_ends; simp add: assms guarded_notes)+

lemma after_admit_shut:
  "denies now cb \<Longrightarrow> guarded_by i cb gw \<Longrightarrow> seg_shut i cb (after_admit lib now adm ctx gw)"
  by (intro unlit.after_admit_ends) (simp_all add: guarded_kept(2,6))

lemma acquire_shut:
  "denies now cb \<Longrightarrow> guarded_by i cb gw \<Longrightarrow> seg_shut i cb (acquire_and_go lib w now ctx gw)"
  by (auto simp: acquire_and_go_def intro!: after_admit_shut suspended_shut split: prod.split enter_result.split)

lemma handle_shut:
  "denies now cb \<Longrightarrow> guarded_by i cb gw \<Longrightarrow> seg_shut i cb (handle lib w now req keep gw)"
  unfolding handle_def plain_reply_def
  by (intro unlit.ends_splits unlit.handle_chat_ends acquire_shut suspended_shut) simp_all

lemma resume_shut:
  assumes "resume lib w now wk p gw = Some seg" "denies now cb" "guarded_by i cb gw" "called p \<noteq> [i]"
  shows "seg_shut i cb seg"
  using assms
proof (induction lib w now wk p gw rule: resume.induct)
  case (3 lib w now ev ok1 ok2 ctx fs gw)
  obtain gw1 ctx1 fs1 k where f: "sink_frame now ok1 ok2 ev ctx fs gw = ((gw1, ctx1, fs1), k)"
    by (metis surj_pair)
  have "cx_slot ctx1 = cx_slot ctx"
    using f by (auto simp: sink_frame_def Let_def split: if_splits sum.splits prod.splits)
  with 3 guarded_kept(7) [of i cb now ok1 ok2 ev ctx fs gw, unfolded f] f show ?case
    by (auto simp: seg_shut_def)
next
  case (1 lib w now ctx granted start deadline gw)
  then show ?case by (auto intro!: after_admit_shut split: if_splits prod.splits)
next
  case (5 lib w now ok ctx out gw)
  then show ?case by (auto intro!: finish_shut split: if_splits)
next
  case (7 lib w now ok1 ok2 ok3 ctx fs plan gw)
  then show ?case by (auto intro!: finish_shut split: prod.splits)
next
  case (6 lib w now ok out keep_alive gw)
  then show ?case by (cases ok) (auto simp: seg_shut_def)
next
  case (2 lib w now ur ctx gw)
  then have "cx_slot ctx \<noteq> Some i" by auto
  with 2 show ?case using after_call_shut(1) by fastforce
next
  case (4 lib w now sr ctx fs gw)
  then have "cx_slot ctx \<noteq> Some i" by auto
  with 4 show ?case using after_call_shut(2) by fastforce
qed simp_all

section \<open>The system\<close>

lemma called_grant: "called (grant_session p) = called p"
  by (cases p) simp_all

lemma grant_nth: "j < length ss \<Longrightarrow> called (apply_grant g ss ! j) = called (ss ! j)"
proof (cases g)
  case (Some w)
  assume "j < length ss"
  then show ?thesis by (cases "w = j") (simp_all add: Some called_grant)
qed simp

text \<open>A call of the backend in the next state was one before.\<close>

lemma shut_step:
  assumes "gw_step lib s t" "guarded_by i cb (sys_gw s)" "denies (sys_now t) cb"
    and "j < length (sessions t)" "called (sessions t ! j) = [i]"
  shows "j < length (sessions s) \<and> called (sessions s ! j) = [i]"
  using assms
proof (induction rule: gw_step.induct)
  case (arrive s t req keep_alive gw g pc)
  then have "called pc \<noteq> [i]"
    using handle_shut [of t cb i "sys_gw s" lib "length (sessions s)" req keep_alive] by (simp add: seg_shut_def)
  with arrive(5,6) show ?case
    by (auto simp: grant_nth nth_append split: if_splits)
next
  case (wake s t k wk gw g pc)
  show ?case
  proof (cases "k = j \<and> called (sessions s ! k) \<noteq> [i]")
    case True
    with wake(4,5) resume_shut [OF wake(3), of cb i] have "called pc \<noteq> [i]" by (auto simp: seg_shut_def)
    with True wake(2,7) show ?thesis by (simp add: grant_nth)
  next
    case False
    with wake show ?thesis by (auto simp: grant_nth nth_list_update)
  qed
qed auto

lemma dark_breakers:
  assumes "gw_step lib s t" "dark_sys i s"
  shows "dark i (sys_gw t)"
proof -
  obtain cb where cb: "br_state cb = HalfOpen" "guarded_by i cb (sys_gw s)"
    using assms(2) by (auto simp: dark_sys_def dark_guarded)
  from assms cb(2) have "guarded_by i cb (sys_gw t)"
  proof (induction rule: gw_step.induct)
    case (arrive s t req keep_alive gw g pc)
    then show ?case
      using handle_shut [OF half_open_denies [OF cb(1)], of i "sys_gw s" lib "length (sessions s)" t req keep_alive]
      by (simp add: seg_shut_def)
  next
    case (wake s t j wk gw g pc)
    then have "called (sessions s ! j) \<noteq> [i]" by (simp add: dark_sys_def)
    from resume_shut [OF wake(3) half_open_denies [OF cb(1)] wake(5) this] show ?case by (simp add: seg_shut_def)
  next
    case (probed k s net)
    then show ?case using guarded_cong [OF quiet_breakers(1), of i cb k "probe_once net" "sys_gw s"] by simp
  next
    case (forced k st s gw)
    then show ?case using guarded_cong [OF quiet_breakers(2) [OF forced(1)]] by simp
  next
    case (drain s)
    then show ?case by (simp add: guarded_kept(8))
  qed
  with cb(1) show ?thesis by (auto simp: dark_guarded)
qed

lemma dark_step: "gw_step lib s t \<Longrightarrow> dark_sys i s \<Longrightarrow> dark_sys i t"
proof -
  assume st: "gw_step lib s t" and d: "dark_sys i s"
  obtain cb where cb: "br_state cb = HalfOpen" "guarded_by i cb (sys_gw s)"
    using d by (auto simp: dark_sys_def dark_guarded)
  have "called (sessions t ! j) \<noteq> [i]" if "j < length (sessions t)" for j
    using shut_step [OF st cb(2) half_open_denies [OF cb(1)] that] d by (auto simp: dark_sys_def)
  with dark_breakers [OF st d] show ?thesis by (auto simp: dark_sys_def in_set_conv_nth)
qed

interpretation dark_inv: step_invariant "dark_sys i" "gw_step lib" "dark_sys i" for i lib
  by unfold_locales (assumption, rule dark_step)

lemma disconnect_keeps_breakers:
  assumes "header_started fs" "downstream_dead fs"
    and "after_stream lib now sr ctx fs gw = (gw', g, q)"
  shows "dark i gw \<Longrightarrow> dark i gw'" "called q = []"
proof -
  have f: "finish now (ctx\<lparr>cx_code := 200\<rparr>) (Inr False) gw = (gw', g, q)"
    using assms by (simp add: after_stream_def)
  show "called q = []" using f finish_Done [of now "ctx\<lparr>cx_code := 200\<rparr>" "Inr False" gw] by auto
  show "dark i gw'" if "dark i gw"
    using finish_shut [of i _ gw now "ctx\<lparr>cx_code := 200\<rparr>" "Inr False"] that f
    by (fastforce simp: seg_shut_def dark_guarded)
qed

lemma finish_health:
  assumes "finish now ctx res gw = (gw', g, q)"
  shows "map observed_health (gw_backends gw') = map observed_health (gw_backends gw)"
proof -
  have "map observed_health (gw_backends (drop_slot ctx gw)) = map observed_health (gw_backends gw)"
    by (simp add: drop_slot_def update_limiter_def update_backend_def map_update list_update_same_conv split: option.split)
       (metis list_update_beyond list_update_id map_update not_le nth_map length_map)
  with assms show ?thesis
    by (auto simp: finish_def drop_ticket_def update_registry_def Let_def split: if_splits prod.splits)
qed

section \<open>Properties\<close>

text \<open>
  C13: An open breaker shields its backend.  While the window after a failure lasts, and while a probe is
  out, no step of the gateway begins a call of the backend: whoever is calling it after the step was
  calling it before.
\<close>

theorem breaker_shields_backend:
  assumes "gw_step lib s t" "i < length (gw_backends (sys_gw s))" "cb = be_breaker (gw_backends (sys_gw s) ! i)"
    and "br_state cb = HalfOpen \<or> br_state cb = Open \<and> sys_now t < opened_at cb + open_window cb"
  shows "\<forall>j < length (sessions t). called (sessions t ! j) = [i] \<longrightarrow>
    j < length (sessions s) \<and> called (sessions s ! j) = [i]"
  using shut_step [OF assms(1)] assms(2-4) by (auto simp: guarded_by_def denies_iff)

text \<open>In the fragile run the breaker is half-open with its probe out; one more request arrives.\<close>

theorem breaker_shields_backend_witness:
  "\<exists>s t :: gw_sys. gw_step retry_lib s t \<and> length (sessions t) = 3 \<and> called (sessions s ! 1) = [0] \<and>
     called (sessions t ! 2) \<noteq> [0]"
proof -
  obtain s :: gw_sys and ctx0 out ctx fs where r: "sessions s = [ChatReply ctx0 out, ChatStream ctx fs]" "cx_slot ctx = Some 0"
    "lone 2 2 half_open (sys_gw s)" by (rule fragile_run) (rule that; assumption)
  obtain gw g q where h: "handle retry_lib (length (sessions s)) (sys_now s) example_post True (sys_gw s) = (gw, g, q)"
    by (metis surj_pair)
  let ?t = "\<lparr>sys_gw = gw, sessions = apply_grant g (sessions s @ [q]), sys_now = sys_now s\<rparr>"
  have st: "gw_step retry_lib s ?t" by (rule gw_step.arrive [OF order_refl h])
  have "0 < length (gw_backends (sys_gw s))" "half_open = be_breaker (gw_backends (sys_gw s) ! 0)" "br_state half_open = HalfOpen"
    using r(3) by (auto simp: lone_def half_open_def)
  from breaker_shields_backend [OF st this(1,2) disjI1, OF this(3), rule_format, of 2]
  have "called (sessions ?t ! 2) \<noteq> [0]" using r(1) by auto
  with st r(1,2) show ?thesis by (intro exI [of _ s] exI [of _ ?t]) simp
qed

text \<open>
  C28: A client that hangs up can disable a backend.  If the client of request \<open>j\<close> goes away in the
  middle of a stream from backend \<open>i\<close>, whose breaker is half-open with this request as its probe, and
  no other request is calling \<open>i\<close>, then in every later state of the gateway the breaker is still
  half-open and no request is calling \<open>i\<close>, whatever arrives and however healthy the backend is.
\<close>

theorem disconnect_loses_backend:
  assumes "j < length (sessions s)" "sessions s ! j = ChatStream ctx fs" "cx_slot ctx = Some i"
    and "header_started fs" "downstream_dead fs" "dark i (sys_gw s)"
    and "\<And>k. k < length (sessions s) \<Longrightarrow> k \<noteq> j \<Longrightarrow> called (sessions s ! k) \<noteq> [i]"
    and "resume lib j now (StreamDone sr) (sessions s ! j) (sys_gw s) = Some (gw, g, q)"
    and "rtranclp (gw_step lib)
      \<lparr>sys_gw = gw, sessions = apply_grant g ((sessions s)[j := q]), sys_now = now\<rparr> t"
  shows "dark i (sys_gw t) \<and> (\<forall>p \<in> set (sessions t). called p \<noteq> [i])"
proof -
  have "after_stream lib now sr ctx fs (sys_gw s) = (gw, g, q)" using assms(2,8) by simp
  from disconnect_keeps_breakers [OF assms(4,5) this] assms(6)
  have d: "dark i gw" "called q = []" by blast+
  have "called (apply_grant g ((sessions s)[j := q]) ! k) \<noteq> [i]" if "k < length (sessions s)" for k
    using assms(1,7) d(2) that by (auto simp: grant_nth nth_list_update)
  with d(1) have "dark_sys i \<lparr>sys_gw = gw, sessions = apply_grant g ((sessions s)[j := q]), sys_now = now\<rparr>"
    by (auto simp: dark_sys_def in_set_conv_nth)
  from dark_inv.reachable_inv [OF this assms(9)] show ?thesis by (simp add: dark_sys_def)
qed

text \<open>In the fragile run the second request is the probe and its client has gone; the backend is still healthy.\<close>

theorem disconnect_loses_backend_witness:
  "\<exists>t :: gw_sys. gw_start fragile_start \<and> rtranclp (gw_step retry_lib) fragile_start t \<and>
     observed_health (gw_backends (sys_gw t) ! 0) = Healthy \<and> dark 0 (sys_gw t) \<and>
     (\<forall>p \<in> set (sessions t). called p \<noteq> [0])"
proof -
  obtain s ctx0 out ctx fs where r: "rtranclp (gw_step retry_lib) fragile_start s"
    "sessions s = [ChatReply ctx0 out, ChatStream ctx fs]" "cx_slot ctx = Some 0"
    "header_started fs" "downstream_dead fs" "lone 2 2 half_open (sys_gw s)" by (rule fragile_run) (rule that; assumption)
  obtain gw g q where f: "finish (sys_now s) (ctx\<lparr>cx_code := 200\<rparr>) (Inr False) (sys_gw s) = (gw, g, q)"
    by (metis surj_pair)
  then have w: "resume retry_lib 1 (sys_now s) (StreamDone new_stream_result) (sessions s ! 1) (sys_gw s) = Some (gw, g, q)"
    using r(2,4,5) by (simp add: after_stream_def)
  let ?t = "\<lparr>sys_gw = gw, sessions = apply_grant g ((sessions s)[1 := q]), sys_now = sys_now s\<rparr>"
  have dk: "dark 0 (sys_gw s)" using r(6) by (auto simp: dark_def lone_def half_open_def)
  have "dark 0 (sys_gw ?t) \<and> (\<forall>p \<in> set (sessions ?t). called p \<noteq> [0])"
    by (rule disconnect_loses_backend [OF _ _ r(3-5) dk _ w rtranclp.rtrancl_refl])
       (auto simp: r(2) less_Suc_eq)
  moreover have "rtranclp (gw_step retry_lib) fragile_start ?t"
    using r(1) gw_step.wake [OF order_refl _ w] by (simp add: r(2) rtranclp.rtrancl_into_rtrancl)
  moreover have "observed_health (gw_backends gw ! 0) = Healthy"
    using arg_cong [OF finish_health [OF f], of "\<lambda>l. l ! 0"] arg_cong [OF finish_health [OF f], of length] r(6)
    by (auto simp: lone_def)
  ultimately show ?thesis using fragile_start by (intro exI [of _ ?t]) simp
qed

end
