(* ===== verification/Gateway_Breakers.thy ===== *)
theory Gateway_Breakers
  imports Gateway_Blackout
begin

text \<open>
  The gateway as a client of the circuit breakers.  Seen from one backend, every run of the gateway is
  a run of the requests around a breaker in \<open>Circuit_Breaker\<close>: a request is admitted when it begins to
  call the backend, reports when its call ends, or goes without a report.  What is proved there of
  one breaker holds of every breaker of the gateway.
\<close>

section \<open>Requests around one breaker\<close>

fun probing_call :: "session \<Rightarrow> bool" where
  "probing_call (ChatUnary ctx) = cx_probe ctx"
| "probing_call (ChatStream ctx fs) = cx_probe ctx"
| "probing_call p = False"

text \<open>The request is in a call of backend \<open>i\<close>, as a probe or not.\<close>

definition calls :: "nat \<Rightarrow> bool \<Rightarrow> session \<Rightarrow> bool" where
  "calls i pr p \<longleftrightarrow> called p = [i] \<and> probing_call p = pr"

definition around :: "breaker_sys \<Rightarrow> nat \<Rightarrow> time_ns \<Rightarrow> nat \<Rightarrow> nat \<Rightarrow> gateway \<Rightarrow> bool" where
  "around u0 i t n m gw \<longleftrightarrow> i < length (gw_backends gw) \<and>
     (\<exists>u. rtranclp breaker_step u0 u \<and> brk u = be_breaker (gw_backends gw ! i) \<and>
        ordinary u = n \<and> probes u = m \<and> clk u \<le> t)"

definition seg_around :: "breaker_sys \<Rightarrow> nat \<Rightarrow> time_ns \<Rightarrow> nat \<Rightarrow> nat \<Rightarrow> segment \<Rightarrow> bool" where
  "seg_around u0 i t n m seg =
     (case seg of (gw, g, q) \<Rightarrow>
        around u0 i t (n + of_bool (calls i False q)) (m + of_bool (calls i True q)) gw)"

lemma around_cong:
  assumes "map be_breaker (gw_backends gw') = map be_breaker (gw_backends gw)"
  shows "around u0 i t n m gw' = around u0 i t n m gw"
  using arg_cong [OF assms, of length] arg_cong [OF assms, of "\<lambda>l. l ! i"] by (auto simp: around_def)

lemmas around_kept = breakers_kept [THEN around_cong]

text \<open>One move of the breaker's system, made by an update of the breaker.\<close>

lemma around_move:
  assumes "around u0 i t n m gw"
    and "\<And>u. brk u = be_breaker (gw_backends gw ! i) \<Longrightarrow> ordinary u = n \<Longrightarrow> probes u = m \<Longrightarrow> clk u \<le> t \<Longrightarrow>
      \<exists>u'. rtranclp breaker_step u u' \<and> brk u' = h (be_breaker (gw_backends gw ! i)) \<and>
        ordinary u' = n' \<and> probes u' = m' \<and> clk u' \<le> t"
  shows "around u0 i t n' m' (update_breaker i h gw)"
proof -
  obtain u where u: "rtranclp breaker_step u0 u" "brk u = be_breaker (gw_backends gw ! i)" "ordinary u = n"
    "probes u = m" "clk u \<le> t" "i < length (gw_backends gw)" using assms(1) by (auto simp: around_def)
  from assms(2) [OF u(2-5)] u(1,6) show ?thesis by (auto simp: around_def intro: rtranclp_trans)
qed

lemma around_denied:
  assumes "around u0 i t n m gw" "allow_request t (be_breaker (gw_backends gw ! i)) = (cb, dec)" "\<not> allowed dec"
  shows "around u0 i t n m (update_breaker i (\<lambda>_. cb) gw)"
proof (rule around_move [OF assms(1)])
  fix u :: breaker_sys
  assume u: "brk u = be_breaker (gw_backends gw ! i)" "ordinary u = n" "probes u = m" "clk u \<le> t"
  from breaker_step.denied [OF u(4)] assms(2,3) u(1) have "breaker_step u (u\<lparr>brk := cb, clk := t\<rparr>)" by simp
  with u show "\<exists>u'. rtranclp breaker_step u u' \<and> brk u' = cb \<and> ordinary u' = n \<and> probes u' = m \<and> clk u' \<le> t"
    by (intro exI [of _ "u\<lparr>brk := cb, clk := t\<rparr>"]) auto
qed

lemma around_admitted:
  assumes "around u0 i t n m gw" "allow_request t (be_breaker (gw_backends gw ! i)) = (cb, dec)" "allowed dec"
  shows "around u0 i t (n + of_bool (\<not> is_probe dec)) (m + of_bool (is_probe dec)) (update_breaker i (\<lambda>_. cb) gw)"
proof (rule around_move [OF assms(1)])
  fix u :: breaker_sys
  assume u: "brk u = be_breaker (gw_backends gw ! i)" "ordinary u = n" "probes u = m" "clk u \<le> t"
  let ?u = "u\<lparr>brk := cb, ordinary := n + of_bool (\<not> is_probe dec), probes := m + of_bool (is_probe dec), clk := t\<rparr>"
  have "breaker_step u ?u"
    using breaker_step.admit [OF u(4)] breaker_step.admit_probe [OF u(4)] assms(2,3) u by (cases "is_probe dec") auto
  then show "\<exists>u'. rtranclp breaker_step u u' \<and> brk u' = cb \<and> ordinary u' = n + of_bool (\<not> is_probe dec) \<and>
      probes u' = m + of_bool (is_probe dec) \<and> clk u' \<le> t"
    by (intro exI [of _ ?u]) auto
qed

text \<open>A call ends: with a report, by an abort, or without a word.\<close>

lemma around_reports:
  assumes "around u0 i t (n + of_bool (\<not> pr)) (m + of_bool pr) gw"
  shows "around u0 i t n m (update_breaker i (on_success pr) gw)"
    and "around u0 i t n m (update_breaker i (on_failure t pr) gw)"
    and "around u0 i t n m (update_breaker i (abort_probe t pr) gw)"
    and "around u0 i t n m gw"
proof -
  have step: "breaker_step u (u\<lparr>brk := on_success pr (brk u), ordinary := n, probes := m\<rparr>)"
    "breaker_step u (u\<lparr>brk := on_failure t pr (brk u), ordinary := n, probes := m, clk := t\<rparr>)"
    "breaker_step u (u\<lparr>ordinary := n, probes := m\<rparr>)"
    "pr \<Longrightarrow> breaker_step u (u\<lparr>brk := abort_probe t pr (brk u), ordinary := n, probes := m, clk := t\<rparr>)"
    if "ordinary u = n + of_bool (\<not> pr)" "probes u = m + of_bool pr" "clk u \<le> t" for u :: breaker_sys
    using that breaker_step.success [of u n] breaker_step.failure [of u n t] breaker_step.gone [of u n]
      breaker_step.probe_success [of u m] breaker_step.probe_failure [of u m t] breaker_step.probe_gone [of u m]
      breaker_step.probe_abort [of u m t]
    by (cases pr; force)+
  show "around u0 i t n m (update_breaker i (on_success pr) gw)"
    by (rule around_move [OF assms], rule exI) (use step(1) in \<open>auto intro!: r_into_rtranclp\<close>)
  show "around u0 i t n m (update_breaker i (on_failure t pr) gw)"
    by (rule around_move [OF assms], rule exI) (use step(2) in \<open>auto intro!: r_into_rtranclp\<close>)
  show left: "around u0 i t n m gw"
  proof -
    obtain u where u: "rtranclp breaker_step u0 u" "brk u = be_breaker (gw_backends gw ! i)"
      "ordinary u = n + of_bool (\<not> pr)" "probes u = m + of_bool pr" "clk u \<le> t" "i < length (gw_backends gw)"
      using assms by (auto simp: around_def)
    from rtranclp.rtrancl_into_rtrancl [OF u(1) step(3) [OF u(3-5)]] u(2,5,6) show ?thesis
      unfolding around_def by (intro conjI exI [of _ "u\<lparr>ordinary := n, probes := m\<rparr>"]) simp_all
  qed
  show "around u0 i t n m (update_breaker i (abort_probe t pr) gw)"
  proof (cases pr)
    case True
    then show ?thesis
      by (intro around_move [OF assms], intro exI) (use step(4) in \<open>auto intro!: r_into_rtranclp\<close>)
  next
    case False
    then have "abort_probe t pr cb = cb" for cb by (simp add: abort_probe_def)
    then have "be_breaker (gw_backends (update_breaker i (abort_probe t pr) gw) ! i) = be_breaker (gw_backends gw ! i)"
      unfolding update_breaker_def by (intro breaker_frame) simp
    with left show ?thesis by (simp add: around_def)
  qed
qed

section \<open>The segments\<close>

lemma around_updates [simp]:
  "k \<noteq> i \<Longrightarrow> around u0 i t n m (update_breaker k h gw) = around u0 i t n m gw"
  "around u0 i t n m (gw\<lparr>gw_gate := x\<rparr>) = around u0 i t n m gw"
  "around u0 i t n m (gw\<lparr>gw_cursor := c\<rparr>) = around u0 i t n m gw"
  "around u0 i t n m (gw\<lparr>gw_in_flight := j\<rparr>) = around u0 i t n m gw"
  by (simp_all add: around_def)

lemma suspended_around:
  "around u0 i t n m gw \<Longrightarrow> called q \<noteq> [i] \<Longrightarrow> seg_around u0 i t n m (gw, g, q)"
  by (simp add: seg_around_def calls_def)

lemma finish_around: "around u0 i t n m gw \<Longrightarrow> seg_around u0 i t n m (finish now ctx res gw)"
proof -
  assume a: "around u0 i t n m gw"
  obtain gw1 g where t: "drop_ticket ctx (drop_slot ctx gw) = (gw1, g)" by fastforce
  have "around u0 i t n m gw1" using a around_kept(4) [of u0 i t n m ctx "drop_slot ctx gw"] t by (simp add: around_kept(3))
  with t show ?thesis by (simp add: finish_def seg_around_def calls_def around_kept(2))
qed

text \<open>The breaker of the next candidate is asked.\<close>

lemma around_asked:
  assumes "around u0 i t n m gw" "allow_request t (be_breaker (gw_backends gw ! k)) = (cb, dec)"
  shows "allowed dec \<Longrightarrow> around u0 i t (n + of_bool (k = i \<and> \<not> is_probe dec)) (m + of_bool (k = i \<and> is_probe dec))
      (update_breaker k (\<lambda>_. cb) gw)"
    and "around u0 i t n m (update_breaker k (\<lambda>_. cb) gw)"
proof -
  show yes: "around u0 i t (n + of_bool (k = i \<and> \<not> is_probe dec)) (m + of_bool (k = i \<and> is_probe dec))
      (update_breaker k (\<lambda>_. cb) gw)" if "allowed dec"
    using assms around_admitted [OF assms(1)] that by (cases "k = i") simp_all
  show "around u0 i t n m (update_breaker k (\<lambda>_. cb) gw)"
  proof (cases "k = i \<and> allowed dec")
    case True
    then show ?thesis using yes around_reports(4) [of u0 i t n "is_probe dec" m] by simp
  next
    case False
    then show ?thesis using assms around_denied [OF assms(1)] by (cases "k = i") simp_all
  qed
qed

interpretation guarded: handler_law now "\<lambda>ctx. around u0 i now n m" "seg_around u0 i now n m" for now u0 i n m
proof (unfold_locales, goal_cases)
  case (3 ctx gw k ctx' gw')
  then show ?case using around_kept(5) [of u0 i now n m k ctx gw] by simp
next
  case (6 ctx gw k cb dec)
  then show ?case by (rule around_asked(2))
next
  case (7 ctx gw k cb dec)
  from around_asked(1) [OF this] show ?case
    by (cases "k = i") (simp_all add: around_reports(3))
next
  case (8 ctx gw k cb dec gw2 l ctx2 rest q)
  from around_asked(1) [OF 8(1-3)] 8(4-) show ?case
    by (auto simp: seg_around_def calls_def around_kept(1))
qed (auto intro: finish_around suspended_around simp: around_kept(3))

text \<open>The request reports the end of its call, or leaves without a report.\<close>

lemma around_call:
  assumes "around u0 i t (n + of_bool (calls i False p)) (m + of_bool (calls i True p)) gw"
    and "p = ChatUnary ctx \<or> p = ChatStream ctx fs"
  shows "around u0 i t n m (note_failure t ctx gw)" "around u0 i t n m (note_success ctx gw)"
    "around u0 i t n m gw"
proof -
  have "around u0 i t n m (note_failure t ctx gw) \<and> around u0 i t n m (note_success ctx gw) \<and> around u0 i t n m gw"
  proof (cases "cx_slot ctx = Some i")
    case True
    with assms have "around u0 i t (n + of_bool (\<not> cx_probe ctx)) (m + of_bool (cx_probe ctx)) gw"
      by (auto simp: calls_def)
    from around_reports [OF this] True show ?thesis
      by (simp add: note_failure_def note_success_def around_kept(2))
  next
    case False
    with assms have "around u0 i t n m gw" by (auto simp: calls_def split: option.splits)
    with False show ?thesis
      by (cases "cx_slot ctx") (simp_all add: note_failure_def note_success_def around_kept(2))
  qed
  then show "around u0 i t n m (note_failure t ctx gw)" "around u0 i t n m (note_success ctx gw)"
    "around u0 i t n m gw" by blast+
qed

lemma after_admit_around:
  "around u0 i t n m gw \<Longrightarrow> seg_around u0 i t n m (after_admit lib t adm ctx gw)"
  by (intro guarded.after_admit_ends) (simp_all add: around_kept(2,6))

lemma acquire_around:
  "around u0 i t n m gw \<Longrightarrow> seg_around u0 i t n m (acquire_and_go lib w t ctx gw)"
  by (auto simp: acquire_and_go_def intro!: after_admit_around suspended_around
      split: prod.split enter_result.split)

lemma handle_around:
  "around u0 i t n m gw \<Longrightarrow> seg_around u0 i t n m (handle lib w t req keep gw)"
  unfolding handle_def plain_reply_def
  by (intro guarded.ends_splits guarded.handle_chat_ends acquire_around suspended_around) simp_all

lemma resume_around:
  assumes "resume lib w t wk p gw = Some seg"
    and "around u0 i t (n + of_bool (calls i False p)) (m + of_bool (calls i True p)) gw"
  shows "seg_around u0 i t n m seg"
  using assms
proof (induction lib w t wk p gw rule: resume.induct)
  case (1 lib w now ctx granted start deadline gw)
  then show ?case
    by (auto simp: calls_def intro!: after_admit_around split: if_splits prod.splits)
next
  case (2 lib w now ur ctx gw)
  then show ?case using guarded.after_unary_ends [OF around_call(1,2) [OF 2(2)]] by fastforce
next
  case (3 lib w now ev ok1 ok2 ctx fs gw)
  obtain gw1 ctx1 fs1 k where f: "sink_frame now ok1 ok2 ev ctx fs gw = ((gw1, ctx1, fs1), k)"
    by (metis surj_pair)
  have "cx_slot ctx1 = cx_slot ctx" "cx_probe ctx1 = cx_probe ctx"
    using f by (auto simp: sink_frame_def Let_def split: if_splits sum.splits prod.splits)
  then have "calls i pr (ChatStream ctx1 fs1) = calls i pr (ChatStream ctx fs)" for pr
    by (simp add: calls_def)
  with 3 around_kept(7) [of u0 i now _ _ now ok1 ok2 ev ctx fs gw, unfolded f] f show ?case
    by (auto simp: seg_around_def)
next
  case (4 lib w now sr ctx fs gw)
  then show ?case using guarded.after_stream_ends [OF around_call(3,1,2) [OF 4(2)]] by fastforce
next
  case (5 lib w now ok ctx out gw)
  then show ?case by (auto simp: calls_def intro!: finish_around split: if_splits)
next
  case (6 lib w now ok out keep_alive gw)
  then show ?case by (cases ok) (auto simp: calls_def seg_around_def)
next
  case (7 lib w now ok1 ok2 ok3 ctx fs plan gw)
  then show ?case by (auto simp: calls_def intro!: finish_around split: prod.splits)
qed simp_all

section \<open>The system\<close>

definition sys_around :: "breaker_sys \<Rightarrow> nat \<Rightarrow> gw_sys \<Rightarrow> bool" where
  "sys_around u0 i s = around u0 i (sys_now s) (count_if (calls i False) (sessions s))
     (count_if (calls i True) (sessions s)) (sys_gw s)"

lemma around_later: "around u0 i t n m gw \<Longrightarrow> t \<le> t' \<Longrightarrow> around u0 i t' n m gw"
  unfolding around_def using order_trans by blast

lemma calls_grant: "calls i pr (grant_session p) = calls i pr p"
  by (cases p) (simp_all add: calls_def)

lemma count_replaced:
  assumes "j < length xs"
  obtains c where "count_if P xs = c + of_bool (P (xs ! j))" "\<And>y. count_if P (xs[j := y]) = c + of_bool (P y)"
proof (rule that)
  let ?c = "count_if P xs - of_bool (P (xs ! j))"
  show c: "count_if P xs = ?c + of_bool (P (xs ! j))" using count_if_pos [OF assms, of P] by (cases "P (xs ! j)") auto
  show "count_if P (xs[j := y]) = ?c + of_bool (P y)" for y
    using count_if_update [OF assms, of P y] c by (cases "P (xs ! j)"; cases "P y") auto
qed

lemma count_grant: "count_if (calls i pr) (apply_grant g ss) = count_if (calls i pr) ss"
proof (cases g)
  case (Some w)
  show ?thesis
  proof (cases "w < length ss")
    case True
    then show ?thesis
      using Some count_if_update [OF True, of "calls i pr" "grant_session (ss ! w)"] by (simp add: calls_grant)
  qed (simp add: Some list_update_beyond)
qed simp

lemma around_step: "gw_step lib s t \<Longrightarrow> sys_around u0 i s \<Longrightarrow> sys_around u0 i t"
proof (induction rule: gw_step.induct)
  case (arrive s t req keep_alive gw g pc)
  from around_later [OF arrive.prems [unfolded sys_around_def] arrive(1)]
  have "seg_around u0 i t (count_if (calls i False) (sessions s)) (count_if (calls i True) (sessions s)) (gw, g, pc)"
    unfolding arrive(2) [symmetric] by (rule handle_around)
  then show ?case by (auto simp: sys_around_def seg_around_def count_grant split: if_splits)
next
  case (wake s t j wk gw g pc)
  obtain n where n: "count_if (calls i False) (sessions s) = n + of_bool (calls i False (sessions s ! j))"
    "\<And>y. count_if (calls i False) ((sessions s)[j := y]) = n + of_bool (calls i False y)"
    using count_replaced [OF wake(2)] by blast
  obtain m where m: "count_if (calls i True) (sessions s) = m + of_bool (calls i True (sessions s ! j))"
    "\<And>y. count_if (calls i True) ((sessions s)[j := y]) = m + of_bool (calls i True y)"
    using count_replaced [OF wake(2)] by blast
  from resume_around [OF wake(3) around_later [OF wake.prems [unfolded sys_around_def n(1) m(1)] wake(1)]]
  show ?case by (simp add: sys_around_def seg_around_def count_grant n(2) m(2))
next
  case (probed k s net)
  then show ?case
    using around_cong [OF quiet_breakers(1), of u0 i _ _ _ k "probe_once net" "sys_gw s"] by (simp add: sys_around_def)
next
  case (forced k st s gw)
  then show ?case using around_cong [OF quiet_breakers(2) [OF forced(1)]] by (simp add: sys_around_def)
next
  case (drain s)
  then show ?case by (simp add: sys_around_def around_kept(8))
qed

definition fresh_around :: "nat \<Rightarrow> gw_sys \<Rightarrow> breaker_sys" where
  "fresh_around i s = \<lparr>brk = be_breaker (gw_backends (sys_gw s) ! i), ordinary = 0, probes = 0, clk = sys_now s\<rparr>"

lemma fresh_around:
  assumes "gw_start s" "i < length (gw_backends (sys_gw s))"
  shows "breaker_start (fresh_around i s)" "sys_around (fresh_around i s) i s"
proof -
  obtain cfg where cfg: "config_ok cfg" "new_gateway cfg = Inr (sys_gw s)" "sessions s = []"
    using assms(1) by (auto simp: gw_start_def)
  from list_all2_nthD2 [OF new_gateway_backends [OF cfg(2)] assms(2)]
  have b: "be_breaker (gw_backends (sys_gw s) ! i) =
      new_breaker (bc_failure_threshold (cfg_backends cfg ! i)) (of_ms (bc_open_ms (cfg_backends cfg ! i)))"
    using new_backend_fields by blast
  have "i < length (cfg_backends cfg)" using new_gateway_fields [OF cfg(2)] assms(2) by simp
  then have "0 < bc_failure_threshold (cfg_backends cfg ! i)"
    using cfg(1) by (auto simp: config_ok_def backend_ok_def list_all_length)
  with b show "breaker_start (fresh_around i s)" by (auto simp: breaker_start_def fresh_around_def)
  show "sys_around (fresh_around i s) i s"
    using assms(2) cfg(3) by (auto simp: sys_around_def around_def fresh_around_def)
qed

interpretation breaker_sim: step_invariant "sys_around u0 i" "gw_step lib" "sys_around u0 i" for u0 i lib
  by unfold_locales (assumption, rule around_step)

section \<open>Properties\<close>



end
