(* ===== verification/Gateway_Stream.thy ===== *)
theory Gateway_Stream
  imports Gateway_Session
begin

text \<open>
  A stream from the upstream's bytes to the client's: the upstream client's read loop, the
  handler's sink and writer, and the closing writes, composed.
\<close>

section \<open>The sink as the upstream client calls it\<close>

text \<open>
  For the \<open>n\<close>-th frame the environment says when it is handled, whether its two writes complete,
  and what other requests have done to the gateway since the previous one.
\<close>

record frame_env =
  fe_now :: time_ns
  fe_ok1 :: bool
  fe_ok2 :: bool
  fe_others :: "gateway \<Rightarrow> gateway"

type_synonym sink_state = "nat \<times> gateway \<times> chat_ctx \<times> frame_state"

definition gateway_sink :: "(nat \<Rightarrow> frame_env) \<Rightarrow> sink_state sink" where
  "gateway_sink env s ev =
     (case s of (n, gw, ctx, fs) \<Rightarrow>
        let e = env n;
            ((gw1, ctx1, fs1), keep) =
              sink_frame (fe_now e) (fe_ok1 e) (fe_ok2 e) ev ctx fs (fe_others e gw)
        in ((Suc n, gw1, ctx1, fs1), keep))"

text \<open>
  The streaming branch of one attempt: the upstream call with the sink, then the classification of
  its result; \<open>None\<close> when the script of the exchange ends before the call returns.
\<close>

definition stream_branch ::
  "lib \<Rightarrow> (nat \<Rightarrow> frame_env) \<Rightarrow> time_ns \<Rightarrow> exchange \<Rightarrow> chat_ctx \<Rightarrow> gateway \<Rightarrow> segment option" where
  "stream_branch lib env now ex ctx gw =
     (case stream_chat (gateway_sink env) ex (0, gw, ctx, new_frame_state (cx_keep ctx)) of
        None \<Rightarrow> None
      | Some (sr, n, gw1, ctx1, fs1) \<Rightarrow> Some (after_stream lib now sr ctx1 fs1 gw1))"

definition all_written :: "(nat \<Rightarrow> frame_env) \<Rightarrow> bool" where
  "all_written env \<longleftrightarrow> (\<forall>n. fe_ok1 (env n) \<and> fe_ok2 (env n))"

text \<open>The payloads a client reads from the chunks it was sent.\<close>

definition client_payloads :: "wire list \<Rightarrow> string list" where
  "client_payloads out =
     map ev_data (snd (feed_chunks init_parser (map chunk_bytes (filter is_Chunk out))))"

section \<open>Frames sent\<close>

lemma run_sink_written:
  assumes "all_written env" "\<not> downstream_dead fs" "stream_ok ctx fs"
  shows "\<exists>n' gw' fs'. run_sink (gateway_sink env) (n, gw, ctx, fs) evs =
      ((n', gw', ctx\<lparr>cx_sent := cx_sent ctx @
          (if header_started fs \<or> evs = [] then [] else [SseHeader (cx_keep ctx)]) @
          sse_chunks (map ev_data evs)\<rparr>, fs'), False, evs) \<and>
    \<not> downstream_dead fs' \<and> header_started fs' = (header_started fs \<or> evs \<noteq> []) \<and>
    \<not> ended (fs_writer fs')"
  using assms(2,3)
proof (induction evs arbitrary: n gw ctx fs)
  case Nil
  then show ?case by (simp add: stream_ok_def)
next
  case (Cons ev evs)
  let ?ctx = "ctx\<lparr>cx_sent := cx_sent ctx @ frame_out True ev ctx fs\<rparr>"
    and ?fs = "frame_next (fe_now (env n)) True fs"
  have w: "fe_ok1 (env n)" "fe_ok2 (env n)" using assms(1) by (simp_all add: all_written_def)
  obtain gw1 where s: "gateway_sink env (n, gw, ctx, fs) ev = ((Suc n, gw1, ?ctx, ?fs), True)"
    using sink_frame_sent [OF Cons.prems(1) _ Cons.prems(2), of True] w
    by (simp add: gateway_sink_def Let_def)
  have n: "\<not> downstream_dead ?fs" "header_started ?fs" by (simp_all add: frame_next_def)
  from Cons.IH [OF n(1) stream_ok_frame [OF Cons.prems(2)], of "Suc n" gw1 ev] s n(2) show ?case
    by (auto simp: frame_out_def sse_chunks_def)
qed

text \<open>Whatever the writes do, a refusing sink has seen its client go, and a sink that took a frame has sent the header.\<close>

lemma gateway_sink_state:
  assumes "gateway_sink env (n, gw, ctx, fs) ev = ((n', gw', ctx', fs'), keep)" "stream_ok ctx fs"
  shows "stream_ok ctx' fs' \<and> (keep \<and> header_started fs' \<or> \<not> keep \<and> downstream_dead fs') \<and>
    (header_started fs \<longrightarrow> header_started fs')"
proof -
  let ?e = "env n"
  have f: "sink_frame (fe_now ?e) (fe_ok1 ?e) (fe_ok2 ?e) ev ctx fs (fe_others ?e gw) = ((gw', ctx', fs'), keep)"
    using assms(1) by (auto simp: gateway_sink_def Let_def split: prod.splits)
  show ?thesis
  proof (cases "downstream_dead fs \<or> \<not> header_started fs \<and> \<not> fe_ok1 ?e")
    case True
    from sink_frame_refused [OF this assms(2)] f assms(2) show ?thesis by (auto simp: stream_ok_def)
  next
    case False
    then have "\<not> downstream_dead fs" "header_started fs \<or> fe_ok1 ?e" by auto
    from sink_frame_sent [OF this assms(2)] f
    have "ctx' = ctx\<lparr>cx_sent := cx_sent ctx @ frame_out (fe_ok2 ?e) ev ctx fs\<rparr>"
      "fs' = frame_next (fe_now ?e) (fe_ok2 ?e) fs" "keep = fe_ok2 ?e" by auto
    with stream_ok_frame [OF assms(2)] show ?thesis by (simp add: frame_next_def)
  qed
qed

lemma run_sink_state:
  assumes "run_sink (gateway_sink env) (n, gw, ctx, fs) evs = ((n', gw', ctx', fs'), stop, seen)"
    and "stream_ok ctx fs"
  shows "(stop \<longrightarrow> downstream_dead fs') \<and> (\<not> stop \<longrightarrow> seen = evs) \<and>
    (header_started fs \<or> evs \<noteq> [] \<and> \<not> stop \<longrightarrow> header_started fs')"
  using assms
proof (induction evs arbitrary: n gw ctx fs seen)
  case (Cons ev evs)
  obtain n1 gw1 ctx1 fs1 keep where
    k: "gateway_sink env (n, gw, ctx, fs) ev = ((n1, gw1, ctx1, fs1), keep)" by (metis surj_pair)
  note st = gateway_sink_state [OF k Cons.prems(2)]
  show ?case
  proof (cases keep)
    case True
    then obtain seen1 where "run_sink (gateway_sink env) (n1, gw1, ctx1, fs1) evs = ((n', gw', ctx', fs'), stop, seen1)"
      "seen = ev # seen1"
      using Cons.prems(1) k by (auto split: prod.splits)
    with Cons.IH [OF this(1)] st True show ?thesis by auto
  next
    case False
    with Cons.prems(1) k st show ?thesis by auto
  qed
qed simp

section \<open>Closing\<close>

text \<open>The error event that ends a stream the upstream did not finish.\<close>

definition end_error :: "lib \<Rightarrow> bool \<Rightarrow> string option" where
  "end_error lib timeout =
     error_json lib (if timeout then UpstreamTimeout else UpstreamFailure)
       (if timeout then ''upstream timed out mid-stream'' else ''upstream aborted mid-stream'') []"

text \<open>The upstream sent \<open>[DONE]\<close> and its body was read to an end, not to a timeout.\<close>

definition upstream_finished :: "bool \<Rightarrow> body_read list \<Rightarrow> bool" where
  "upstream_finished finished reads \<longleftrightarrow>
     list_ex is_done (response_events finished reads) \<and> \<not> body_timeout finished reads"

lemma client_payloads_stream:
  assumes "\<forall>p \<in> set ps. single_line p"
  shows "client_payloads (SseHeader keep # sse_chunks ps @ [LastChunk]) = ps"
proof -
  have "map chunk_bytes (filter is_Chunk (sse_chunks ps)) = map sse_frame ps"
    by (simp add: sse_chunks_def filter_map comp_def)
  with feed_frames [OF assms] show ?thesis
    by (simp add: client_payloads_def feed_chunks_concat comp_def)
qed

lemma close_stream_written:
  assumes "\<not> ended w"
  shows "close_stream True True payload keep ctx w =
    (ctx\<lparr>cx_sent := cx_sent ctx @ sse_chunks (case payload of None \<Rightarrow> [] | Some p \<Rightarrow> [p]) @ [LastChunk]\<rparr>, Inr keep)"
  using assms by (cases payload) (simp_all add: close_stream_def write_data_def writer_end_def)

lemma stream_branch_sent:
  assumes "script_complete finished reads" "code < 400" "all_written env" "cx_sent ctx = []"
    and "response_events finished reads = evs" "evs \<noteq> []"
  shows "\<exists>sr n gw1 ctx1 fs1. stream_chat (gateway_sink env) (Response code finished reads)
        (0, gw, ctx, new_frame_state (cx_keep ctx)) = Some (sr, n, gw1, ctx1, fs1) \<and>
      ctx1 = ctx\<lparr>cx_sent := SseHeader (cx_keep ctx) # sse_chunks (map ev_data evs)\<rparr> \<and>
      header_started fs1 \<and> \<not> downstream_dead fs1 \<and> \<not> ended (fs_writer fs1) \<and>
      timed_out sr = body_timeout finished reads \<and>
      upstream_aborted sr = (\<not> timed_out sr \<and> \<not> list_ex is_done evs)"
proof -
  have new: "\<not> downstream_dead (new_frame_state (cx_keep ctx))" "\<not> header_started (new_frame_state (cx_keep ctx))"
    by (simp_all add: new_frame_state_def)
  obtain n gw1 fs1 where
    r: "run_sink (gateway_sink env) (0, gw, ctx, new_frame_state (cx_keep ctx)) evs =
      ((n, gw1, ctx\<lparr>cx_sent := SseHeader (cx_keep ctx) # sse_chunks (map ev_data evs)\<rparr>, fs1), False, evs)"
    and fs: "\<not> downstream_dead fs1" "header_started fs1" "\<not> ended (fs_writer fs1)"
    using run_sink_written [OF assms(3) new(1) stream_ok_new [OF assms(4)], of 0 gw evs] new(2) assms(4,6)
    by auto
  have "run_sink (gateway_sink env) (0, gw, ctx, new_frame_state (cx_keep ctx)) (response_events finished reads) =
      ((n, gw1, ctx\<lparr>cx_sent := SseHeader (cx_keep ctx) # sse_chunks (map ev_data evs)\<rparr>, fs1), False, evs)"
    using r assms(5) by simp
  from stream_chat_run [OF assms(1,2) this] fs show ?thesis by blast
qed

lemma stream_branch_closes:
  assumes "script_complete finished reads" "code < 400" "all_written env" "cx_sent ctx = []"
    and "response_events finished reads = evs" "evs \<noteq> []"
    and "end_error lib (body_timeout finished reads) = Some err"
  defines "whole \<equiv> upstream_finished finished reads"
  shows "\<exists>gw1 ctx1 fs1 plan ctx2. stream_branch lib env now (Response code finished reads) ctx gw =
        Some (gw1, None, ChatEnd ctx1 fs1 plan) \<and>
      end_stream True True True plan ctx1 fs1 = (ctx2, Inr (whole \<and> cx_keep ctx)) \<and>
      cx_sent ctx2 = SseHeader (cx_keep ctx) #
        sse_chunks (map ev_data evs @ (if whole then [] else [err])) @ [LastChunk]"
proof -
  obtain sr n gw1 ctx1 fs1 where
    s: "stream_chat (gateway_sink env) (Response code finished reads)
        (0, gw, ctx, new_frame_state (cx_keep ctx)) = Some (sr, n, gw1, ctx1, fs1)"
    and c: "ctx1 = ctx\<lparr>cx_sent := SseHeader (cx_keep ctx) # sse_chunks (map ev_data evs)\<rparr>"
    and f: "header_started fs1" "\<not> downstream_dead fs1" "\<not> ended (fs_writer fs1)"
    and r: "timed_out sr = body_timeout finished reads"
      "upstream_aborted sr = (\<not> timed_out sr \<and> \<not> list_ex is_done evs)"
    using stream_branch_sent [OF assms(1-6), of gw] by blast
  have "stream_branch lib env now (Response code finished reads) ctx gw =
      Some (after_stream lib now sr ctx1 fs1 gw1)"
    by (simp add: stream_branch_def s)
  moreover have "\<exists>gw2. after_stream lib now sr ctx1 fs1 gw1 = (gw2, None, ChatEnd (ctx1\<lparr>cx_code := 200\<rparr>) fs1
      (if whole then CleanEnd else ErrorEnd err))"
    using f r assms(5,7)
    by (auto simp: after_stream_def whole_def upstream_finished_def end_error_def Let_def)
  moreover have "end_stream True True True (if whole then CleanEnd else ErrorEnd err) (ctx1\<lparr>cx_code := 200\<rparr>) fs1 =
      (ctx1\<lparr>cx_code := 200, cx_sent := cx_sent ctx1 @ sse_chunks (if whole then [] else [err]) @ [LastChunk]\<rparr>,
       Inr (whole \<and> cx_keep ctx))"
    using f(3) c by (simp add: end_stream_def close_stream_written)
  ultimately show ?thesis using c by fastforce
qed

section \<open>The branch for an empty stream\<close>

fun closing :: "session \<Rightarrow> bool" where
  "closing (ChatEnd ctx fs plan) = True"
| "closing p = False"

lemma walk_not_end: "\<not> closing (snd (snd (walk lib now order ctx gw)))"
proof (induction order arbitrary: ctx gw)
  case Nil
  then show ?case
    by (simp add: exhausted_def reply_def finish_def Let_def split: option.split prod.split)
next
  case (Cons k rest)
  then show ?case
    by (simp add: exhausted_def reply_def finish_def Let_def split: option.split prod.split)
qed

lemma after_stream_empty:
  assumes "after_stream lib now sr ctx fs gw = (gw', g, ChatEnd ctx' fs' EmptyStream)"
  shows "fs' = fs" "\<not> stream_failed sr" "\<not> header_started fs"
proof -
  have w: "next_backend lib now ctx gw0 \<noteq> (gw', g, ChatEnd ctx' fs' EmptyStream)" for gw0
    using walk_not_end [of lib now "cx_rest ctx" "ctx\<lparr>cx_slot := None\<rparr>" "drop_slot ctx gw0"]
    by (auto simp: next_backend_def)
  have r: "reply now ctx code body gw0 \<noteq> (gw', g, ChatEnd ctx' fs' EmptyStream)" for code body gw0
    by (simp add: reply_def finish_def Let_def split: option.split prod.split)
  have f: "finish now ctx0 res gw0 \<noteq> (gw', g, ChatEnd ctx' fs' EmptyStream)" for ctx0 res gw0
    by (simp add: finish_def split: prod.split)
  show "fs' = fs" "\<not> stream_failed sr" "\<not> header_started fs"
    using assms w r f by (auto simp: after_stream_def Let_def split: if_splits option.splits)
qed

section \<open>A call that is not answered\<close>

text \<open>
  \<open>post_chat\<close> reports a connection that was closed without a response like a response of status 0, which
  the handler takes for a success: the breaker is told so and the client is sent an empty 200.
\<close>

lemma unanswered_call_is_ok:
  "after_unary lib now (post_chat UNoResponse) ctx gw =
     (note_success ctx gw, None, ChatReply (ctx\<lparr>cx_code := 200\<rparr>) (json_response (cx_keep ctx) 200 []))"
  by (simp add: after_unary_def post_chat_def unary_call_def new_unary_result_def reply_def)

section \<open>Properties\<close>


text \<open>A timeout after \<open>[DONE]\<close>: the client is sent an error event behind the complete stream.\<close>

definition late_timeout :: "body_read list" where
  "late_timeout =
     [\<lparr>rd_data = ''data: a'' @ [LF, LF] @ ''data: [DONE]'' @ [LF, LF], rd_code = ReadOk, rd_done = False\<rparr>,
      \<lparr>rd_data = [], rd_code = ReadTimeout, rd_done = False\<rparr>]"

definition calm_env :: "nat \<Rightarrow> frame_env" where
  "calm_env n = \<lparr>fe_now = 0, fe_ok1 = True, fe_ok2 = True, fe_others = (\<lambda>gw. gw)\<rparr>"


text \<open>
  C34: The branch for an empty stream is not what its comment says.  The handler reaches it (no byte
  sent, no failure reported) only after the client's connection has failed: a connected upstream
  that sends a 2xx response without any event is reported as aborted or timed out and fails over.
\<close>

theorem empty_stream_branch_is_dead_client:
  assumes "stream_branch lib env now ex ctx gw = Some (gw1, g, ChatEnd ctx1 fs1 EmptyStream)"
    and "cx_sent ctx = []"
  shows "downstream_dead fs1"
proof -
  let ?s0 = "(0, gw, ctx, new_frame_state (cx_keep ctx))"
  obtain sr n gw2 ctx2 fs2 where
    c: "stream_chat (gateway_sink env) ex ?s0 = Some (sr, n, gw2, ctx2, fs2)" and
    a: "after_stream lib now sr ctx2 fs2 gw2 = (gw1, g, ChatEnd ctx1 fs1 EmptyStream)"
    using assms(1) by (auto simp: stream_branch_def split: option.splits prod.splits)
  note e = after_stream_empty [OF a]
  obtain code finished reads where ex: "ex = Response code finished reads" "code < 400"
    using c e(2) by (cases ex)
      (auto simp: stream_chat_def stream_failed_def new_stream_result_def split: if_splits)
  with c have b: "stream_body (gateway_sink env) code finished reads ?s0 = Some (sr, n, gw2, ctx2, fs2)"
    by (simp add: stream_chat_def)
  obtain n' gw' ctx' fs' stop seen where r:
    "run_sink (gateway_sink env) ?s0 (response_events finished reads) = ((n', gw', ctx', fs'), stop, seen)"
    by (metis surj_pair)
  from stream_body_run [OF b r] have fs: "fs' = fs2" "\<not> stop \<Longrightarrow> \<not> stream_failed sr \<Longrightarrow> seen \<noteq> []"
    by (auto simp: stream_failed_def)
  from run_sink_state [OF r stream_ok_new [OF assms(2)]] fs e show ?thesis by auto
qed

text \<open>A client that is gone before the first frame: the attempt is recorded as a success.\<close>

definition gone_env :: "nat \<Rightarrow> frame_env" where
  "gone_env n = (calm_env n)\<lparr>fe_ok1 := False\<rparr>"

definition one_frame :: "body_read list" where
  "one_frame = [\<lparr>rd_data = sse_frame ''a'', rd_code = NeedBuffer, rd_done = True\<rparr>]"

theorem empty_stream_branch_is_dead_client_witness:
  "\<exists>gw1 g ctx1 fs1. stream_branch example_lib gone_env 0 (Response 200 False one_frame) (new_ctx 0 True)
     (sys_gw example_sys) = Some (gw1, g, ChatEnd ctx1 fs1 EmptyStream) \<and> downstream_dead fs1"
proof -
  let ?ctx = "new_ctx 0 True" and ?gw = "sys_gw example_sys"
  have sent: "cx_sent ?ctx = []" by (simp add: new_ctx_def)
  have "sink_frame 0 False True ev ?ctx (new_frame_state (cx_keep ?ctx)) ?gw =
      ((?gw, ?ctx, (new_frame_state (cx_keep ?ctx))\<lparr>downstream_dead := True\<rparr>), False)" for ev
    by (rule sink_frame_refused [OF _ stream_ok_new [OF sent]]) (simp add: new_frame_state_def)
  then have k: "gateway_sink gone_env (0, ?gw, ?ctx, new_frame_state (cx_keep ?ctx)) ev =
      ((1, ?gw, ?ctx, (new_frame_state (cx_keep ?ctx))\<lparr>downstream_dead := True\<rparr>), False)" for ev
    by (simp add: gateway_sink_def gone_env_def calm_env_def)
  have f: "feed init_parser (sse_frame ''a'') = (init_parser, [\<lparr>ev_data = ''a'', ev_event = []\<rparr>])"
    by (rule feed_frame) (simp add: single_line_def)
  have ne: "sse_frame ''a'' \<noteq> []" by (simp add: sse_frame_def)
  have "\<exists>sr n gw1 ctx1. stream_chat (gateway_sink gone_env) (Response 200 False one_frame)
      (0, ?gw, ?ctx, new_frame_state (cx_keep ?ctx)) =
      Some (sr, n, gw1, ctx1, (new_frame_state (cx_keep ?ctx))\<lparr>downstream_dead := True\<rparr>) \<and> \<not> stream_failed sr"
    by (simp add: stream_chat_def stream_body_def one_frame_def read_loop.simps feed_read_def f k
        flush_tail_def stream_failed_def ne Let_def del: feed.simps)
  then obtain gw1 ctx1 fs1 where
    b: "stream_branch example_lib gone_env 0 (Response 200 False one_frame) ?ctx ?gw =
      Some (gw1, None, ChatEnd ctx1 fs1 EmptyStream)"
    by (auto simp: stream_branch_def after_stream_def new_frame_state_def)
  with empty_stream_branch_is_dead_client [OF b sent] show ?thesis by blast
qed

end
