(* ===== verification/Gateway_Example.thy ===== *)
theory Gateway_Example
  imports Gateway_Dispatch
begin

text \<open>
  A run of the whole gateway on which the results about the system are instantiated: one slot at the
  gate, one backend that was never probed.  The first request is admitted, the second waits; the first
  is answered and leaves, which grants the second its slot; the second is answered and leaves.
\<close>

section \<open>The start\<close>

definition narrow_config :: config where
  "narrow_config = example_config\<lparr>cfg_server := (cfg_server example_config)\<lparr>sc_max_concurrent_streams := 1\<rparr>\<rparr>"

definition narrow_gateway :: gateway where
  "narrow_gateway = (case new_gateway narrow_config of Inr gw \<Rightarrow> gw | Inl _ \<Rightarrow> undefined)"

definition narrow_start :: gw_sys where
  "narrow_start = \<lparr>sys_gw = narrow_gateway, sessions = [], sys_now = 0\<rparr>"

definition chat_post :: http_request where
  "chat_post = \<lparr>rq_method = ''POST'', rq_target = ''/v1/chat/completions'', rq_body = ''b''\<rparr>"

lemma narrow_new: "new_gateway narrow_config = Inr narrow_gateway"
proof -
  have "\<exists>gw. new_gateway narrow_config = Inr gw"
    by (simp add: new_gateway_def narrow_config_def example_config_def default_config_def new_backend_def
        parse_target_def strip_scheme_def starts_with_def strip_path_def split_port_def)
  then show ?thesis by (auto simp: narrow_gateway_def)
qed

lemma narrow_start: "gw_start narrow_start"
proof -
  have "config_ok narrow_config"
    using example_config_ok by (simp add: config_ok_def narrow_config_def server_ok_def)
  then show ?thesis
    using narrow_new by (auto simp: gw_start_def narrow_start_def intro!: exI [of _ narrow_config])
      (simp add: narrow_config_def example_config_def)
qed

text \<open>What stays the same along the run: one backend, unprobed, serving the model \<open>m\<close>.\<close>

definition narrow :: "gateway \<Rightarrow> bool" where
  "narrow gw \<longleftrightarrow> length (gw_backends gw) = 1 \<and> bc_models (be_conf (gw_backends gw ! 0)) = [''m''] \<and>
     observed_health (gw_backends gw ! 0) \<noteq> Healthy \<and> \<not> gw_draining gw"

lemma narrow_gateway: "narrow narrow_gateway"
  "gw_gate narrow_gateway = new_gate 1 (sc_queue_depth default_server) (of_ms (sc_queue_timeout_ms default_server))"
  by (simp_all add: narrow_gateway_def narrow_def new_gateway_def narrow_config_def example_config_def
      default_config_def new_backend_def parse_target_def strip_scheme_def starts_with_def strip_path_def
      split_port_def observed_health_def new_monitor_def)

lemma narrow_updates [simp]:
  "narrow (gw\<lparr>gw_gate := x\<rparr>) = narrow gw" "narrow (gw\<lparr>gw_in_flight := n\<rparr>) = narrow gw"
  "narrow (gw\<lparr>gw_registry := r'\<rparr>) = narrow gw"
  "narrow (update_registry r gw) = narrow gw" "narrow (publish_admission_gauges gw) = narrow gw"
  by (simp_all add: narrow_def update_registry_def publish_admission_gauges_def)

section \<open>The moves\<close>

text \<open>The locals of a request for the model \<open>m\<close>, up to the fields that do not matter here.\<close>

definition plain_ctx :: "chat_ctx \<Rightarrow> bool" where
  "plain_ctx ctx \<longleftrightarrow> cx_serving ctx = [0] \<and> cx_slot ctx = None \<and> cx_sent ctx = [] \<and> cx_keep ctx"

definition unavailable :: wire where
  "unavailable = json_response True 503 ''{}''"

lemma narrow_route:
  assumes "narrow gw" "plain_ctx ctx"
  shows "route_and_walk retry_lib t ctx gw = (gw, None, ChatReply (ctx\<lparr>cx_code := 503\<rparr>) unavailable)"
proof -
  have "eligible_candidates [0] gw = []" using assms(1) by (simp add: eligible_candidates_def narrow_def)
  with assms show ?thesis
    by (simp add: route_and_walk_def plain_ctx_def reply_def error_json_def retry_dump unavailable_def)
qed

lemma narrow_admitted:
  assumes "narrow gw" "plain_ctx ctx" "is_admitted adm"
  obtains gw' ctx' where "after_admit retry_lib t adm ctx gw = (gw', None, ChatReply ctx' unavailable)"
    "narrow gw'" "plain_ctx ctx'" "cx_ticket ctx'" "cx_code ctx' = 503" "gw_gate gw' = gw_gate gw"
    "requests_running (gw_registry gw') = in_flight (gw_gate gw)"
proof -
  let ?r = "observe_queue_time (cx_labels ctx) (seconds_of (queued_for adm))"
  let ?gw = "publish_admission_gauges (update_registry ?r gw)"
  have "plain_ctx (ctx\<lparr>cx_ticket := True, cx_admitted := t\<rparr>)" using assms(2) by (simp add: plain_ctx_def)
  from narrow_route [OF _ this, of ?gw t] assms
  have "after_admit retry_lib t adm ctx gw =
      (?gw, None, ChatReply (ctx\<lparr>cx_ticket := True, cx_admitted := t, cx_code := 503\<rparr>) unavailable)"
    by (simp add: after_admit_def)
  then show ?thesis
    by (rule that) (use assms in \<open>simp_all add: plain_ctx_def publish_admission_gauges_def
        update_registry_def set_requests_running_def set_requests_waiting_def\<close>)
qed

lemma narrow_arrival:
  assumes "narrow gw"
  obtains ctx where "handle retry_lib w t chat_post True gw =
      acquire_and_go retry_lib w t ctx (gw\<lparr>gw_in_flight := gw_in_flight gw + 1\<rparr>)"
    "plain_ctx ctx" "\<not> cx_ticket ctx"
proof -
  let ?ctx = "(new_ctx t True)\<lparr>cx_labels := Labels ''chat_completions'' [] ''m'', cx_req := example_request,
    cx_serving := [0]\<rparr>"
  have "backends_for_model ''m'' (gw\<lparr>gw_in_flight := gw_in_flight gw + 1\<rparr>) = [0]"
    using assms by (simp add: backends_for_model_def narrow_def upt_rec)
  then have "handle retry_lib w t chat_post True gw =
      acquire_and_go retry_lib w t ?ctx (gw\<lparr>gw_in_flight := gw_in_flight gw + 1\<rparr>)"
    using assms parse_example
    by (simp add: handle_def chat_post_def handle_chat_def retry_lib_def narrow_def example_request_def)
  then show ?thesis by (rule that) (simp_all add: plain_ctx_def new_ctx_def)
qed

lemma narrow_leave:
  assumes "narrow gw" "plain_ctx ctx" "cx_ticket ctx" "cx_code ctx = 503" "gate_release (gw_gate gw) = (gt, g)"
  obtains gw' where "resume retry_lib w t (Written True) (ChatReply ctx unavailable) gw =
      Some (gw', g, Done (Inr True) [unavailable])"
    "narrow gw'" "gw_gate gw' = gt" "requests_running (gw_registry gw') = requests_running (gw_registry gw)"
proof -
  have "requests_running (record_terminal t c r) = requests_running r" for c r
    by (simp add: record_terminal_def registry_defs)
  then have run: "requests_running (gw_registry (update_registry (record_terminal t c) x)) =
      requests_running (gw_registry x)" for c x by (simp add: update_registry_def)
  have "resume retry_lib w t (Written True) (ChatReply ctx unavailable) gw =
      Some ((update_registry (record_terminal t (ctx\<lparr>cx_sent := [unavailable]\<rparr>)) (gw\<lparr>gw_gate := gt\<rparr>))
        \<lparr>gw_in_flight := gw_in_flight gw - 1\<rparr>, g, Done (Inr True) [unavailable])"
    using assms by (simp add: plain_ctx_def finish_def drop_slot_def drop_ticket_def Let_def)
  then show ?thesis by (rule that) (simp_all add: assms(1) run)
qed

section \<open>The run\<close>

lemma narrow_gate:
  "0 < queue_depth (gw_gate narrow_gateway)" "waiters (gw_gate narrow_gateway) = []"
  "in_flight (gw_gate narrow_gateway) = 0" "max_concurrent (gw_gate narrow_gateway) = 1"
  by (simp_all add: narrow_gateway(2) new_gate_def default_server_def)

text \<open>The first request takes the slot and finds no backend; the second waits.\<close>

lemma narrow_first:
  obtains gw ctx where "handle retry_lib 0 0 chat_post True narrow_gateway = (gw, None, ChatReply ctx unavailable)"
    "narrow gw" "plain_ctx ctx" "cx_ticket ctx" "cx_code ctx = 503"
    "gw_gate gw = (gw_gate narrow_gateway)\<lparr>in_flight := 1\<rparr>" "requests_running (gw_registry gw) = 1"
proof -
  let ?g0 = "gw_gate narrow_gateway"
  obtain ctx0 where h0: "handle retry_lib 0 0 chat_post True narrow_gateway =
      acquire_and_go retry_lib 0 0 ctx0 (narrow_gateway\<lparr>gw_in_flight := gw_in_flight narrow_gateway + 1\<rparr>)"
    "plain_ctx ctx0" "\<not> cx_ticket ctx0" by (rule narrow_arrival [OF narrow_gateway(1)])
  let ?gw0 = "narrow_gateway\<lparr>gw_in_flight := gw_in_flight narrow_gateway + 1, gw_gate := ?g0\<lparr>in_flight := 1\<rparr>\<rparr>"
  let ?adm = "\<lparr>status = Admitted, queued_for = 0\<rparr>"
  obtain gw1 ctx1 where a1: "after_admit retry_lib 0 ?adm ctx0 ?gw0 = (gw1, None, ChatReply ctx1 unavailable)"
    "narrow gw1" "plain_ctx ctx1" "cx_ticket ctx1" "cx_code ctx1 = 503" "gw_gate gw1 = ?g0\<lparr>in_flight := 1\<rparr>"
    "requests_running (gw_registry gw1) = 1"
    using narrow_admitted [of ?gw0 ctx0 ?adm 0] narrow_gateway(1) h0(2) by (auto simp: is_admitted_def)
  have "handle retry_lib 0 0 chat_post True narrow_gateway = (gw1, None, ChatReply ctx1 unavailable)"
    using h0(1) a1(1) narrow_gate by (simp add: acquire_and_go_def gate_enter_def)
  then show ?thesis by (rule that) (rule a1(2-7))+
qed

lemma narrow_fills:
  obtains s1 gw2 ctx1 ctx2 d where "gw_step retry_lib narrow_start s1"
    "gw_step retry_lib s1 \<lparr>sys_gw = gw2, sessions = [ChatReply ctx1 unavailable, ChatWait ctx2 False 0 d], sys_now = 0\<rparr>"
    "sessions s1 = [ChatReply ctx1 unavailable]" "requests_running (gw_registry (sys_gw s1)) = 1"
    "narrow gw2" "plain_ctx ctx1" "cx_ticket ctx1" "cx_code ctx1 = 503" "plain_ctx ctx2"
    "in_flight (gw_gate gw2) = 1" "waiters (gw_gate gw2) = [1]"
proof -
  let ?g0 = "gw_gate narrow_gateway"
  obtain gw1 ctx1 where a1: "handle retry_lib 0 0 chat_post True narrow_gateway = (gw1, None, ChatReply ctx1 unavailable)"
    "narrow gw1" "plain_ctx ctx1" "cx_ticket ctx1" "cx_code ctx1 = 503" "gw_gate gw1 = ?g0\<lparr>in_flight := 1\<rparr>"
    "requests_running (gw_registry gw1) = 1" by (rule narrow_first)
  define s1 where "s1 = \<lparr>sys_gw = gw1, sessions = [ChatReply ctx1 unavailable], sys_now = 0\<rparr>"
  have st1: "gw_step retry_lib narrow_start s1"
    using gw_step.arrive [of narrow_start 0 retry_lib chat_post True gw1 None "ChatReply ctx1 unavailable"] a1(1)
    by (simp add: narrow_start_def s1_def)
  obtain ctx2 where h1: "handle retry_lib 1 0 chat_post True gw1 =
      acquire_and_go retry_lib 1 0 ctx2 (gw1\<lparr>gw_in_flight := gw_in_flight gw1 + 1\<rparr>)"
    "plain_ctx ctx2" "\<not> cx_ticket ctx2" by (rule narrow_arrival [OF a1(2)])
  let ?d = "queue_timeout ?g0"
  let ?gw2 = "gw1\<lparr>gw_in_flight := gw_in_flight gw1 + 1, gw_gate := ?g0\<lparr>in_flight := 1, waiters := [1]\<rparr>\<rparr>"
  have st2: "gw_step retry_lib s1 \<lparr>sys_gw = ?gw2,
      sessions = [ChatReply ctx1 unavailable, ChatWait ctx2 False 0 ?d], sys_now = 0\<rparr>"
    using gw_step.arrive [of s1 0 retry_lib chat_post True ?gw2 None "ChatWait ctx2 False 0 ?d"] h1(1) a1(6) narrow_gate
    by (simp add: s1_def acquire_and_go_def gate_enter_def)
  show ?thesis by (rule that [OF st1 st2]) (use a1 h1(2) in \<open>simp_all add: s1_def\<close>)
qed

lemma narrow_run:
  obtains s1 s2 s3 s4 s5 where
    "gw_step retry_lib narrow_start s1" "gw_step retry_lib s1 s2" "gw_step retry_lib s2 s3"
    "gw_step retry_lib s3 s4" "gw_step retry_lib s4 s5"
    "\<exists>ctx. cx_ticket ctx \<and> sessions s1 = [ChatReply ctx unavailable]"
    "\<exists>ctx0 ctx d. cx_ticket ctx0 \<and> sessions s2 = [ChatReply ctx0 unavailable, ChatWait ctx False 0 d]"
    "\<exists>ctx d. sessions s3 = [Done (Inr True) [unavailable], ChatWait ctx True 0 d]"
    "\<exists>ctx. cx_ticket ctx \<and> sessions s4 = [Done (Inr True) [unavailable], ChatReply ctx unavailable]"
    "sessions s5 = [Done (Inr True) [unavailable], Done (Inr True) [unavailable]]"
    "requests_running (gw_registry (sys_gw s1)) = 1" "requests_running (gw_registry (sys_gw s5)) = 1"
    "rtranclp (gw_step retry_lib) narrow_start s2" "rtranclp (gw_step retry_lib) narrow_start s5"
proof -
  let ?out = "Done (Inr True) [unavailable]" and ?adm = "\<lparr>status = Admitted, queued_for = 0\<rparr>"
  obtain s1 gw2 ctx1 ctx2 d where f: "gw_step retry_lib narrow_start s1"
    "gw_step retry_lib s1 \<lparr>sys_gw = gw2, sessions = [ChatReply ctx1 unavailable, ChatWait ctx2 False 0 d], sys_now = 0\<rparr>"
    "sessions s1 = [ChatReply ctx1 unavailable]" "requests_running (gw_registry (sys_gw s1)) = 1"
    and gw2: "narrow gw2" "plain_ctx ctx1" "cx_ticket ctx1" "cx_code ctx1 = 503" "plain_ctx ctx2"
    "in_flight (gw_gate gw2) = 1" "waiters (gw_gate gw2) = [1]" by (rule narrow_fills)
  define s2 where "s2 = \<lparr>sys_gw = gw2, sessions = [ChatReply ctx1 unavailable, ChatWait ctx2 False 0 d], sys_now = 0\<rparr>"
  obtain gw3 where l3: "resume retry_lib 0 0 (Written True) (ChatReply ctx1 unavailable) gw2 = Some (gw3, Some 1, ?out)"
    "narrow gw3" "gw_gate gw3 = (gw_gate gw2)\<lparr>waiters := []\<rparr>"
    using narrow_leave [of gw2 ctx1 "(gw_gate gw2)\<lparr>waiters := []\<rparr>" "Some 1" 0 0] gw2
    by (auto simp: gate_release_def)
  define s3 where "s3 = \<lparr>sys_gw = gw3, sessions = [?out, ChatWait ctx2 True 0 d], sys_now = 0\<rparr>"
  have st3: "gw_step retry_lib s2 s3"
    using gw_step.wake [of s2 0 0 retry_lib "Written True" gw3 "Some 1" ?out] l3(1) by (simp add: s2_def s3_def)
  obtain gw4 ctx4 where a4: "after_admit retry_lib 0 ?adm ctx2 gw3 = (gw4, None, ChatReply ctx4 unavailable)"
    "narrow gw4" "plain_ctx ctx4" "cx_ticket ctx4" "cx_code ctx4 = 503" "gw_gate gw4 = gw_gate gw3"
    "requests_running (gw_registry gw4) = 1"
    using narrow_admitted [of gw3 ctx2 ?adm 0] l3(2,3) gw2(5,6) by (auto simp: is_admitted_def)
  define s4 where "s4 = \<lparr>sys_gw = gw4, sessions = [?out, ChatReply ctx4 unavailable], sys_now = 0\<rparr>"
  have st4: "gw_step retry_lib s3 s4"
    using gw_step.wake [of s3 0 1 retry_lib TimerDone gw4 None "ChatReply ctx4 unavailable"] a4(1)
    by (simp add: s3_def s4_def gate_resume_def)
  obtain gw5 where l5: "resume retry_lib 1 0 (Written True) (ChatReply ctx4 unavailable) gw4 = Some (gw5, None, ?out)"
    "requests_running (gw_registry gw5) = 1"
    using narrow_leave [of gw4 ctx4 "(gw_gate gw2)\<lparr>waiters := [], in_flight := 0\<rparr>" None 1 0] a4 l3(3) gw2(6)
    by (auto simp: gate_release_def)
  define s5 where "s5 = \<lparr>sys_gw = gw5, sessions = [?out, ?out], sys_now = 0\<rparr>"
  have st5: "gw_step retry_lib s4 s5"
    using gw_step.wake [of s4 0 1 retry_lib "Written True" gw5 None ?out] l5(1) by (simp add: s4_def s5_def)
  have r2: "rtranclp (gw_step retry_lib) narrow_start s2"
    using f(1,2) unfolding s2_def by (meson rtranclp.rtrancl_into_rtrancl rtranclp.rtrancl_refl)
  then have r5: "rtranclp (gw_step retry_lib) narrow_start s5"
    using st3 st4 st5 by (meson rtranclp.rtrancl_into_rtrancl)
  show ?thesis
    by (rule that [OF f(1) f(2) [folded s2_def] st3 st4 st5 _ _ _ _ _ _ _ r2 r5])
       (use f(3,4) gw2(3) a4(4) l5(2) in \<open>auto simp: s2_def s3_def s4_def s5_def\<close>)
qed

end
