(* ===== verification/Gateway_Queue.thy ===== *)
theory Gateway_Queue
  imports Gateway_Law Gateway_Example
begin

text \<open>
  The gateway as a client of the admission gate.  Every run of the gateway, with any number of
  requests anywhere in the handler, is a run of the coroutines around the gate in \<open>Admission\<close>: what is
  proved there of the gate alone holds of the requests of the gateway, the order of admission first.
\<close>

section \<open>Requests as coroutines around the gate\<close>

definition gate_ctx :: "chat_ctx \<Rightarrow> gate_pc" where
  "gate_ctx ctx = (if cx_ticket ctx then GHold else GIdle)"

fun gate_view :: "session \<Rightarrow> gate_pc" where
  "gate_view (ChatWait ctx granted start deadline) = GWait granted start deadline"
| "gate_view (ChatUnary ctx) = gate_ctx ctx"
| "gate_view (ChatStream ctx fs) = gate_ctx ctx"
| "gate_view (ChatReply ctx out) = gate_ctx ctx"
| "gate_view (ChatEnd ctx fs plan) = gate_ctx ctx"
| "gate_view p = GIdle"

text \<open>
  Who waits in a state; who joined the queue and who was granted a slot from it in a step.  A run of
  the gateway with the two histories.
\<close>

definition waiting_in :: "gw_sys \<Rightarrow> nat list" where
  "waiting_in s = filter (\<lambda>i. gate_queued (gate_view (sessions s ! i))) [0..<length (sessions s)]"

definition joined :: "gw_sys \<Rightarrow> gw_sys \<Rightarrow> nat list" where
  "joined s t = filter (\<lambda>i. i \<notin> set (waiting_in s)) (waiting_in t)"

definition admitted_in :: "gw_sys \<Rightarrow> gw_sys \<Rightarrow> nat list" where
  "admitted_in s t = filter (\<lambda>i. gate_holds (gate_view (sessions t ! i))) (waiting_in s)"

inductive queue_run :: "lib \<Rightarrow> gw_sys \<Rightarrow> nat list \<Rightarrow> nat list \<Rightarrow> bool" for lib where
  started: "gw_start s \<Longrightarrow> queue_run lib s [] []"
| moved: "queue_run lib s js gs \<Longrightarrow> gw_step lib s t \<Longrightarrow>
     queue_run lib t (js @ joined s t) (gs @ admitted_in s t)"

section \<open>What a segment does to the gate\<close>

text \<open>
  Behind the gate a request keeps its slot or its lack of one, or leaves the handler and releases the
  slot it has.
\<close>

definition behind_gate :: "bool \<Rightarrow> global_gate \<Rightarrow> segment \<Rightarrow> bool" where
  "behind_gate ticket gt seg =
     (case seg of (gw, g, q) \<Rightarrow>
        gw_gate gw = gt \<and> g = None \<and> gate_view q = (if ticket then GHold else GIdle) \<or>
        ticket \<and> gate_release gt = (gw_gate gw, g) \<and> gate_view q = GIdle)"

lemma gate_helpers [simp]:
  "gw_gate (drop_slot ctx gw) = gw_gate gw" "gw_gate (note_failure now ctx gw) = gw_gate gw"
  "gw_gate (note_success ctx gw) = gw_gate gw" "gw_gate (publish_admission_gauges gw) = gw_gate gw"
  "gw_gate (update_breaker k h gw) = gw_gate gw"
  by (simp_all add: drop_slot_def note_failure_def note_success_def publish_admission_gauges_def
      update_breaker_def split: option.split)

lemma record_spills_gate:
  "record_spills k ctx gw = (ctx', gw') \<Longrightarrow> cx_ticket ctx' = cx_ticket ctx \<and> gw_gate gw' = gw_gate gw"
  by (auto simp: record_spills_def split: if_splits)

lemma finish_gate: "behind_gate (cx_ticket ctx) (gw_gate gw) (finish now ctx res gw)"
  by (auto simp: behind_gate_def finish_def drop_ticket_def Let_def split: prod.split)

interpretation ticketed: handler_law now "\<lambda>ctx gw. cx_ticket ctx = ticket \<and> gw_gate gw = gt"
  "behind_gate ticket gt" for now ticket gt
proof (unfold_locales, goal_cases)
  case (3 ctx gw k ctx' gw')
  then show ?case using record_spills_gate by simp
next
  case (8 ctx gw k cb dec gw2 l ctx2 rest q)
  then show ?case by (auto simp: behind_gate_def gate_ctx_def)
next
  case (9 ctx gw res)
  then show ?case using finish_gate by blast
qed (auto simp: behind_gate_def gate_ctx_def)

lemma after_admit_gate:
  "cx_ticket ctx = False \<Longrightarrow>
   behind_gate (is_admitted adm) (gw_gate gw) (after_admit lib now adm ctx gw)"
  by (intro ticketed.after_admit_ends) simp_all

lemma after_call_gate:
  "behind_gate (cx_ticket ctx) (gw_gate gw) (after_unary lib now ur ctx gw)"
  "behind_gate (cx_ticket ctx) (gw_gate gw) (after_stream lib now sr ctx fs gw)"
  by (rule ticketed.after_unary_ends ticketed.after_stream_ends; simp)+

text \<open>Every wake-up but that of a waiter happens behind the gate.\<close>

lemma resume_gate:
  assumes "resume lib w now wk p gw = Some (gw', g, q)" "gate_view p = GIdle \<or> gate_view p = GHold"
  shows "behind_gate (gate_view p = GHold) (gw_gate gw) (gw', g, q)"
  using assms
proof (induction lib w now wk p gw rule: resume.induct)
  case (2 lib w now ur ctx gw)
  with after_call_gate(1) [of ctx gw lib now ur] show ?case by (auto simp: gate_ctx_def)
next
  case (3 lib w now ev ok1 ok2 ctx fs gw)
  obtain gw1 ctx1 fs1 k where f: "sink_frame now ok1 ok2 ev ctx fs gw = ((gw1, ctx1, fs1), k)"
    by (metis surj_pair)
  then have "gw_gate gw1 = gw_gate gw" "cx_ticket ctx1 = cx_ticket ctx"
    by (auto simp: sink_frame_def Let_def split: if_splits sum.splits prod.splits)
  with f 3 show ?case by (auto simp: behind_gate_def gate_ctx_def)
next
  case (4 lib w now sr ctx fs gw)
  with after_call_gate(2) [of ctx gw lib now sr fs] show ?case by (auto simp: gate_ctx_def)
next
  case (5 lib w now ok ctx out gw)
  then show ?case
    using finish_gate [of "ctx\<lparr>cx_sent := cx_sent ctx @ [out]\<rparr>" gw now "Inr (cx_keep ctx)"]
      finish_gate [of ctx gw now "Inl ()"]
    by (auto simp: gate_ctx_def split: if_splits)
next
  case (7 lib w now ok1 ok2 ok3 ctx fs plan gw)
  obtain ctx1 res where e: "end_stream ok1 ok2 ok3 plan ctx fs = (ctx1, res)" by fastforce
  then have "cx_ticket ctx1 = cx_ticket ctx"
    using end_stream_view(1) [OF e] by (auto simp: ctx_view_def split: if_splits)
  with 7 e finish_gate [of ctx1 gw now res] show ?case by (auto simp: gate_ctx_def)
qed (auto simp: behind_gate_def split: if_splits)


section \<open>The simulation\<close>

definition granted_list :: "nat option \<Rightarrow> nat list" where
  "granted_list g = (case g of None \<Rightarrow> [] | Some w \<Rightarrow> [w])"

fun grant_pcs :: "nat option \<Rightarrow> gate_pc list \<Rightarrow> gate_pc list" where
  "grant_pcs None pcs = pcs"
| "grant_pcs (Some w) pcs = pcs[w := gate_grant (pcs ! w)]"

text \<open>
  A state of the gate's coroutines that mirrors a state of the gateway; \<open>n\<close> coroutines have not
  started yet.
\<close>

definition mirrors :: "nat \<Rightarrow> gateway \<Rightarrow> session list \<Rightarrow> time_ns \<Rightarrow> gate_sys \<Rightarrow> bool" where
  "mirrors n gw ss now u \<longleftrightarrow>
     gs_gate u = gw_gate gw \<and> gs_pcs u = map gate_view ss @ replicate n GIdle \<and> gs_now u \<le> now \<and>
     (\<exists>u0. gate_start u0 \<and> rtranclp gate_step u0 u)"

lemma mirrors_inv: "mirrors n gw ss now u \<Longrightarrow> gate_sys_inv u"
  unfolding mirrors_def using gate_sys.reachable_inv by blast

lemma gate_view_grant: "gate_view (grant_session p) = gate_grant (gate_view p)"
  by (cases p) (simp_all add: gate_ctx_def)

lemma grant_pcs_sessions:
  "grant_pcs g (map gate_view ss @ replicate n GIdle) = map gate_view (apply_grant g ss) @ replicate n GIdle"
proof (cases g)
  case (Some w)
  show ?thesis
  proof (cases "w < length ss")
    case True
    with Some show ?thesis by (simp add: nth_append list_update_append map_update gate_view_grant)
  next
    case False
    then have "w < length ss + n \<Longrightarrow> (map gate_view ss @ replicate n GIdle) ! w = GIdle"
      by (simp add: nth_append)
    with Some False show ?thesis
      by (cases "w < length ss + n")
         (simp_all add: list_update_beyond list_update_append list_update_same_conv nth_append)
  qed
qed simp

text \<open>Behind the gate a segment is no step of the gate's system or a release.\<close>

lemma behind_gate_step:
  assumes "behind_gate ticket (gs_gate u) (gw, g, q)" "gate_sys_inv u" "i < length (gs_pcs u)"
    and "gs_pcs u ! i = (if ticket then GHold else GIdle)"
  shows "\<exists>u'. rtranclp gate_step u u' \<and> gs_gate u' = gw_gate gw \<and> gs_now u' = gs_now u \<and>
    gs_pcs u' = grant_pcs g ((gs_pcs u)[i := gate_view q]) \<and> enq_log u' = enq_log u \<and>
    grant_log u' = grant_log u @ granted_list g"
proof (cases "gw_gate gw = gs_gate u \<and> g = None \<and> gate_view q = gs_pcs u ! i")
  case True
  then show ?thesis by (intro exI [of _ u]) (simp add: granted_list_def list_update_id)
next
  case False
  with assms have r: "gs_pcs u ! i = GHold" "gate_release (gs_gate u) = (gw_gate gw, g)" "gate_view q = GIdle"
    by (auto simp: behind_gate_def split: if_splits)
  show ?thesis
  proof (cases g)
    case None
    let ?u = "u\<lparr>gs_gate := gw_gate gw, gs_pcs := (gs_pcs u)[i := GIdle]\<rparr>"
    have "gate_step u ?u" using gate_step.free [OF assms(3) r(1)] r(2) None by simp
    with None r(3) show ?thesis by (intro exI [of _ ?u]) (simp add: granted_list_def r_into_rtranclp)
  next
    case (Some w)
    have "gate_queued (gs_pcs u ! w)"
      using gate_clients.consistent_granted_is_queued [OF _ assms(3) _ r(2) [unfolded Some]] assms(2) r(1)
      by (auto simp: gate_sys_inv_def)
    then have "w \<noteq> i" using r(1) by auto
    let ?u = "u\<lparr>gs_gate := gw_gate gw, gs_pcs := (gs_pcs u)[i := GIdle, w := gate_grant (gs_pcs u ! w)],
      grant_log := grant_log u @ [w]\<rparr>"
    have "gate_step u ?u" using gate_step.hand_over [OF assms(3) r(1)] r(2) Some by simp
    with Some r(3) \<open>w \<noteq> i\<close> show ?thesis
      by (intro exI [of _ ?u]) (simp add: granted_list_def r_into_rtranclp)
  qed
qed

text \<open>
  Request \<open>i\<close> is where the mirror has it; a segment it runs is simulated when the mirror can follow,
  joining the queue and granting slots as the segment does.
\<close>

definition ready :: "gate_sys \<Rightarrow> nat \<Rightarrow> time_ns \<Rightarrow> gateway \<Rightarrow> gate_pc \<Rightarrow> bool" where
  "ready u i t gw pc \<longleftrightarrow>
     gate_sys_inv u \<and> i < length (gs_pcs u) \<and> gs_pcs u ! i = pc \<and> gs_gate u = gw_gate gw \<and> gs_now u \<le> t"

definition simulated :: "gate_sys \<Rightarrow> nat \<Rightarrow> time_ns \<Rightarrow> segment \<Rightarrow> bool" where
  "simulated u i t seg =
     (case seg of (gw, g, q) \<Rightarrow>
        \<exists>u'. rtranclp gate_step u u' \<and> gs_gate u' = gw_gate gw \<and> gs_now u' \<le> t \<and>
          gs_pcs u' = grant_pcs g ((gs_pcs u)[i := gate_view q]) \<and>
          enq_log u' = enq_log u @ (if gate_queued (gate_view q) then [i] else []) \<and>
          grant_log u' = grant_log u @ granted_list g)"

lemma behind_unqueued: "behind_gate ticket gt (gw, g, q) \<Longrightarrow> \<not> gate_queued (gate_view q)"
  by (auto simp: behind_gate_def split: if_splits)

lemma simulated_behind:
  assumes "ready u i t gw (if ticket then GHold else GIdle)" "behind_gate ticket (gw_gate gw) seg"
  shows "simulated u i t seg"
proof -
  obtain gw' g q where seg: "seg = (gw', g, q)" by (metis surj_pair)
  with assms behind_gate_step [of ticket u gw' g q i] behind_unqueued [of ticket "gw_gate gw" gw' g q]
  show ?thesis by (fastforce simp: ready_def simulated_def)
qed

text \<open>
  The places in the queue: a slot is granted to somebody who waits, by somebody who does not; who
  leaves the queue by himself is idle afterwards; who joins it was idle before.
\<close>

definition queue_turn :: "global_gate \<Rightarrow> gate_pc \<Rightarrow> segment \<Rightarrow> bool" where
  "queue_turn gt pc seg =
     (case seg of (gw, g, q) \<Rightarrow>
        (\<forall>w. g = Some w \<longrightarrow> w \<in> set (waiters gt) \<and> \<not> gate_queued pc) \<and>
        (gate_queued pc \<longrightarrow> gate_view q = GIdle) \<and> (gate_queued (gate_view q) \<longrightarrow> pc = GIdle))"

lemma behind_turn:
  assumes "behind_gate ticket gt1 seg" "set (waiters gt1) \<subseteq> set (waiters gt)" "ticket \<Longrightarrow> \<not> gate_queued pc"
  shows "queue_turn gt pc seg"
  using assms
  by (auto simp: behind_gate_def queue_turn_def gate_release_def split: if_splits list.splits)

definition followed :: "gate_sys \<Rightarrow> nat \<Rightarrow> time_ns \<Rightarrow> segment \<Rightarrow> bool" where
  "followed u i t seg \<longleftrightarrow> simulated u i t seg \<and> queue_turn (gs_gate u) (gs_pcs u ! i) seg"

lemma followed_behind:
  assumes "ready u i t gw (if ticket then GHold else GIdle)" "behind_gate ticket (gw_gate gw) seg"
  shows "followed u i t seg"
  using simulated_behind [OF assms] behind_turn [OF assms(2), of "gw_gate gw" "gs_pcs u ! i"] assms(1)
  by (simp add: followed_def ready_def)

text \<open>One step of the mirror at the gate, then what follows behind it.\<close>

lemma simulated_step:
  assumes "gate_step u u1" "gs_pcs u1 = (gs_pcs u)[i := pc]" "enq_log u1 = enq_log u"
    "grant_log u1 = grant_log u" "simulated u1 i t seg"
  shows "simulated u i t seg"
  using assms converse_rtranclp_into_rtranclp [where r = gate_step and a = u and b = u1]
  by (fastforce simp: simulated_def split: prod.splits)

lemma ready_step:
  assumes "ready u i t gw pc" "gate_step u u1" "gs_pcs u1 = (gs_pcs u)[i := pc1]" "gs_gate u1 = gw_gate gw1"
    "gs_now u1 = t"
  shows "ready u1 i t gw1 pc1"
  using assms gate_sys.step_inv [OF _ assms(2)] by (simp add: ready_def)

lemma wait_followed:
  assumes "resume lib i t TimerDone (ChatWait ctx granted a b) gw = Some seg"
    and "ready u i t gw (GWait granted a b)" "cx_ticket ctx = False"
  shows "followed u i t seg"
proof -
  obtain gt adm where r: "gate_resume i granted a t (gw_gate gw) = (gt, adm)" by fastforce
  with assms(1) have seg: "seg = after_admit lib t adm ctx (gw\<lparr>gw_gate := gt\<rparr>)" and due: "granted \<or> b \<le> t"
    by (auto split: if_splits)
  let ?pc = "if granted then GHold else GIdle"
  let ?u = "u\<lparr>gs_gate := gt, gs_pcs := (gs_pcs u)[i := ?pc], gs_now := t\<rparr>"
  have st: "gate_step u ?u"
    using assms(2) r due gate_step.resume_ok [of i u a b t gt adm] gate_step.resume_timeout [of i u a b t gt adm]
    by (cases granted) (simp_all add: ready_def)
  have "is_admitted adm = granted" using r by (auto simp: gate_resume_def is_admitted_def split: if_splits)
  with after_admit_gate [OF assms(3), of adm "gw\<lparr>gw_gate := gt\<rparr>" lib t] seg
  have b: "behind_gate granted (gw_gate (gw\<lparr>gw_gate := gt\<rparr>)) seg" by simp
  have "set (waiters gt) \<subseteq> set (waiters (gs_gate u))"
    using r assms(2) set_remove1_subset [of i "waiters (gw_gate gw)"]
    by (auto simp: ready_def gate_resume_def gate_forget_def split: if_splits)
  then have "queue_turn (gs_gate u) (gs_pcs u ! i) seg"
    using behind_turn [OF b] assms(2) by (simp add: ready_def)
  moreover from simulated_behind [OF ready_step [OF assms(2) st] b] have "simulated ?u i t seg" by simp
  ultimately show ?thesis using simulated_step [OF st] by (simp add: followed_def)
qed

lemma resume_followed:
  assumes "resume lib i t wk p gw = Some (gw', g, q)" "ready u i t gw (gate_view p)" "session_ok n p"
  shows "followed u i t (gw', g, q)"
proof (cases "\<exists>ctx granted a b. p = ChatWait ctx granted a b")
  case True
  then obtain ctx granted a b where p: "p = ChatWait ctx granted a b" by blast
  then have "wk = TimerDone" using assms(1) by (cases wk) simp_all
  with p assms wait_followed [of lib i t ctx granted a b gw "(gw', g, q)" u] show ?thesis by simp
next
  case False
  then have pc: "gate_view p = GIdle \<or> gate_view p = GHold" by (cases p) (simp_all add: gate_ctx_def)
  then have "ready u i t gw (if gate_view p = GHold then GHold else GIdle)" using assms(2) by auto
  from followed_behind [OF this resume_gate [OF assms(1) pc]] show ?thesis .
qed

lemma acquire_followed:
  assumes "ready u i t gw GIdle" "cx_ticket ctx = False"
  shows "followed u i t (acquire_and_go lib i t ctx gw)"
proof (cases "gate_enter i t (gw_gate gw)")
  case (Pair gt r)
  show ?thesis
  proof (cases r)
    case (Ready adm)
    then have e: "gate_enter i t (gs_gate u) = (gt, Ready adm)" using Pair assms(1) by (simp add: ready_def)
    let ?pc = "if is_admitted adm then GHold else GIdle"
    let ?u = "u\<lparr>gs_gate := gt, gs_pcs := (gs_pcs u)[i := ?pc], gs_now := t\<rparr>"
    have st: "gate_step u ?u"
      using assms(1) gate_step.enter_ok [OF _ _ _ e] gate_step.enter_full [OF _ _ _ e]
      by (cases "is_admitted adm") (simp_all add: ready_def update_same)
    have b: "behind_gate (is_admitted adm) (gw_gate (gw\<lparr>gw_gate := gt\<rparr>)) (acquire_and_go lib i t ctx gw)"
      using after_admit_gate [OF assms(2), of adm "gw\<lparr>gw_gate := gt\<rparr>" lib t] Pair Ready
      by (simp add: acquire_and_go_def)
    have "waiters gt = waiters (gs_gate u)" using e by (auto simp: gate_enter_def split: if_splits)
    then have "queue_turn (gs_gate u) (gs_pcs u ! i) (acquire_and_go lib i t ctx gw)"
      using behind_turn [OF b] assms(1) by (simp add: ready_def)
    moreover from simulated_behind [OF ready_step [OF assms(1) st] b]
    have "simulated ?u i t (acquire_and_go lib i t ctx gw)" by simp
    ultimately show ?thesis using simulated_step [OF st] by (simp add: followed_def)
  next
    case (Suspended a b)
    let ?u = "u\<lparr>gs_gate := gt, gs_pcs := (gs_pcs u)[i := GWait False a b], gs_now := t, enq_log := enq_log u @ [i]\<rparr>"
    have "gate_step u ?u"
      using assms(1) Pair Suspended by (intro gate_step.enter_wait) (simp_all add: ready_def)
    then have "rtranclp gate_step u ?u" by (rule r_into_rtranclp)
    with Pair Suspended assms(1) show ?thesis
      by (auto simp: acquire_and_go_def followed_def simulated_def queue_turn_def granted_list_def ready_def
          intro!: exI [of _ ?u])
  qed
qed

lemma handle_followed:
  assumes "ready u i t gw GIdle"
  shows "followed u i t (handle lib i t req keep gw)"
proof -
  have b: "behind_gate False (gw_gate gw) seg \<Longrightarrow> followed u i t seg" for seg
    using followed_behind [of u i t gw False seg] assms by simp
  have plain: "followed u i t (plain_reply keep' code body gw)" for keep' code body
    by (rule b) (simp add: plain_reply_def behind_gate_def split: option.split)
  let ?gw = "gw\<lparr>gw_in_flight := gw_in_flight gw + 1\<rparr>"
  have r: "ready u i t ?gw GIdle" using assms by (simp add: ready_def)
  have here: "followed u i t (reply t ctx code body ?gw)" "followed u i t (finish t ctx res ?gw)"
    if "cx_ticket ctx = False" for ctx code body res
    using that ticketed.reply_ends [of ctx False ?gw "gw_gate gw"] ticketed.left [of ctx False ?gw "gw_gate gw"]
    by (auto intro!: b)
  have "followed u i t (handle_chat lib i t body keep ?gw)" for body
    unfolding handle_chat_def Let_def
    by (simp add: here acquire_followed [OF r] new_ctx_def split: option.split sum.split)
  with plain show ?thesis by (simp add: handle_def)
qed

section \<open>Steps of the gateway\<close>

lemma filter_single:
  assumes "\<And>j. j < m \<Longrightarrow> P j \<longleftrightarrow> j = i \<and> c" "i < m"
  shows "filter P [0..<m] = (if c then [i] else [])"
proof -
  have "filter P [0..<m] = filter (\<lambda>j. j = i \<and> c) [0..<m]"
    using assms(1) by (intro filter_cong) auto
  also have "\<dots> = (if c then [i] else [])" using assms(2) by (induction m) auto
  finally show ?thesis .
qed

lemma queued_not_holds: "gate_queued pc \<Longrightarrow> \<not> gate_holds pc"
  by (cases pc) auto

text \<open>
  The positions that join and that are granted, when position \<open>i\<close> moves from \<open>pcs i\<close> to the view of \<open>q\<close>
  and \<open>g\<close> is granted.
\<close>

lemma queue_moves:
  assumes "queue_turn gt (pcs i) (gw, g, q)" "i < m"
    and "\<And>w. w \<in> set (waiters gt) \<Longrightarrow> w < m \<and> gate_queued (pcs w)"
    and "\<And>j. j < m \<Longrightarrow> pcs' j = (let pc = if j = i then gate_view q else pcs j in if g = Some j then gate_grant pc else pc)"
  shows "filter (\<lambda>j. gate_queued (pcs' j) \<and> \<not> gate_queued (pcs j)) [0..<m] =
      (if gate_queued (gate_view q) then [i] else [])"
    and "filter (\<lambda>j. gate_queued (pcs j) \<and> gate_holds (pcs' j)) [0..<m] = granted_list g"
proof -
  have w: "w < m \<and> gate_queued (pcs w) \<and> w \<noteq> i" if "g = Some w" for w
    using assms(1) assms(3) [of w] that by (auto simp: queue_turn_def)
  have gr: "\<not> gate_queued (gate_grant pc)" "gate_queued pc \<Longrightarrow> gate_holds (gate_grant pc)" for pc
    by (cases pc; simp)+
  have "gate_queued (pcs' j) \<and> \<not> gate_queued (pcs j) \<longleftrightarrow> j = i \<and> gate_queued (gate_view q)" if "j < m" for j
    using that assms(1) w by (auto simp: assms(4) Let_def gr queue_turn_def)
  then show "filter (\<lambda>j. gate_queued (pcs' j) \<and> \<not> gate_queued (pcs j)) [0..<m] =
      (if gate_queued (gate_view q) then [i] else [])"
    by (rule filter_single) (simp_all add: assms(2))
  have own: "gate_queued (pcs j) \<and> gate_holds (pcs' j) \<longleftrightarrow> g = Some j" if "j < m" for j
    using that assms(1) w queued_not_holds by (auto simp: assms(4) Let_def gr queue_turn_def)
  show "filter (\<lambda>j. gate_queued (pcs j) \<and> gate_holds (pcs' j)) [0..<m] = granted_list g"
  proof (cases g)
    case (Some a)
    have "filter (\<lambda>j. gate_queued (pcs j) \<and> gate_holds (pcs' j)) [0..<m] = (if True then [a] else [])"
      using w [OF Some] own Some by (intro filter_single) auto
    with Some show ?thesis by (simp add: granted_list_def)
  qed (use own in \<open>auto simp: granted_list_def filter_empty_conv\<close>)
qed

definition sim :: "gw_sys \<Rightarrow> nat list \<Rightarrow> nat list \<Rightarrow> bool" where
  "sim s js gs \<longleftrightarrow> sys_inv s \<and>
     (\<forall>n. \<exists>u. mirrors n (sys_gw s) (sessions s) (sys_now s) u \<and> enq_log u = js \<and> grant_log u = gs)"

lemma mirrors_waiters:
  assumes "mirrors n gw ss now u" "w \<in> set (waiters (gw_gate gw))"
  shows "w < length ss \<and> gate_queued (gate_view (ss ! w))"
proof -
  have "w < length (gs_pcs u) \<and> gate_queued (gs_pcs u ! w)"
    using mirrors_inv [OF assms(1)] assms
    by (simp add: gate_sys_inv_def gate_clients.consistent_def mirrors_def)
  with assms(1) show ?thesis
    by (cases "w < length ss") (auto simp: mirrors_def nth_append)
qed

lemma mirrors_ready:
  assumes "mirrors n gw ss now u" "now \<le> t" "i < length ss + n"
  shows "ready u i t gw (if i < length ss then gate_view (ss ! i) else GIdle)"
  using assms mirrors_inv [OF assms(1)] by (simp add: mirrors_def ready_def nth_append)

lemma mirrors_follow:
  assumes "mirrors n gw ss now u" "followed u i t (gw', g, q)" "i < length ss + n"
    and "(map gate_view ss @ replicate n GIdle)[i := gate_view q] = map gate_view ss' @ replicate n' GIdle"
  shows "\<exists>u'. mirrors n' gw' (apply_grant g ss') t u' \<and>
    enq_log u' = enq_log u @ (if gate_queued (gate_view q) then [i] else []) \<and>
    grant_log u' = grant_log u @ granted_list g"
proof -
  obtain u' where u': "rtranclp gate_step u u'" "gs_gate u' = gw_gate gw'" "gs_now u' \<le> t"
    "gs_pcs u' = grant_pcs g ((gs_pcs u)[i := gate_view q])"
    "enq_log u' = enq_log u @ (if gate_queued (gate_view q) then [i] else [])"
    "grant_log u' = grant_log u @ granted_list g"
    using assms(2) by (auto simp: followed_def simulated_def)
  obtain u0 where "gate_start u0" "rtranclp gate_step u0 u'"
    using assms(1) u'(1) by (auto simp: mirrors_def intro: rtranclp_trans)
  then have "mirrors n' gw' (apply_grant g ss') t u'"
    using assms(1,4) u' by (auto simp: mirrors_def grant_pcs_sessions)
  with u' show ?thesis by blast
qed

lemma view_grant_nth:
  "j < length ss \<Longrightarrow> gate_view (apply_grant g ss ! j) =
     (if g = Some j then gate_grant (gate_view (ss ! j)) else gate_view (ss ! j))"
  by (cases g) (simp_all add: nth_list_update gate_view_grant)

text \<open>The histories of a step in which request \<open>i\<close>, new or not, ran a segment.\<close>

lemma step_logs:
  assumes "queue_turn (gw_gate (sys_gw s)) (pcs i) (gw, g, q)" "i < length ss" "length (sessions s) \<le> length ss"
    and "\<And>w. w \<in> set (waiters (gw_gate (sys_gw s))) \<Longrightarrow> w < length (sessions s) \<and> gate_queued (gate_view (sessions s ! w))"
    and "\<And>j. pcs j = (if j < length (sessions s) then gate_view (sessions s ! j) else GIdle)"
    and "\<And>j. j < length ss \<Longrightarrow> gate_view (ss ! j) = (if j = i then gate_view q else pcs j)"
    and "sessions t = apply_grant g ss"
  shows "joined s t = (if gate_queued (gate_view q) then [i] else [])" "admitted_in s t = granted_list g"
proof -
  let ?m = "length ss"
  have v: "gate_view (sessions t ! j) = (let pc = if j = i then gate_view q else pcs j in if g = Some j then gate_grant pc else pc)"
    if "j < ?m" for j using that by (simp add: assms(7) view_grant_nth assms(6) Let_def)
  have q: "w < ?m \<and> gate_queued (pcs w)" if "w \<in> set (waiters (gw_gate (sys_gw s)))" for w
    using assms(4) [OF that] assms(3,5) by simp
  note moves = queue_moves [OF assms(1,2) q v]
  have "joined s t = filter (\<lambda>j. gate_queued (gate_view (sessions t ! j)) \<and> \<not> gate_queued (pcs j)) [0..<?m]"
    by (auto simp: joined_def waiting_in_def assms(5,7) intro!: filter_cong)
  with moves(1) show "joined s t = (if gate_queued (gate_view q) then [i] else [])" by simp
  have "[0..<?m] = [0..<length (sessions s)] @ [length (sessions s)..<?m]"
    using assms(3) by (metis le0 le_add_diff_inverse upt_add_eq_append)
  then have "filter (\<lambda>j. gate_queued (pcs j) \<and> gate_holds (gate_view (sessions t ! j))) [0..<?m] = admitted_in s t"
    by (auto simp: admitted_in_def waiting_in_def assms(5) filter_empty_conv intro!: filter_cong)
  with moves(2) show "admitted_in s t = granted_list g" by simp
qed

lemma sim_segment:
  assumes "sim s js gs" "sys_now s \<le> t" "sys_inv s'" "s' = \<lparr>sys_gw = gw, sessions = apply_grant g ss, sys_now = t\<rparr>"
    and "i < length ss" "length (sessions s) \<le> length ss" "length ss \<le> Suc (length (sessions s))"
    and "ss = (if i < length (sessions s) then (sessions s)[i := q] else sessions s @ [q])"
    and "\<And>u. ready u i t (sys_gw s) (if i < length (sessions s) then gate_view (sessions s ! i) else GIdle) \<Longrightarrow>
      followed u i t (gw, g, q)"
  shows "sim s' (js @ joined s s') (gs @ admitted_in s s')"
proof -
  let ?pcs = "\<lambda>j. if j < length (sessions s) then gate_view (sessions s ! j) else GIdle"
  have new: "\<not> i < length (sessions s) \<Longrightarrow> i = length (sessions s)" using assms(5,8) by auto
  have "\<exists>u'. mirrors n gw (apply_grant g ss) t u' \<and> enq_log u' = js @ joined s s' \<and> grant_log u' = gs @ admitted_in s s'" for n
  proof -
    let ?n = "n + (length ss - length (sessions s))"
    obtain u where u: "mirrors ?n (sys_gw s) (sessions s) (sys_now s) u" "enq_log u = js" "grant_log u = gs"
      using assms(1) by (auto simp: sim_def)
    have i: "i < length (sessions s) + ?n" using assms(5,6) by simp
    have f: "followed u i t (gw, g, q)" by (rule assms(9) [OF mirrors_ready [OF u(1) assms(2) i]])
    have turn: "queue_turn (gw_gate (sys_gw s)) (?pcs i) (gw, g, q)"
      using f mirrors_ready [OF u(1) assms(2) i] by (simp add: followed_def ready_def)
    have "gate_view (ss ! j) = (if j = i then gate_view q else ?pcs j)" if "j < length ss" for j
      using that assms(8) new by (auto simp: nth_append nth_list_update less_Suc_eq split: if_splits)
    note logs = step_logs [OF turn assms(5,6) mirrors_waiters [OF u(1)] refl this]
    have "(map gate_view (sessions s) @ replicate ?n GIdle)[i := gate_view q] = map gate_view ss @ replicate n GIdle"
      using assms(8) new by (auto simp: list_update_append map_update split: if_splits)
    from mirrors_follow [OF u(1) f i this] logs [of s'] u show ?thesis by (simp add: assms(4))
  qed
  with assms(3,4) show ?thesis by (simp add: sim_def)
qed

text \<open>Steps that run no segment leave the gate and the requests alone.\<close>

lemma sim_idle:
  assumes "sim s js gs" "sys_inv t" "gw_gate (sys_gw t) = gw_gate (sys_gw s)" "sessions t = sessions s"
    and "sys_now t = sys_now s"
  shows "sim t (js @ joined s t) (gs @ admitted_in s t)"
proof -
  have "joined s t = []" "admitted_in s t = []"
    using assms(4) queued_not_holds
    by (auto simp: joined_def admitted_in_def waiting_in_def filter_empty_conv)
  with assms show ?thesis by (simp add: sim_def mirrors_def)
qed

lemma sim_step: "sim s js gs \<Longrightarrow> gw_step lib s t \<Longrightarrow> sim t (js @ joined s t) (gs @ admitted_in s t)"
proof -
  assume sim: "sim s js gs" and st: "gw_step lib s t"
  have inv: "sys_inv s" "sys_inv t" using sim gw_step_inv [OF _ st] by (simp_all add: sim_def)
  show ?thesis
    using st
  proof cases
    case (arrive now req keep gw g pc)
    have "followed u (length (sessions s)) now (gw, g, pc)" if "ready u (length (sessions s)) now (sys_gw s) GIdle" for u
      using handle_followed [OF that, of lib req keep] arrive(3) by simp
    then show ?thesis
      by (intro sim_segment [OF sim arrive(2) inv(2) arrive(1), where i = "length (sessions s)" and q = pc]) simp_all
  next
    case (wake now i wk gw g pc)
    have "session_ok (length (gw_backends (sys_gw s))) (sessions s ! i)"
      using inv(1) wake(3) by (simp add: sys_inv_def)
    then have "followed u i now (gw, g, pc)" if "ready u i now (sys_gw s) (gate_view (sessions s ! i))" for u
      using resume_followed [OF wake(4) that] by blast
    with wake(3) show ?thesis
      by (intro sim_segment [OF sim wake(2) inv(2) wake(1), where i = i and q = pc]) simp_all
  next
    case (forced k st' gw)
    then show ?thesis
      by (intro sim_idle [OF sim inv(2)]) (auto simp: set_health_for_test_def split: if_splits)
  qed (intro sim_idle [OF sim inv(2)]; simp add: stop_health_monitors_def begin_drain_def)+
qed

lemma sim_start: "gw_start s \<Longrightarrow> sim s [] []"
proof -
  assume s: "gw_start s"
  then obtain cfg where cfg: "new_gateway cfg = Inr (sys_gw s)" "sessions s = []" "config_ok cfg"
    by (auto simp: gw_start_def)
  have "\<exists>u. mirrors n (sys_gw s) (sessions s) (sys_now s) u \<and> enq_log u = [] \<and> grant_log u = []" for n
  proof -
    let ?u = "\<lparr>gs_gate = gw_gate (sys_gw s), gs_pcs = replicate n GIdle, gs_now = sys_now s, enq_log = [], grant_log = []\<rparr>"
    have "gate_start ?u"
      using new_gateway_fields [OF cfg(1)] cfg(3) unfolding gate_start_def
      by (intro exI [of _ "sc_max_concurrent_streams (cfg_server cfg)"] exI [of _ "sc_queue_depth (cfg_server cfg)"]
          exI [of _ "of_ms (sc_queue_timeout_ms (cfg_server cfg))"] exI [of _ n])
        (simp add: config_ok_def server_ok_def)
    then show ?thesis by (intro exI [of _ ?u]) (auto simp: mirrors_def cfg(2))
  qed
  with gw_start_inv [OF s] show ?thesis by (simp add: sim_def)
qed

lemma queue_run_sim: "queue_run lib t js gs \<Longrightarrow> sim t js gs"
  by (induction rule: queue_run.induct) (auto intro: sim_start sim_step)

lemma reachable_queue_run: "rtranclp (gw_step lib) s t \<Longrightarrow> gw_start s \<Longrightarrow> \<exists>js gs. queue_run lib t js gs"
  by (induction rule: rtranclp_induct) (blast intro: queue_run.intros)+

section \<open>Properties\<close>

text \<open>
  C10: The gateway is a correct client of its gate.  Every state the gateway can reach, its requests
  seen as coroutines that are idle, wait (with the same start and expiry) or hold a slot, is a
  state that coroutines around the gate can reach by entering, resuming and releasing: no segment
  of the handler skips an \<open>acquire\<close>, releases twice or touches the gate otherwise.
\<close>

theorem gateway_refines_gate:
  assumes "gw_start s" "rtranclp (gw_step lib) s t"
  shows "\<exists>u0 u. gate_start u0 \<and> rtranclp gate_step u0 u \<and> gs_gate u = gw_gate (sys_gw t) \<and>
    gs_pcs u = map gate_view (sessions t)"
proof -
  obtain js gs where "sim t js gs" using reachable_queue_run [OF assms(2,1)] queue_run_sim by blast
  then obtain u where "mirrors 0 (sys_gw t) (sessions t) (sys_now t) u" unfolding sim_def by blast
  then show ?thesis by (auto simp: mirrors_def)
qed

text \<open>
  C11: First come, first served, in the whole gateway.  The requests that were given a slot from the queue,
  in the order in which that happened, followed by those still waiting, are a subsequence of the
  order in which requests joined the queue, and those waiting are exactly the suspended requests
  without a slot.
\<close>

theorem gateway_fifo:
  assumes "queue_run lib t js gs"
  shows "subseq (gs @ waiters (gw_gate (sys_gw t))) js \<and>
    set (waiters (gw_gate (sys_gw t))) = set (waiting_in t)"
proof -
  obtain u where u: "mirrors 0 (sys_gw t) (sessions t) (sys_now t) u" "enq_log u = js" "grant_log u = gs"
    using queue_run_sim [OF assms] unfolding sim_def by blast
  have u1: "gs_gate u = gw_gate (sys_gw t)" "gs_pcs u = map gate_view (sessions t)"
    using u(1) by (simp_all add: mirrors_def)
  have inv: "gate_clients.consistent (gw_gate (sys_gw t)) (map gate_view (sessions t))"
    "subseq (gs @ waiters (gw_gate (sys_gw t))) js"
    using mirrors_inv [OF u(1)] u(2,3) u1 by (simp_all add: gate_sys_inv_def)
  have "w \<in> set (waiters (gw_gate (sys_gw t))) \<longleftrightarrow> w \<in> set (waiting_in t)" for w
    using conjunct2 [OF inv(1) [unfolded gate_clients.consistent_def], rule_format, of w]
    by (auto simp: waiting_in_def)
  with inv(2) show ?thesis by blast
qed

text \<open>In the narrow run the second request waits, and is granted the slot when the first one leaves.\<close>

theorem gateway_refines_gate_witness:
  "\<exists>u0 u d. gate_start u0 \<and> rtranclp gate_step u0 u \<and> gs_pcs u = [GHold, GWait False 0 d]"
proof -
  obtain s2 where r: "rtranclp (gw_step retry_lib) narrow_start s2"
    "\<exists>ctx0 ctx d. cx_ticket ctx0 \<and> sessions s2 = [ChatReply ctx0 unavailable, ChatWait ctx False 0 d]"
    by (rule narrow_run) (rule that; assumption)
  from gateway_refines_gate [OF narrow_start r(1)] obtain u0 u
    where u: "gate_start u0" "rtranclp gate_step u0 u" "gs_pcs u = map gate_view (sessions s2)" by blast
  from r(2) obtain d where "map gate_view (sessions s2) = [GHold, GWait False 0 d]" by (auto simp: gate_ctx_def)
  with u show ?thesis by metis
qed

theorem gateway_fifo_witness:
  "\<exists>t. queue_run retry_lib t [1] [1] \<and> subseq ([1] @ waiters (gw_gate (sys_gw t))) [1] \<and>
     set (waiters (gw_gate (sys_gw t))) = set (waiting_in t)"
proof -
  obtain s1 s2 s3 where r: "gw_step retry_lib narrow_start s1" "gw_step retry_lib s1 s2" "gw_step retry_lib s2 s3"
    "\<exists>ctx. cx_ticket ctx \<and> sessions s1 = [ChatReply ctx unavailable]"
    "\<exists>ctx0 ctx d. cx_ticket ctx0 \<and> sessions s2 = [ChatReply ctx0 unavailable, ChatWait ctx False 0 d]"
    "\<exists>ctx d. sessions s3 = [Done (Inr True) [unavailable], ChatWait ctx True 0 d]"
    by (rule narrow_run) (rule that; assumption)
  obtain c1 c2 c3 c4 d e where ss: "sessions s1 = [ChatReply c1 unavailable]"
    "sessions s2 = [ChatReply c2 unavailable, ChatWait c3 False 0 d]"
    "sessions s3 = [Done (Inr True) [unavailable], ChatWait c4 True 0 e]" using r(4-6) by blast
  have c: "\<not> gate_queued (gate_ctx ctx)" for ctx by (simp add: gate_ctx_def)
  have w: "waiting_in narrow_start = []" "waiting_in s1 = []" "waiting_in s2 = [1]" "waiting_in s3 = []"
    by (simp_all add: waiting_in_def narrow_start_def ss c upt_rec)
  have l: "joined narrow_start s1 = []" "joined s1 s2 = [1]" "joined s2 s3 = []"
    "admitted_in narrow_start s1 = []" "admitted_in s1 s2 = []" "admitted_in s2 s3 = [1]"
    by (simp_all add: joined_def admitted_in_def w ss)
  have "queue_run retry_lib s1 [] []" using queue_run.moved [OF started [OF narrow_start] r(1)] by (simp add: l)
  from queue_run.moved [OF this r(2)] have "queue_run retry_lib s2 [1] []" by (simp add: l)
  from queue_run.moved [OF this r(3)] have q: "queue_run retry_lib s3 [1] [1]" by (simp add: l)
  with gateway_fifo [OF q] show ?thesis by blast
qed

end
