(* ===== verification/Gateway_Telemetry.thy ===== *)
theory Gateway_Telemetry
  imports Gateway_Law Gateway_Example
begin

text \<open>
  The metrics of the whole gateway: what a scrape of the registry says about the requests, under any
  interleaving of any number of them.
\<close>

section \<open>Facts about the registry that every segment keeps\<close>

text \<open>
  The handler writes the registry in six ways.  A fact about the registry that each of them keeps
  (the gauges being published while somebody holds a slot) holds along every run of the gateway.
\<close>

locale registry_fact =
  fixes fact :: "registry \<Rightarrow> bool"
  assumes queue_time: "fact r \<Longrightarrow> fact (observe_queue_time l v r)"
    and terminal: "fact r \<Longrightarrow> fact (record_terminal now ctx r)"
    and frame: "fact r \<Longrightarrow> fact (observe_frame now ev ctx fs r)"
    and spills: "fact r \<Longrightarrow> fact (inc_affinity_spills l n r)"
    and failures: "fact r \<Longrightarrow> fact (inc_backend_failures l n r)"
    and gauges: "fact r \<Longrightarrow> 1 \<le> running \<Longrightarrow> fact (set_requests_waiting waiting (set_requests_running running r))"
begin

lemma fact_update: "fact (gw_registry (update_registry f gw)) = fact (f (gw_registry gw))"
  by (simp add: update_registry_def)

lemma fact_frames [simp]:
  "gw_registry (update_backend k h gw) = gw_registry gw" "gw_registry (update_breaker k b gw) = gw_registry gw"
  "gw_registry (update_limiter k l gw) = gw_registry gw" "gw_registry (drop_slot ctx gw) = gw_registry gw"
  "gw_registry (note_success ctx gw) = gw_registry gw" "gw_registry (fst (drop_ticket ctx gw)) = gw_registry gw"
  by (auto simp: update_backend_def update_breaker_def update_limiter_def drop_slot_def note_success_def
      drop_ticket_def split: option.split prod.split)

lemma fact_failure: "fact (gw_registry gw) \<Longrightarrow> fact (gw_registry (note_failure now ctx gw))"
  by (auto simp: note_failure_def fact_update intro: failures split: option.split)

lemma fact_finish:
  assumes "fact (gw_registry gw)" "finish now ctx res gw = (gw', g, q)"
  shows "fact (gw_registry gw')"
proof -
  obtain gw1 w where d: "drop_ticket ctx (drop_slot ctx gw) = (gw1, w)" by fastforce
  then have "gw_registry gw1 = gw_registry gw" using fact_frames(6) [of ctx "drop_slot ctx gw"] by simp
  with assms d show ?thesis by (auto simp: finish_def fact_update intro: terminal)
qed

end

sublocale registry_fact \<subseteq> handler_law now "\<lambda>ctx gw. fact (gw_registry gw)" "\<lambda>seg. fact (gw_registry (fst seg))"
  for now
proof (unfold_locales, goal_cases)
  case (3 ctx gw k ctx' gw')
  then show ?case by (auto simp: record_spills_def fact_update intro: spills split: if_splits)
next
  case (9 ctx gw res)
  then show ?case by (metis fact_finish prod.collapse)
qed auto

context registry_fact
begin

lemma fact_admit:
  assumes "fact (gw_registry gw)" "is_admitted adm \<Longrightarrow> 1 \<le> in_flight (gw_gate gw)"
  shows "fact (gw_registry (fst (after_admit lib now adm ctx gw)))"
  by (rule after_admit_ends)
     (use assms in \<open>auto simp: fact_update publish_admission_gauges_def update_registry_def
        intro!: gauges queue_time\<close>)

lemma fact_acquire:
  assumes "fact (gw_registry gw)" "0 \<le> in_flight (gw_gate gw)"
  shows "fact (gw_registry (fst (acquire_and_go lib w now ctx gw)))"
  using assms
  by (auto simp: acquire_and_go_def gate_enter_def is_admitted_def intro!: fact_admit)

lemma fact_handle:
  assumes "fact (gw_registry gw)" "0 \<le> in_flight (gw_gate gw)"
  shows "fact (gw_registry (fst (handle lib w now req keep gw)))"
proof -
  have "fact (gw_registry (fst (handle_chat lib w now body keep (gw\<lparr>gw_in_flight := n\<rparr>))))" for body n
    by (rule handle_chat_ends) (use assms in \<open>simp_all add: fact_acquire\<close>)
  with assms(1) show ?thesis by (simp add: handle_def plain_reply_def split: option.split)
qed

lemma fact_resume:
  assumes "resume lib w now wk p gw = Some seg" "fact (gw_registry gw)"
    and "\<And>ctx a b. p = ChatWait ctx True a b \<Longrightarrow> 1 \<le> in_flight (gw_gate gw)"
  shows "fact (gw_registry (fst seg))"
  using assms
proof (induction lib w now wk p gw rule: resume.induct)
  case (1 lib w now ctx granted start deadline gw)
  then show ?case
    by (cases granted) (auto simp: gate_resume_def is_admitted_def intro!: fact_admit split: if_splits)
next
  case (3 lib w now ev ok1 ok2 ctx fs gw)
  obtain gw1 ctx1 fs1 k where f: "sink_frame now ok1 ok2 ev ctx fs gw = ((gw1, ctx1, fs1), k)"
    by (metis surj_pair)
  then have "fact (gw_registry gw1)"
    using 3(2) by (auto simp: sink_frame_def Let_def fact_update intro!: frame split: if_splits sum.splits prod.splits)
  with f 3 show ?case by auto
next
  case (5 lib w now ok ctx out gw)
  then show ?case by (auto intro!: left split: if_splits)
next
  case (7 lib w now ok1 ok2 ok3 ctx fs plan gw)
  then show ?case by (auto intro!: left split: prod.splits)
qed (auto intro!: after_unary_ends after_stream_ends fact_failure)

lemma fact_step:
  assumes "gw_step lib s t" "sys_inv s" "fact (gw_registry (sys_gw s))"
  shows "fact (gw_registry (sys_gw t))"
proof -
  have count: "in_flight (gw_gate (sys_gw s)) = int (length (filter holds_ticket (sessions s)))"
    using sys_inv_settled [OF assms(2)] by (simp add: settled_def)
  show ?thesis
    using assms(1)
  proof cases
    case (arrive now req keep gw g pc)
    with fact_handle [OF assms(3), of lib "length (sessions s)" now req keep] count show ?thesis by simp
  next
    case (wake now i wk gw g pc)
    have "1 \<le> in_flight (gw_gate (sys_gw s))" if "sessions s ! i = ChatWait ctx True a b" for ctx a b
    proof -
      have "sessions s ! i \<in> set (filter holds_ticket (sessions s))"
        using that wake(3) nth_mem [OF wake(3)] by (simp add: holds_ticket_def)
      then show ?thesis using count by (cases "filter holds_ticket (sessions s)") auto
    qed
    from fact_resume [OF wake(4) assms(3) this] wake(1) show ?thesis by simp
  next
    case (forced k st gw)
    with assms(3) show ?thesis by (auto simp: set_health_for_test_def split: if_splits)
  qed (use assms(3) in \<open>simp_all add: stop_health_monitors_def begin_drain_def\<close>)
qed

lemma fact_steps:
  "rtranclp (gw_step lib) s t \<Longrightarrow> sys_inv s \<Longrightarrow> fact (gw_registry (sys_gw s)) \<Longrightarrow>
   sys_inv t \<and> fact (gw_registry (sys_gw t))"
  by (induction rule: rtranclp_induct) (auto intro: fact_step gw_step_inv)

end

section \<open>The gauge of running requests\<close>

definition gauge_up :: "registry \<Rightarrow> bool" where
  "gauge_up r \<longleftrightarrow> 1 \<le> requests_running r"

interpretation running: registry_fact gauge_up
  by unfold_locales
     (simp_all add: gauge_up_def registry_defs record_terminal_def observe_frame_def)

section \<open>Counts that are taken together\<close>

text \<open>The total of a family of counters, and of the counts of a family of histograms.\<close>

definition counter_total :: "('k \<times> u64) list \<Rightarrow> u64" where
  "counter_total m = sum_list (map (\<lambda>(k, n). n) m)"

definition hist_total :: "hist_map \<Rightarrow> u64" where
  "hist_total m = sum_list (map (\<lambda>(l, h). total_count h) m)"

lemma sum_map_put:
  fixes f :: "'v \<Rightarrow> u64"
  assumes "sorted_map m"
  shows "sum_list (map (\<lambda>(k, v). f v) (map_put k v m)) =
    sum_list (map (\<lambda>(k, v). f v) m) + f v - (case map_of m k of None \<Rightarrow> 0 | Some old \<Rightarrow> f old)"
  using assms
proof (induction k v m rule: map_put.induct)
  case (2 k v k' v' m)
  have "map_of m k = None" if "k < k'"
    using that 2(2) by (force simp: sorted_map_def map_of_eq_None_iff)
  moreover have "sorted_map m" using 2(2) by (simp add: sorted_map_def)
  ultimately show ?case using 2 by (auto simp: algebra_simps split: option.split)
qed simp

lemma counter_total_bump: "sorted_map m \<Longrightarrow> counter_total (bump k n m) = counter_total m + n"
  using sum_map_put [of m "\<lambda>x. x" k] by (simp add: bump_def counter_total_def split: option.split)

lemma hist_total_observe: "sorted_map m \<Longrightarrow> hist_total (observe_in b l v m) = hist_total m + 1"
  using sum_map_put [of m total_count l]
  by (auto simp: observe_in_def hist_total_def hist_for_def observe_def new_histogram_def split: option.split)

lemma sorted_updates:
  "sorted_map m \<Longrightarrow> sorted_map (bump k n m)" "sorted_map h \<Longrightarrow> sorted_map (observe_in b l v h)"
  by (auto simp: bump_def observe_in_def)

definition books :: "registry \<Rightarrow> bool" where
  "books r \<longleftrightarrow> registry_sorted r \<and> counter_total (requests_total r) = hist_total (reg_e2e r) \<and>
     hist_total (reg_ttft r) = hist_total (reg_overhead r)"

interpretation bookkeeping: registry_fact books
  by unfold_locales
     (auto simp: books_def registry_sorted_def registry_defs record_terminal_def observe_frame_def
        counter_total_bump hist_total_observe sorted_updates)


lemma new_gateway_registry: "new_gateway cfg = Inr gw \<Longrightarrow> gw_registry gw = new_registry"
  by (auto simp: new_gateway_def result_bind_Inr)

lemma start_books: "gw_start s \<Longrightarrow> books (gw_registry (sys_gw s))"
  using new_gateway_registry
  by (fastforce simp: gw_start_def books_def new_registry_def registry_sorted_def counter_total_def hist_total_def)

section \<open>Properties\<close>

text \<open>
  C16: The published totals agree.  In every state the gateway can reach, the requests counted by status
  are, modulo the width of the counters, as many as the end-to-end latencies observed, and
  times to first token are as many as overheads; every family of series is sorted without
  duplicates.
\<close>

theorem metrics_agree:
  assumes "gw_start s" "rtranclp (gw_step lib) s t"
  shows "counter_total (requests_total (gw_registry (sys_gw t))) = hist_total (reg_e2e (gw_registry (sys_gw t))) \<and>
    hist_total (reg_ttft (gw_registry (sys_gw t))) = hist_total (reg_overhead (gw_registry (sys_gw t))) \<and>
    registry_sorted (gw_registry (sys_gw t))"
  using bookkeeping.fact_steps [OF assms(2) gw_start_inv [OF assms(1)] start_books [OF assms(1)]]
  by (simp add: books_def)

text \<open>
  C31: The gauge of running requests never returns to zero.  It is published when a request is admitted,
  with that request counted, and at no other moment; once it is positive it stays positive in
  every later state, also when no request is left.
\<close>

theorem running_gauge_sticks:
  assumes "gw_start s" "rtranclp (gw_step lib) s t" "1 \<le> requests_running (gw_registry (sys_gw t))"
    and "rtranclp (gw_step lib) t u"
  shows "1 \<le> requests_running (gw_registry (sys_gw u))"
  using running.fact_steps [OF assms(4) gateway_sys.reachable_inv [OF assms(1,2)]] assms(3)
  by (simp add: gauge_up_def)

theorem metrics_agree_witness:
  "\<exists>t :: gw_sys. sessions t = [Done (Inr True) [unavailable], Done (Inr True) [unavailable]] \<and>
     counter_total (requests_total (gw_registry (sys_gw t))) = hist_total (reg_e2e (gw_registry (sys_gw t)))"
proof -
  obtain s5 where r: "rtranclp (gw_step retry_lib) narrow_start s5"
    "sessions s5 = [Done (Inr True) [unavailable], Done (Inr True) [unavailable]]"
    by (rule narrow_run) (rule that; assumption)
  with metrics_agree [OF narrow_start r(1)] show ?thesis by blast
qed

theorem running_gauge_sticks_witness:
  "\<exists>u :: gw_sys. (\<forall>p \<in> set (sessions u). \<not> in_chat p) \<and> 1 \<le> requests_running (gw_registry (sys_gw u))"
proof -
  obtain s1 s2 s3 s4 s5 where r: "gw_step retry_lib narrow_start s1" "gw_step retry_lib s1 s2"
    "gw_step retry_lib s2 s3" "gw_step retry_lib s3 s4" "gw_step retry_lib s4 s5"
    "sessions s5 = [Done (Inr True) [unavailable], Done (Inr True) [unavailable]]"
    "requests_running (gw_registry (sys_gw s1)) = 1"
    by (rule narrow_run) (rule that; assumption)
  have "rtranclp (gw_step retry_lib) narrow_start s1" "rtranclp (gw_step retry_lib) s1 s5"
    using r(1-5) by (meson rtranclp.rtrancl_into_rtrancl rtranclp.rtrancl_refl)+
  from running_gauge_sticks [OF narrow_start this(1) _ this(2)] r(7)
  have "1 \<le> requests_running (gw_registry (sys_gw s5))" by simp
  moreover have "\<forall>p \<in> set (sessions s5). \<not> in_chat p" by (simp add: r(6) in_chat_def)
  ultimately show ?thesis by blast
qed

end
