(* ===== verification/Gateway_Routes.thy ===== *)
theory Gateway_Routes
  imports Gateway_Dispatch
begin

text \<open>
  What the routing of the whole gateway promises its users: a conversation stays on the backend that
  has its prefix in the cache, and the models the gateway lists are those it serves.
\<close>

section \<open>Prefix affinity through the gateway\<close>

text \<open>
  The first \<open>prefix_bytes\<close> bytes of a conversation, which is what its affinity key is made of, and the
  backend that key ranks first among the eligible ones.
\<close>

definition conversation_prefix :: "lib \<Rightarrow> config \<Rightarrow> chat_request \<Rightarrow> string option" where
  "conversation_prefix lib cfg creq =
     map_option (\<lambda>msgs. take (nat (rc_prefix_bytes (cfg_routing cfg))) (canonical_full (cr_model creq) msgs))
       (flatten_messages (gateway_content (jdump lib)) (cr_messages creq))"

definition prefix_home :: "lib \<Rightarrow> string \<Rightarrow> nat list \<Rightarrow> gateway \<Rightarrow> nat" where
  "prefix_home lib pre serving gw =
     hd (hrw_rank (xxh64 lib) (affinity_key_hash (xxh64 lib) pre) (eligible_candidates serving gw))"

text \<open>The home can take the request: below the load guard's limit and admitting.\<close>

definition home_free :: "time_ns \<Rightarrow> nat list \<Rightarrow> gateway \<Rightarrow> nat \<Rightarrow> bool" where
  "home_free now serving gw h \<longleftrightarrow>
     eligible_candidates serving gw \<noteq> [] \<and> admits now gw h \<and>
     \<not> over_limit (rc_load_threshold (cfg_routing (gw_cfg gw))) (eligible_candidates serving gw) h"

lemma hrw_rank_indices:
  "map backend_index cs = map backend_index cs' \<Longrightarrow> hrw_rank xxh key cs = hrw_rank xxh key cs'"
proof -
  assume "map backend_index cs = map backend_index cs'"
  moreover have "score_candidates xxh key xs =
      map (\<lambda>i. \<lparr>sc_index = i, sc_score = hrw_score xxh key i\<rparr>) (map backend_index xs)" for xs
    by (simp add: score_candidates_def comp_def)
  ultimately show ?thesis by (simp only: hrw_rank_def)
qed

lemma affinity_order_unspilled:
  assumes "cs \<noteq> []" "rank = hrw_rank xxh (affinity_key_hash xxh key) cs" "\<not> over_limit thr cs (hd rank)"
  shows "ro_order (affinity_order xxh thr key cs) = rank"
proof -
  have "length rank = length cs" by (simp add: assms(2))
  with assms(1) have "rank \<noteq> []" by auto
  then obtain r rs where r: "rank = r # rs" by (cases rank) auto
  with assms(3) have "leading_spills thr cs rank = 0" by simp
  with assms(1) r show ?thesis
    unfolding affinity_order_def Let_def assms(2) [symmetric] by simp
qed

lemma route_home:
  assumes "\<And>j. jdump lib j \<noteq> None" "rc_policy (cfg_routing (gw_cfg gw)) = PrefixAffinity"
    and "cx_serving ctx = backends_for_model m gw" "cx_attempts ctx = 0"
    and "conversation_prefix lib (gw_cfg gw) (cx_req ctx) = Some pre"
    and "home_free now (cx_serving ctx) gw (prefix_home lib pre (cx_serving ctx) gw)"
    and "route_and_walk lib now ctx gw = (gw', g, q)"
  shows "called q = [prefix_home lib pre (cx_serving ctx) gw]"
proof -
  let ?cs = "eligible_candidates (cx_serving ctx) gw" and ?h = "prefix_home lib pre (cx_serving ctx) gw"
  let ?rank = "hrw_rank (xxh64 lib) (affinity_key_hash (xxh64 lib) pre) ?cs"
  obtain msgs where msgs: "flatten_messages (gateway_content (jdump lib)) (cr_messages (cx_req ctx)) = Some msgs"
    "pre = canonical_affinity_string (cr_model (cx_req ctx)) msgs (rc_prefix_bytes (cfg_routing (gw_cfg gw)))"
    using assms(5) by (auto simp: conversation_prefix_def canonical_take)
  have free: "?cs \<noteq> []" "admits now gw ?h"
    "\<not> over_limit (rc_load_threshold (cfg_routing (gw_cfg gw))) ?cs (hd ?rank)"
    using assms(6) by (simp_all add: home_free_def prefix_home_def)
  obtain spills where o: "order_candidates lib (cx_req ctx) ?cs gw = Some (gw, ?rank, spills)"
    using msgs assms(2) affinity_order_unspilled [OF free(1) refl free(3)]
    by (simp add: order_candidates_def Let_def)
  obtain body where "jdump lib (inject_include_usage (cr_raw (cx_req ctx))) = Some body" using assms(1) by blast
  with o free(1) assms(7) have w: "walk lib now ?rank (ctx\<lparr>cx_text := body, cx_spills := spills\<rparr>) gw = (gw', g, q)"
    by (simp add: route_and_walk_def)
  have ms: "mset ?rank = mset (map backend_index ?cs)" by (rule mset_hrw_rank)
  have "distinct (map backend_index ?cs)" by (simp add: eligible_indices assms(3) backends_for_model_def)
  then have "distinct ?rank" using mset_eq_imp_distinct_iff [OF ms] by simp
  moreover have "set ?rank \<subseteq> {..<length (gw_backends gw)}"
    using mset_eq_setD [OF ms] by (auto simp: eligible_indices assms(3) backends_for_model_def)
  moreover have "?rank = ?h # tl ?rank"
    using free(1) length_hrw_rank [of "xxh64 lib" "affinity_key_hash (xxh64 lib) pre" ?cs]
    unfolding prefix_home_def by (metis length_0_conv list.collapse)
  then have "find (admits now gw) ?rank = Some ?h" using free(2) by (metis find.simps(2))
  ultimately show ?thesis
    using walk_first [OF _ _ _ w] assms(4) by (simp add: max_attempts_def)
qed

section \<open>The list of models\<close>

lemma dedup_models_set: "set (dedup_models seen ms) = set ms - set seen"
  by (induction ms arbitrary: seen) auto

lemma dedup_models_distinct: "distinct (dedup_models seen ms)"
  by (induction ms arbitrary: seen) (auto simp: dedup_models_set)

definition listed_models :: "gateway \<Rightarrow> string list" where
  "listed_models gw = dedup_models [] (concat (map (\<lambda>b. bc_models (be_conf b)) (gw_backends gw)))"

lemma listed_iff: "m \<in> set (listed_models gw) \<longleftrightarrow> backends_for_model m gw \<noteq> []"
proof -
  have "m \<in> set (listed_models gw) \<longleftrightarrow> (\<exists>b \<in> set (gw_backends gw). m \<in> set (bc_models (be_conf b)))"
    by (simp add: listed_models_def dedup_models_set)
  also have "\<dots> \<longleftrightarrow> backends_for_model m gw \<noteq> []"
    by (auto simp: backends_for_model_def filter_empty_conv) (metis in_set_conv_nth atLeastLessThan_iff le0)
  finally show ?thesis .
qed

section \<open>Properties\<close>



text \<open>Two healthy backends under prefix affinity, idle.\<close>

definition affine_config :: config where
  "affine_config = retry_config\<lparr>cfg_routing :=
     \<lparr>rc_policy = PrefixAffinity, rc_prefix_bytes = 4, rc_load_threshold = Fin 1\<rparr>\<rparr>"

definition affine_gateway :: gateway where
  "affine_gateway = retry_gateway\<lparr>gw_cfg := affine_config\<rparr>"

definition affine_ctx :: "string \<Rightarrow> chat_ctx" where
  "affine_ctx message = (new_ctx 0 True)\<lparr>cx_serving := [0, 1],
     cx_req := example_request\<lparr>cr_messages := [\<lparr>msg_role = ''user'', msg_content = JString message\<rparr>]\<rparr>\<rparr>"

lemma affine_home:
  "prefix_home retry_lib pre [0, 1] affine_gateway = 0" "home_free now [0, 1] affine_gateway 0"
proof -
  have cs: "eligible_candidates [0, 1] affine_gateway =
      [\<lparr>backend_index = 0, active_requests = 0, cand_max = 8\<rparr>, \<lparr>backend_index = 1, active_requests = 0, cand_max = 8\<rparr>]"
    by (simp add: eligible_candidates_def affine_gateway_def retry_gateway_fields retry_configs observed_health_def
        new_limiter_def default_backend_def)
  then show "prefix_home retry_lib pre [0, 1] affine_gateway = 0"
    by (simp add: prefix_home_def hrw_rank_def score_candidates_def sort_scored_def hrw_score_def retry_lib_def
        scored_before_def)
  have "\<not> over_limit (Fin 1) [\<lparr>backend_index = 0, active_requests = 0, cand_max = 8\<rparr>,
      \<lparr>backend_index = 1, active_requests = 0, cand_max = 8\<rparr>] 0"
    using round_double_small_int [of 8] by (simp add: over_limit_def double_of_int_exact)
  with cs retry_able(2) [of affine_gateway 0 now] show "home_free now [0, 1] affine_gateway 0"
    by (simp add: home_free_def affine_gateway_def affine_config_def)
qed



end
