(* ===== verification/Gateway_Progress.thy ===== *)
theory Gateway_Progress
  imports Gateway_Session Gateway_Example
begin

text \<open>
  The gateway as a whole neither runs on nor gets stuck: the work its requests have left bounds the
  turns they still take, and whatever the state, completions lead to a state in which every request
  has ended and nothing is held.
\<close>

section \<open>The work left\<close>

definition work_left :: "gw_sys \<Rightarrow> nat" where
  "work_left s = sum_list (map turns_left (sessions s))"

text \<open>A step in which a request is resumed by anything but a frame of its stream.\<close>

definition own_turn :: "lib \<Rightarrow> gw_sys \<Rightarrow> gw_sys \<Rightarrow> bool" where
  "own_turn lib s t \<longleftrightarrow>
     (\<exists>now i wk gw g q. sys_now s \<le> now \<and> i < length (sessions s) \<and> \<not> is_frame (Some wk) \<and>
        resume lib i now wk (sessions s ! i) (sys_gw s) = Some (gw, g, q) \<and>
        t = \<lparr>sys_gw = gw, sessions = apply_grant g ((sessions s)[i := q]), sys_now = now\<rparr>)"

text \<open>Runs of the gateway with the number of arrivals and of such turns.\<close>

inductive turn_run :: "lib \<Rightarrow> gw_sys \<Rightarrow> nat \<Rightarrow> nat \<Rightarrow> bool" for lib where
  begun: "gw_start s \<Longrightarrow> turn_run lib s 0 0"
| arrival: "turn_run lib s a k \<Longrightarrow> gw_step lib s t \<Longrightarrow> length (sessions t) = Suc (length (sessions s)) \<Longrightarrow>
     turn_run lib t (Suc a) k"
| own: "turn_run lib s a k \<Longrightarrow> own_turn lib s t \<Longrightarrow> turn_run lib t a (Suc k)"
| other: "turn_run lib s a k \<Longrightarrow> gw_step lib s t \<Longrightarrow> \<not> own_turn lib s t \<Longrightarrow>
     length (sessions t) = length (sessions s) \<Longrightarrow> turn_run lib t a k"

lemma own_turn_step: "own_turn lib s t \<Longrightarrow> gw_step lib s t"
  by (auto simp: own_turn_def intro: gw_step.wake)

lemma own_turn_length: "own_turn lib s t \<Longrightarrow> length (sessions t) = length (sessions s)"
  by (auto simp: own_turn_def)

lemma map_turns_grant: "map turns_left (apply_grant g ss) = map turns_left ss"
proof (cases g)
  case (Some w)
  then show ?thesis
    by (cases "w < length ss") (simp_all add: map_update list_update_beyond list_update_same_conv)
qed simp

lemma sum_list_update_le:
  fixes xs :: "nat list"
  shows "i < length xs \<Longrightarrow> y + d \<le> xs ! i \<Longrightarrow> sum_list (xs[i := y]) + d \<le> sum_list xs"
proof (induction xs arbitrary: i)
  case (Cons x xs)
  then show ?case by (cases i) fastforce+
qed simp

text \<open>Every request of the system satisfies the invariant of its run.\<close>

lemma all_runs_turn:
  assumes "all_runs lib cfg s" "i < length (sessions s)"
    and "resume lib i now wk (sessions s ! i) (sys_gw s) = Some (gw, g, q)"
  shows "turns_left q + (if is_frame (Some wk) then 0 else 1) \<le> turns_left (sessions s ! i)"
proof -
  obtain trail wk0 gw0 where "request_run lib cfg i (trail @ [Turn wk0 gw0 (sessions s ! i)])"
    using assms(1,2) by (auto simp: all_runs_def run_ends_in_def)
  from trail_turn [OF run_trail_inv [OF this] _ assms(3)] assms(1)
  show ?thesis by (simp add: all_runs_def turn_inv_def)
qed

lemma wake_work:
  assumes "all_runs lib cfg s" "i < length (sessions s)"
    and "resume lib i now wk (sessions s ! i) (sys_gw s) = Some (gw, g, q)"
    and "t = \<lparr>sys_gw = gw, sessions = apply_grant g ((sessions s)[i := q]), sys_now = now\<rparr>"
  shows "work_left t + (if is_frame (Some wk) then 0 else 1) \<le> work_left s"
  using sum_list_update_le [of i "map turns_left (sessions s)" "turns_left q"] all_runs_turn [OF assms(1-3)] assms(2,4)
  by (simp add: work_left_def map_turns_grant map_update)

lemma own_turn_work: "all_runs lib cfg s \<Longrightarrow> own_turn lib s t \<Longrightarrow> work_left t < work_left s"
  unfolding own_turn_def using wake_work by fastforce

lemma step_work:
  assumes "all_runs lib cfg s" "gw_step lib s t"
  shows "work_left t \<le> work_left s + 4 * (length (sessions t) - length (sessions s))"
  using assms(2)
proof cases
  case (arrive now req keep gw g pc)
  have "turns_left pc \<le> 4"
    using handle_inv [of False "sys_gw s" lib "length (sessions s)" now req keep] arrive(3)
    by (simp add: arrival_inv_def)
  with arrive(1) show ?thesis by (simp add: work_left_def map_turns_grant)
next
  case (wake now i wk gw g pc)
  from wake_work [OF assms(1) wake(3,4,1)] wake(1) show ?thesis by simp
qed (simp_all add: work_left_def)

lemma turn_run_reachable: "turn_run lib t a k \<Longrightarrow> \<exists>s. gw_start s \<and> rtranclp (gw_step lib) s t"
  by (induction rule: turn_run.induct) (meson own_turn_step rtranclp.rtrancl_into_rtrancl rtranclp.rtrancl_refl)+

lemma reachable_runs: "gw_start s \<Longrightarrow> rtranclp (gw_step lib) s t \<Longrightarrow> all_runs lib (gw_cfg (sys_gw s)) t"
  using request_runs.reachable_inv [of s "gw_cfg (sys_gw s)" lib t] by simp

lemma turn_run_work: "turn_run lib t a k \<Longrightarrow> k + work_left t \<le> 4 * a \<and> length (sessions t) = a"
proof (induction rule: turn_run.induct)
  case (begun s)
  then show ?case by (auto simp: gw_start_def work_left_def)
next
  case (arrival s a k t)
  then obtain cfg where "all_runs lib cfg s" using turn_run_reachable reachable_runs by blast
  from step_work [OF this arrival(2)] arrival show ?case by simp
next
  case (own s a k t)
  then obtain cfg where "all_runs lib cfg s" using turn_run_reachable reachable_runs by blast
  from own_turn_work [OF this own(2)] own show ?case by (auto simp: own_turn_def)
next
  case (other s a k t)
  then obtain cfg where "all_runs lib cfg s" using turn_run_reachable reachable_runs by blast
  from step_work [OF this other(2)] other show ?case by simp
qed

section \<open>Progress\<close>

text \<open>Whatever a request waits for, its completion, late enough, resumes it.\<close>

fun completion :: "session \<Rightarrow> wakeup" where
  "completion (ChatWait ctx granted start deadline) = TimerDone"
| "completion (ChatUnary ctx) = UnaryDone new_unary_result"
| "completion (ChatStream ctx fs) = StreamDone new_stream_result"
| "completion (ChatEnd ctx fs plan) = Closed3 True True True"
| "completion p = Written True"

fun due :: "session \<Rightarrow> time_ns" where
  "due (ChatWait ctx granted start deadline) = deadline"
| "due p = 0"

lemma completion_resumes:
  "\<nexists>res out. p = Done res out \<Longrightarrow> due p \<le> now \<Longrightarrow> \<exists>gw' g q. resume lib w now (completion p) p gw = Some (gw', g, q)"
proof -
  assume "\<nexists>res out. p = Done res out" "due p \<le> now"
  then have "resume lib w now (completion p) p gw \<noteq> None" by (cases p) (simp_all add: Let_def case_prod_unfold)
  then show ?thesis by (metis not_None_eq surj_pair)
qed

lemma completion_no_frame: "\<not> is_frame (Some (completion p))"
  by (cases p) simp_all

definition all_ended :: "gw_sys \<Rightarrow> bool" where
  "all_ended s \<longleftrightarrow> (\<forall>p \<in> set (sessions s). \<exists>res out. p = Done res out)"

lemma ended_or_turn: "all_ended s \<or> (\<exists>t. own_turn lib s t)"
proof (cases "all_ended s")
  case False
  then obtain i where i: "i < length (sessions s)" "\<nexists>res out. sessions s ! i = Done res out"
    by (auto simp: all_ended_def in_set_conv_nth)
  let ?p = "sessions s ! i" and ?now = "max (sys_now s) (due (sessions s ! i))"
  obtain gw g q where "resume lib i ?now (completion ?p) ?p (sys_gw s) = Some (gw, g, q)"
    using completion_resumes [OF i(2)] by (metis max.cobounded2)
  with i(1) completion_no_frame show ?thesis unfolding own_turn_def by (metis max.cobounded1)
qed simp

lemma drains:
  assumes "all_runs lib cfg s"
  shows "\<exists>u. rtranclp (gw_step lib) s u \<and> all_ended u \<and> length (sessions u) = length (sessions s)"
  using assms
proof (induction "work_left s" arbitrary: s rule: less_induct)
  case less
  show ?case
  proof (cases "all_ended s")
    case False
    then obtain t where t: "own_turn lib s t" using ended_or_turn by blast
    have "all_runs lib cfg t" by (rule gw_step_runs [OF less.prems own_turn_step [OF t]])
    with less.hyps [OF own_turn_work [OF less.prems t]] own_turn_length [OF t] own_turn_step [OF t]
    show ?thesis by (metis converse_rtranclp_into_rtranclp)
  qed blast
qed

lemma ended_idle: "sys_inv u \<Longrightarrow> all_ended u \<Longrightarrow> gw_in_flight (sys_gw u) = 0"
  using sys_inv_settled [of u] by (fastforce simp: settled_def all_ended_def in_chat_def filter_empty_conv)

section \<open>Properties\<close>

text \<open>
  C15: Bounded work.  In every run of the gateway, frames of streams apart, the requests are resumed at
  most four times per arrival; what is left of that budget bounds the turns still to come.
\<close>

theorem turns_bounded:
  assumes "turn_run lib t a k"
  shows "k + work_left t \<le> 4 * a \<and> length (sessions t) = a"
  by (rule turn_run_work [OF assms])

text \<open>
  C14: No deadlock.  From every state the gateway can reach, completions of what its requests wait for
  lead to a state in which all of them have ended and the in-flight count the drain poller looks
  at is zero, without a new arrival; and along any such completion the work left decreases.
\<close>

theorem gateway_can_drain:
  assumes "gw_start s" "rtranclp (gw_step lib) s t"
  shows "(\<exists>u. rtranclp (gw_step lib) t u \<and> all_ended u \<and> length (sessions u) = length (sessions t) \<and>
      gw_in_flight (sys_gw u) = 0) \<and>
    (\<forall>u. own_turn lib t u \<longrightarrow> work_left u < work_left t)"
proof -
  have runs: "all_runs lib (gw_cfg (sys_gw s)) t" by (rule reachable_runs [OF assms])
  then obtain u where u: "rtranclp (gw_step lib) t u" "all_ended u" "length (sessions u) = length (sessions t)"
    using drains by blast
  have "sys_inv u" by (rule gateway_sys.reachable_inv [OF assms(1) rtranclp_trans [OF assms(2) u(1)]])
  with u runs show ?thesis using ended_idle own_turn_work by blast
qed

lemma turn_run_step:
  "turn_run lib s a k \<Longrightarrow> gw_step lib s t \<Longrightarrow> length (sessions t) = length (sessions s) \<Longrightarrow> \<exists>k'. turn_run lib t a k'"
  by (cases "own_turn lib s t") (auto intro: turn_run.intros)

theorem turns_bounded_witness:
  "\<exists>t k. turn_run retry_lib t 2 k \<and> all_ended t \<and> k + work_left t \<le> 8"
proof -
  obtain s1 s2 s3 s4 s5 where r: "gw_step retry_lib narrow_start s1" "gw_step retry_lib s1 s2"
    "gw_step retry_lib s2 s3" "gw_step retry_lib s3 s4" "gw_step retry_lib s4 s5"
    "\<exists>ctx. cx_ticket ctx \<and> sessions s1 = [ChatReply ctx unavailable]"
    "\<exists>ctx0 ctx d. cx_ticket ctx0 \<and> sessions s2 = [ChatReply ctx0 unavailable, ChatWait ctx False 0 d]"
    "\<exists>ctx d. sessions s3 = [Done (Inr True) [unavailable], ChatWait ctx True 0 d]"
    "\<exists>ctx. cx_ticket ctx \<and> sessions s4 = [Done (Inr True) [unavailable], ChatReply ctx unavailable]"
    "sessions s5 = [Done (Inr True) [unavailable], Done (Inr True) [unavailable]]"
    by (rule narrow_run) (rule that; assumption)
  have len: "length (sessions s1) = 1" "length (sessions s2) = 2" "length (sessions s3) = 2"
    "length (sessions s4) = 2" "length (sessions s5) = 2" using r(6-10) by auto
  have "turn_run retry_lib s1 1 0"
    using turn_run.arrival [OF turn_run.begun [OF narrow_start] r(1)] len(1) by (simp add: narrow_start_def)
  from turn_run.arrival [OF this r(2)] len have "turn_run retry_lib s2 2 0" by (simp add: numeral_2_eq_2)
  from turn_run_step [OF this r(3)] len obtain k where "turn_run retry_lib s3 2 k" by auto
  from turn_run_step [OF this r(4)] len obtain k where "turn_run retry_lib s4 2 k" by auto
  from turn_run_step [OF this r(5)] len obtain k where t: "turn_run retry_lib s5 2 k" by auto
  moreover have "all_ended s5" by (simp add: all_ended_def r(10))
  ultimately show ?thesis using turns_bounded [OF t] by auto
qed

theorem gateway_can_drain_witness:
  "\<exists>t u. sessions t \<noteq> [] \<and> \<not> all_ended t \<and> rtranclp (gw_step retry_lib) t u \<and> all_ended u \<and> gw_in_flight (sys_gw u) = 0"
proof -
  obtain s2 where r: "rtranclp (gw_step retry_lib) narrow_start s2"
    "\<exists>ctx0 ctx d. cx_ticket ctx0 \<and> sessions s2 = [ChatReply ctx0 unavailable, ChatWait ctx False 0 d]"
    by (rule narrow_run) (rule that; assumption)
  from gateway_can_drain [OF narrow_start r(1)] obtain u
    where "rtranclp (gw_step retry_lib) s2 u" "all_ended u" "gw_in_flight (sys_gw u) = 0" by blast
  moreover have "sessions s2 \<noteq> []" "\<not> all_ended s2" using r(2) by (auto simp: all_ended_def)
  ultimately show ?thesis by blast
qed

end
