(* ===== verification/Server.thy ===== *)
theory Server
  imports Gateway_Fragile
begin

text \<open>
  Around the gateway: the connection loop, the accept loops and the metrics endpoint
  (\<^verbatim>\<open>src/server/listener.cpp\<close>), and start-up and drain of the process
  (\<^verbatim>\<open>src/main.cpp\<close>).  Sockets, signals and timers are the environment: what they deliver is an
  argument of the functions or a step of a relation.
\<close>

section \<open>One connection\<close>

datatype conn_state = Reading | Serving session | Closed

record connection =
  cn_state :: conn_state
  cn_out :: "wire list"
  cn_requests :: nat

definition new_connection :: connection where
  "new_connection = \<lparr>cn_state = Reading, cn_out = [], cn_requests = 0\<rparr>"

text \<open>
  Where the loop is after a segment of the handler: still in \<open>handle\<close>, or back with its result; an
  exception leaves the loop like a result that says not to go on.
\<close>

definition conn_after :: "session \<Rightarrow> connection \<Rightarrow> connection" where
  "conn_after p c =
     (case p of
        Done res out \<Rightarrow>
          c\<lparr>cn_out := cn_out c @ out, cn_state := (if res = Inr True then Reading else Closed)\<rparr>
      | _ \<Rightarrow> c\<lparr>cn_state := Serving p\<rparr>)"

text \<open>
  \<open>run_session\<close>: a read that throws (error, idle timeout, client closed) ends the session; a
  request goes to the gateway with its own keep-alive flag.
\<close>

definition conn_read ::
  "lib \<Rightarrow> nat \<Rightarrow> time_ns \<Rightarrow> (http_request \<times> bool) option \<Rightarrow> gateway \<Rightarrow> connection \<Rightarrow>
   gateway \<times> nat option \<times> connection" where
  "conn_read lib w now req gw c =
     (case req of
        None \<Rightarrow> (gw, None, c\<lparr>cn_state := Closed\<rparr>)
      | Some (r, keep_alive) \<Rightarrow>
          let (gw1, g, p) = handle lib w now r keep_alive gw
          in (gw1, g, conn_after p (c\<lparr>cn_requests := cn_requests c + 1\<rparr>)))"

definition conn_resume ::
  "lib \<Rightarrow> nat \<Rightarrow> time_ns \<Rightarrow> wakeup \<Rightarrow> gateway \<Rightarrow> connection \<Rightarrow>
   (gateway \<times> nat option \<times> connection) option" where
  "conn_resume lib w now wk gw c =
     (case cn_state c of
        Serving p \<Rightarrow> map_option (\<lambda>(gw1, g, q). (gw1, g, conn_after q c)) (resume lib w now wk p gw)
      | _ \<Rightarrow> None)"

definition conn_granted :: "connection \<Rightarrow> connection" where
  "conn_granted c =
     (case cn_state c of Serving p \<Rightarrow> c\<lparr>cn_state := Serving (grant_session p)\<rparr> | _ \<Rightarrow> c)"

inductive conn_step :: "lib \<Rightarrow> config \<Rightarrow> nat \<Rightarrow> connection \<Rightarrow> connection \<Rightarrow> bool" for lib cfg w where
  read: "cn_state c = Reading \<Longrightarrow> configured cfg gw \<Longrightarrow> conn_read lib w now req gw c = (gw', g, c') \<Longrightarrow>
     conn_step lib cfg w c c'"
| resumed: "configured cfg gw \<Longrightarrow> conn_resume lib w now wk gw c = Some (gw', g, c') \<Longrightarrow>
     conn_step lib cfg w c c'"
| granted: "conn_step lib cfg w c (conn_granted c)"

section \<open>Accept loops and the metrics endpoint\<close>

datatype accepted = AcceptOk | AcceptAborted | AcceptError

text \<open>
  The accept loop on the results its acceptor delivers: how many sessions it has spawned, and
  whether it has left the loop.
\<close>

fun accept_loop :: "accepted list \<Rightarrow> nat \<times> bool" where
  "accept_loop [] = (0, False)"
| "accept_loop (AcceptAborted # rs) = (0, True)"
| "accept_loop (AcceptError # rs) = accept_loop rs"
| "accept_loop (AcceptOk # rs) = (let (n, e) = accept_loop rs in (n + 1, e))"

text \<open>
  The two listeners: opening, binding or listening may throw (\<open>None\<close>), then the loop runs.
\<close>

definition run_listener :: "bool \<Rightarrow> accepted list \<Rightarrow> (nat \<times> bool) option" where
  "run_listener bound rs = (if bound then Some (accept_loop rs) else None)"

definition run_metrics_listener :: "bool \<Rightarrow> accepted list \<Rightarrow> (nat \<times> bool) option" where
  "run_metrics_listener bound rs = (if bound then Some (accept_loop rs) else None)"

record metrics_reply =
  mr_status :: int
  mr_type :: string
  mr_body :: string

definition not_found_body :: string where
  "not_found_body =
     ''{'' @ [DQ] @ ''error'' @ [DQ] @ '':{'' @ [DQ] @ ''message'' @ [DQ] @ '':'' @ [DQ] @ ''not found'' @ [DQ] @
     '','' @ [DQ] @ ''type'' @ [DQ] @ '':'' @ [DQ] @ ''not_found_error'' @ [DQ] @ '','' @ [DQ] @ ''code'' @ [DQ] @
     '':404}}''"

definition run_metrics_session :: "http_request option \<Rightarrow> gateway \<Rightarrow> metrics_reply option" where
  "run_metrics_session req gw =
     (case req of
        None \<Rightarrow> None
      | Some r \<Rightarrow>
          if rq_method r = ''GET'' \<and> rq_target r = ''/metrics''
          then Some \<lparr>mr_status = 200, mr_type = ''text/plain; version=0.0.4; charset=utf-8'',
                     mr_body = render_metrics gw\<rparr>
          else Some \<lparr>mr_status = 404, mr_type = ''application/json'', mr_body = not_found_body\<rparr>)"

text \<open>One session per accepted connection, errors skipped, up to the first abort.\<close>

lemma accept_loop_sessions:
  "accept_loop rs =
     (count_if (\<lambda>r. r = AcceptOk) (takeWhile (\<lambda>r. r \<noteq> AcceptAborted) rs), AcceptAborted \<in> set rs)"
  by (induction rs rule: accept_loop.induct) simp_all

section \<open>Start-up\<close>

definition version_text :: string where
  "version_text = ''kvmux 0.1.0'' @ [LF]"

definition usage_text :: string where
  "usage_text = version_text @ ''usage: kvmux --config <path.toml>'' @ [LF] @ ''       kvmux --version'' @ [LF]"

datatype arg_result = ShowVersion | ShowUsage | ConfigPath string

text \<open>The argument loop; a \<open>--config\<close> without a value is skipped like an unknown argument.\<close>

fun parse_args :: "string \<Rightarrow> string list \<Rightarrow> arg_result" where
  "parse_args path [] = ConfigPath path"
| "parse_args path (arg # rest) =
     (if (arg = ''--config'' \<or> arg = ''-c'') \<and> rest \<noteq> [] then parse_args (hd rest) (tl rest)
      else if arg = ''--version'' then ShowVersion
      else if arg = ''--help'' \<or> arg = ''-h'' then ShowUsage
      else parse_args path rest)"

definition banner :: "string \<Rightarrow> config \<Rightarrow> string" where
  "banner path cfg =
     ''kvmux 0.1.0 '' @ [CHR 0xE2, CHR 0x80, CHR 0x94] @ '' loaded '' @ path @ '' ('' @
     nat_to_string (length (cfg_backends cfg)) @ '' backend(s), policy='' @
     policy_to_string (rc_policy (cfg_routing cfg)) @ '')'' @ [LF]"

text \<open>
  \<open>main\<close> up to \<open>ioc.run()\<close>: it exits with a code and what it printed on the two streams, or serves a
  gateway on two ports (\<open>static_cast<unsigned short>\<close>).  \<open>make_address\<close> is Boost's, with the
  message of its exception.
\<close>

datatype main_result =
    Exit int string string
  | Serve config gateway "16 word" "16 word" string

definition main_start ::
  "(string \<Rightarrow> string option) \<Rightarrow> (string \<Rightarrow> string \<Rightarrow> (parse_error, toml_table) result) \<Rightarrow> (toml \<Rightarrow> bool) \<Rightarrow>
   (string \<Rightarrow> (string, unit) result) \<Rightarrow> string list \<Rightarrow> main_result" where
  "main_start read_file parse is_aot make_address args =
     (case parse_args [] args of
        ShowVersion \<Rightarrow> Exit 0 version_text []
      | ShowUsage \<Rightarrow> Exit 0 usage_text []
      | ConfigPath path \<Rightarrow>
          if path = [] then Exit 2 usage_text (''error: --config <path.toml> is required'' @ [LF])
          else
            case load_file read_file parse is_aot path of
              Inl e \<Rightarrow> Exit 2 [] (''config error: '' @ e @ [LF])
            | Inr cfg \<Rightarrow>
                (case new_gateway cfg of
                   Inl e \<Rightarrow> Exit 1 (banner path cfg) (''fatal: '' @ e @ [LF])
                 | Inr gw \<Rightarrow>
                     (case make_address (sc_listen (cfg_server cfg)) of
                        Inl e \<Rightarrow> Exit 1 (banner path cfg) (''fatal: '' @ e @ [LF])
                      | Inr _ \<Rightarrow>
                          Serve cfg gw (of_int (sc_port (cfg_server cfg))) (of_int (cfg_metrics_port cfg))
                            (banner path cfg))))"

section \<open>Drain\<close>

text \<open>What the signal handler does to the gateway before it starts the poller.\<close>

definition on_signal :: "gateway \<Rightarrow> gateway" where
  "on_signal gw = stop_health_monitors (begin_drain gw)"

definition drain_deadline :: "time_ns \<Rightarrow> time_ns" where
  "drain_deadline start = start + 30 * 1000000000"

text \<open>One poll: stop the io_context, or arm the timer for the next poll.\<close>

definition drain_poll :: "time_ns \<Rightarrow> time_ns \<Rightarrow> int \<Rightarrow> time_ns option" where
  "drain_poll deadline now n =
     (if n = 0 \<or> now \<ge> deadline then None else Some (now + 100 * 1000000))"

text \<open>
  The poller on what its polls observe (time and in-flight count): which poll stops it.
\<close>

fun drain_run :: "time_ns \<Rightarrow> (time_ns \<times> int) list \<Rightarrow> nat option" where
  "drain_run deadline [] = None"
| "drain_run deadline ((now, n) # obs) =
     (case drain_poll deadline now n of
        None \<Rightarrow> Some 0
      | Some next \<Rightarrow> map_option Suc (drain_run deadline obs))"

text \<open>No poll happens before its timer expires; the first one is immediate.\<close>

fun timers_kept :: "time_ns \<Rightarrow> (time_ns \<times> int) list \<Rightarrow> bool" where
  "timers_kept due [] = True"
| "timers_kept due ((now, n) # obs) = (due \<le> now \<and> timers_kept (now + 100 * 1000000) obs)"

lemma timers_kept_time:
  "timers_kept due obs \<Longrightarrow> k < length obs \<Longrightarrow> due + int k * 100000000 \<le> fst (obs ! k)"
proof (induction due obs arbitrary: k rule: timers_kept.induct)
  case (2 due now n obs)
  then show ?case
  proof (cases k)
    case (Suc j)
    with 2 have "now + 100000000 + int j * 100000000 \<le> fst (obs ! j)" by simp
    moreover have "due \<le> now" using "2.prems"(1) by simp
    ultimately show ?thesis using Suc by simp
  qed simp
qed simp

lemma drain_run_stops:
  assumes "k < length obs" "snd (obs ! k) = 0 \<or> fst (obs ! k) \<ge> deadline"
  shows "\<exists>j \<le> k. drain_run deadline obs = Some j \<and>
    (snd (obs ! j) = 0 \<or> fst (obs ! j) \<ge> deadline) \<and> (\<forall>i < j. snd (obs ! i) \<noteq> 0 \<and> fst (obs ! i) < deadline)"
  using assms
proof (induction obs arbitrary: k)
  case (Cons ob obs)
  obtain now n where o: "ob = (now, n)" by (cases ob)
  show ?case
  proof (cases "n = 0 \<or> now \<ge> deadline")
    case True
    then show ?thesis by (intro exI [of _ 0]) (simp add: o drain_poll_def)
  next
    case False
    with Cons.prems o obtain k' where k: "k = Suc k'" "k' < length obs" by (cases k) auto
    with Cons.IH [of k'] Cons.prems obtain j where j: "j \<le> k'" "drain_run deadline obs = Some j"
      "snd (obs ! j) = 0 \<or> fst (obs ! j) \<ge> deadline" "\<forall>i < j. snd (obs ! i) \<noteq> 0 \<and> fst (obs ! i) < deadline"
      by auto
    have "\<forall>i < Suc j. snd ((ob # obs) ! i) \<noteq> 0 \<and> fst ((ob # obs) ! i) < deadline"
      using j(4) False o by (auto simp: less_Suc_eq_0_disj)
    with j k False o show ?thesis
      by (intro exI [of _ "Suc j"]) (simp add: drain_poll_def)
  qed
qed simp

section \<open>The connection's invariant\<close>

definition conn_sent :: "connection \<Rightarrow> wire list" where
  "conn_sent c = cn_out c @ (case cn_state c of Serving p \<Rightarrow> session_sent p | _ \<Rightarrow> [])"

definition conn_inv :: "lib \<Rightarrow> config \<Rightarrow> nat \<Rightarrow> connection \<Rightarrow> bool" where
  "conn_inv lib cfg w c \<longleftrightarrow>
     (\<exists>rs tl. cn_out c = concat rs @ tl \<and> (\<forall>r \<in> set rs. complete_response True r) \<and> partial_response tl \<and>
       length rs \<le> cn_requests c \<and> cn_requests c \<le> length rs + 1 \<and>
       (cn_state c = Reading \<longrightarrow> tl = [] \<and> length rs = cn_requests c) \<and>
       (\<forall>p. cn_state c = Serving p \<longrightarrow> tl = [] \<and> cn_requests c = length rs + 1 \<and> run_ends_in lib cfg w p))"

lemma run_ends_sent:
  assumes "run_ends_in lib cfg w p"
  shows "partial_response (session_sent p)"
    "p = Done (Inr True) out \<Longrightarrow> complete_response True out"
proof -
  obtain trail wk gw where r: "request_run lib cfg w (trail @ [Turn wk gw p])"
    using assms by (auto simp: run_ends_in_def)
  from run_trail_inv [OF r] show "partial_response (session_sent p)"
    "p = Done (Inr True) out \<Longrightarrow> complete_response True out"
    by (cases p; auto simp: trail_inv_def intro: partial_stream)+
qed

text \<open>The request being served has produced a new state.\<close>

lemma conn_after_inv:
  assumes "cn_out c = concat rs" "\<forall>r \<in> set rs. complete_response True r" "cn_requests c = length rs + 1"
    and "run_ends_in lib cfg w p"
  shows "conn_inv lib cfg w (conn_after p c)"
proof (cases "\<exists>res out. p = Done res out")
  case True
  then obtain res out where p: "p = Done res out" by blast
  note s = run_ends_sent [OF assms(4)]
  show ?thesis
  proof (cases "res = Inr True")
    case True
    with s(2) p assms show ?thesis
      unfolding conn_inv_def conn_after_def by (intro exI [of _ "rs @ [out]"] exI [of _ "[]"]) auto
  next
    case False
    with s(1) p assms show ?thesis
      unfolding conn_inv_def conn_after_def by (intro exI [of _ rs] exI [of _ out]) auto
  qed
next
  case False
  then have "conn_after p c = c\<lparr>cn_state := Serving p\<rparr>" by (cases p) (auto simp: conn_after_def)
  with assms show ?thesis unfolding conn_inv_def by (intro exI [of _ rs] exI [of _ "[]"]) auto
qed

lemma conn_step_inv:
  assumes "conn_inv lib cfg w c" "conn_step lib cfg w c c'"
  shows "conn_inv lib cfg w c'"
  using assms(2)
proof cases
  case (read gw now req gw' g)
  obtain rs where rs: "cn_out c = concat rs" "\<forall>r \<in> set rs. complete_response True r"
    "cn_requests c = length rs"
    using assms(1) read(1) by (auto simp: conn_inv_def)
  show ?thesis
  proof (cases req)
    case None
    with read rs show ?thesis
      unfolding conn_inv_def by (intro exI [of _ rs] exI [of _ "[]"]) (auto simp: conn_read_def)
  next
    case (Some rk)
    obtain r keep where rk: "rk = (r, keep)" by (cases rk)
    obtain p where h: "handle lib w now r keep gw = (gw', g, p)"
      "c' = conn_after p (c\<lparr>cn_requests := cn_requests c + 1\<rparr>)"
      using read(3) Some rk by (auto simp: conn_read_def split: prod.splits)
    have "run_ends_in lib cfg w p"
      using request_run.arrives [OF read(2) h(1)] unfolding run_ends_in_def by (metis append_Nil)
    with rs h(2) conn_after_inv show ?thesis by simp
  qed
next
  case (resumed gw now wk gw' g)
  then obtain p q where p: "cn_state c = Serving p" "resume lib w now wk p gw = Some (gw', g, q)"
    "c' = conn_after q c"
    by (auto simp: conn_resume_def split: conn_state.splits)
  then obtain rs where rs: "cn_out c = concat rs" "\<forall>r \<in> set rs. complete_response True r"
    "cn_requests c = length rs + 1" "run_ends_in lib cfg w p"
    using assms(1) by (auto simp: conn_inv_def)
  have "run_ends_in lib cfg w q"
    using rs(4) request_run.resumes [OF _ resumed(1) p(2)] unfolding run_ends_in_def
    by (metis append_Cons append.assoc append_Nil)
  with rs p(3) conn_after_inv show ?thesis by simp
next
  case granted
  have "run_ends_in lib cfg w p \<Longrightarrow> run_ends_in lib cfg w (grant_session p)" for p
    unfolding run_ends_in_def by (blast intro: request_run.granted)
  with granted assms(1) show ?thesis
    by (cases "cn_state c") (auto simp: conn_inv_def conn_granted_def)
qed

interpretation connections: step_invariant "\<lambda>c. c = new_connection" "conn_step lib cfg w" "conn_inv lib cfg w"
  for lib cfg w
  by unfold_locales (simp add: conn_inv_def new_connection_def, rule conn_step_inv)

section \<open>Draining\<close>

lemma in_chat_grant [simp]: "in_chat (grant_session p) = in_chat p"
  by (cases p) (simp_all add: in_chat_def ctx_view_def)

lemma count_in_chat_grant [simp]: "count_if in_chat (apply_grant g ss) = count_if in_chat ss"
proof (cases g)
  case (Some w)
  then show ?thesis
    using count_if_update [of w ss in_chat "grant_session (ss ! w)"]
    by (cases "w < length ss") (simp_all add: list_update_beyond not_less)
qed simp

lemma resume_in_chat: "resume lib w now wk p gw = Some (gw', g, q) \<Longrightarrow> in_chat q \<Longrightarrow> in_chat p"
  by (cases "(lib, w, now, wk, p, gw)" rule: resume.cases) (auto simp: in_chat_def ctx_view_def split: if_splits)

lemma handle_draining:
  assumes "gw_draining gw" "handle lib w now req keep gw = (gw', g, p)"
  shows "gw' = gw" "\<not> in_chat p"
  using assms by (auto simp: handle_def plain_reply_def in_chat_def split: option.splits)

lemma drain_step:
  assumes "gw_draining (sys_gw s)" "gw_step lib s t"
  shows "gw_draining (sys_gw t) \<and> count_if in_chat (sessions t) \<le> count_if in_chat (sessions s)"
  using assms(2)
proof cases
  case (arrive now req keep_alive gw g pc)
  with handle_draining [OF assms(1) arrive(3)] assms(1) show ?thesis by simp
next
  case (wake now i wk gw g pc)
  have "int (count_if in_chat ((sessions s)[i := pc])) \<le> int (count_if in_chat (sessions s))"
    using count_if_update [OF wake(3), of in_chat pc] resume_in_chat [OF wake(4)] by auto
  with wake drain.obs_resume [OF wake(4)] assms(1) show ?thesis by simp
next
  case (probed k net)
  with assms(1) show ?thesis by (simp add: update_backend_def)
next
  case (forced k st gw)
  with assms(1) show ?thesis by (auto simp: set_health_for_test_def update_backend_def split: if_splits)
next
  case drain
  with assms(1) show ?thesis by (simp add: stop_health_monitors_def begin_drain_def)
qed

lemma drain_steps:
  "rtranclp (gw_step lib) s t \<Longrightarrow> gw_draining (sys_gw s) \<Longrightarrow>
     gw_draining (sys_gw t) \<and> count_if in_chat (sessions t) \<le> count_if in_chat (sessions s)"
  by (induction rule: rtranclp_induct) (auto dest: drain_step)

lemma main_serve:
  assumes "main_start read_file parse is_aot make_address args = Serve cfg gw pt mpt out"
    and "length (cfg_backends cfg) < 2 ^ 64"
  shows "config_ok cfg \<and> gw_start \<lparr>sys_gw = gw, sessions = [], sys_now = t\<rparr> \<and>
    uint pt = sc_port (cfg_server cfg) \<and> uint mpt = cfg_metrics_port cfg"
proof -
  obtain path where l: "load_file read_file parse is_aot path = Inr cfg" and g: "new_gateway cfg = Inr gw"
    and p: "pt = of_int (sc_port (cfg_server cfg))" "mpt = of_int (cfg_metrics_port cfg)"
    using assms(1)
    by (auto simp: main_start_def split: arg_result.splits if_splits sum.splits)
  have ok: "config_ok cfg"
    using l validate_ok by (auto simp: load_file_def load_string_def split: option.splits sum.splits)
  then have "sc_port (cfg_server cfg) \<in> {1..65535}" "cfg_metrics_port cfg \<in> {1..65535}"
    by (auto simp: config_ok_def server_ok_def)
  then have "uint pt = sc_port (cfg_server cfg)" "uint mpt = cfg_metrics_port cfg"
    by (auto simp: p uint_word_of_int)
  with ok g assms(2) show ?thesis by (auto simp: gw_start_def)
qed

lemma main_serve_cfg:
  assumes "main_start read_file parse is_aot make_address args = Serve cfg gw pt mpt out"
  shows "gw_cfg gw = cfg"
  using assms
  by (auto simp: main_start_def dest: new_gateway_fields split: arg_result.splits if_splits sum.splits)

lemma example_main:
  "main_start (\<lambda>_. Some ''toml'') (\<lambda>_ _. Inr (config_doc example_pos example_config)) nonempty_tables
     (\<lambda>_. Inr ()) [''-c'', ''kvmux.toml''] =
   Serve example_config (sys_gw example_sys) 8080 9090 (banner ''kvmux.toml'' example_config)"
proof -
  have "sc_port (cfg_server example_config) = 8080" "cfg_metrics_port example_config = 9090"
    by (simp_all add: example_config_def default_config_def default_server_def)
  then show ?thesis
    by (simp add: main_start_def load_file_def load_string_def validate_config_doc example_config_ok
        example_is_tables example_gateway(1))
qed

lemma conn_inv_framed:
  assumes "conn_inv lib cfg w c"
  shows "\<exists>rs tl. conn_sent c = concat rs @ tl \<and> (\<forall>r \<in> set rs. complete_response True r) \<and>
    partial_response tl \<and> length rs \<le> cn_requests c \<and> cn_requests c \<le> length rs + 1 \<and>
    (cn_state c = Reading \<longrightarrow> tl = [] \<and> length rs = cn_requests c)"
proof -
  obtain rs tl where i: "cn_out c = concat rs @ tl" "\<forall>r \<in> set rs. complete_response True r"
    "partial_response tl" "length rs \<le> cn_requests c" "cn_requests c \<le> length rs + 1"
    "cn_state c = Reading \<longrightarrow> tl = [] \<and> length rs = cn_requests c"
    "\<forall>p. cn_state c = Serving p \<longrightarrow> tl = [] \<and> cn_requests c = length rs + 1 \<and> run_ends_in lib cfg w p"
    using assms by (auto simp: conn_inv_def)
  show ?thesis
  proof (cases "cn_state c")
    case (Serving p)
    with i run_ends_sent(1) [of lib cfg w p] show ?thesis
      by (intro exI [of _ rs] exI [of _ "session_sent p"]) (simp add: conn_sent_def)
  qed (use i in \<open>auto simp: conn_sent_def\<close>)
qed

section \<open>Properties\<close>

text \<open>
  Responses never run into each other.  However requests, reads, handler resumptions and failures
  follow each other on a connection, what was sent on it is a sequence of complete responses that
  announced keep-alive, then at most one response under way or broken off; there is at most one
  more request read than complete responses, and whenever the loop reads the next request, every
  earlier one has its complete response.
\<close>

theorem connection_framed:
  assumes "rtranclp (conn_step lib cfg w) new_connection c"
  shows "\<exists>rs tl. conn_sent c = concat rs @ tl \<and> (\<forall>r \<in> set rs. complete_response True r) \<and>
    partial_response tl \<and> length rs \<le> cn_requests c \<and> cn_requests c \<le> length rs + 1 \<and>
    (cn_state c = Reading \<longrightarrow> tl = [] \<and> length rs = cn_requests c)"
  using conn_inv_framed [OF connections.reachable_inv [OF refl assms]] .

theorem connection_framed_witness:
  "\<exists>c rs. rtranclp (conn_step example_lib example_config 0) new_connection c \<and> cn_state c = Reading \<and>
     conn_sent c = concat rs \<and> length rs = 1 \<and> (\<forall>r \<in> set rs. complete_response True r)"
proof -
  define gw where "gw = sys_gw example_sys"
  define req where "req = \<lparr>rq_method = ''GET'', rq_target = ''/healthz'', rq_body = []\<rparr>"
  have conf: "configured example_config gw"
    using gw_start_runs [of example_sys example_config] example_start
      new_gateway_fields [OF example_gateway(1)] by (simp add: all_runs_def gw_def)
  obtain out where h: "handle example_lib 0 0 req True gw = (gw, None, PlainReply out True)"
    using example_not_draining by (simp add: handle_def req_def gw_def plain_reply_def)
  define c1 where "c1 = \<lparr>cn_state = Serving (PlainReply out True), cn_out = [], cn_requests = 1\<rparr>"
  define c2 where "c2 = \<lparr>cn_state = Reading, cn_out = [out], cn_requests = 1\<rparr>"
  have "conn_step example_lib example_config 0 new_connection c1"
    by (rule conn_step.read [OF _ conf, where now = 0 and req = "Some (req, True)"])
       (simp_all add: new_connection_def conn_read_def h conn_after_def c1_def)
  moreover have "conn_step example_lib example_config 0 c1 c2"
    by (rule conn_step.resumed [OF conf, where now = 0 and wk = "Written True"])
       (simp add: conn_resume_def c1_def c2_def conn_after_def)
  ultimately have r: "rtranclp (conn_step example_lib example_config 0) new_connection c2" by auto
  have "cn_state c2 = Reading" "cn_requests c2 = 1" by (simp_all add: c2_def)
  with connection_framed [OF r] r show ?thesis by auto
qed

text \<open>
  The process serves only what it may.  When \<open>main\<close> gets as far as serving, the configuration
  satisfies every documented bound, the gateway is a start state of the system the other results are
  about, and the 16-bit casts of the two ports lose nothing.
\<close>

theorem main_serves_valid:
  assumes "main_start read_file parse is_aot make_address args = Serve cfg gw pt mpt out"
    and "length (cfg_backends cfg) < 2 ^ 64"
  shows "config_ok cfg \<and> gw_start \<lparr>sys_gw = gw, sessions = [], sys_now = t\<rparr> \<and>
    uint pt = sc_port (cfg_server cfg) \<and> uint mpt = cfg_metrics_port cfg"
  by (rule main_serve [OF assms])

theorem main_serves_valid_witness:
  "config_ok example_config \<and> gw_start \<lparr>sys_gw = sys_gw example_sys, sessions = [], sys_now = 0\<rparr> \<and>
   uint (8080 :: 16 word) = sc_port (cfg_server example_config) \<and>
   uint (9090 :: 16 word) = cfg_metrics_port example_config"
  by (rule main_serves_valid [OF example_main]) (simp add: example_config_def)

text \<open>
  The drain ends in time.  If no timer fires early, one of the first 301 polls stops the process:
  the first that sees no request in flight or the 30-second deadline passed.
\<close>

theorem drain_stops:
  assumes "timers_kept start obs" "300 < length obs"
  shows "\<exists>k \<le> 300. drain_run (drain_deadline start) obs = Some k \<and>
    (snd (obs ! k) = 0 \<or> fst (obs ! k) \<ge> drain_deadline start) \<and>
    (\<forall>i < k. snd (obs ! i) \<noteq> 0 \<and> fst (obs ! i) < drain_deadline start)"
proof -
  have "start + int 300 * 100000000 \<le> fst (obs ! 300)" by (rule timers_kept_time [OF assms])
  then have "drain_deadline start \<le> fst (obs ! 300)" by (simp add: drain_deadline_def)
  with drain_run_stops [OF assms(2)] show ?thesis by blast
qed

text \<open>Polls on time, with one request that does not end.\<close>

definition stuck_polls :: "(time_ns \<times> int) list" where
  "stuck_polls = map (\<lambda>k. (int k * 100000000, 1)) [0..<301]"

lemma timers_kept_regular:
  "timers_kept (int m * 100000000) (map (\<lambda>k. (int k * 100000000, n)) [m..<m + j])"
proof (induction j arbitrary: m)
  case (Suc j)
  have "[m..<m + Suc j] = m # [Suc m..<Suc m + j]" by (simp add: upt_rec)
  with Suc [of "Suc m"] show ?case by (simp add: algebra_simps)
qed simp

theorem drain_stops_witness: "drain_run (drain_deadline 0) stuck_polls = Some 300"
proof -
  have t: "timers_kept 0 stuck_polls"
    using timers_kept_regular [of 0 1 301] by (simp add: stuck_polls_def del: upt_rec_numeral)
  have len: "300 < length stuck_polls" by (simp add: stuck_polls_def)
  have nth: "stuck_polls ! k = (int k * 100000000, 1)" if "k \<le> 300" for k
    using that by (simp add: stuck_polls_def del: upt_rec_numeral)
  from drain_stops [OF t len] obtain k where k: "k \<le> 300" "drain_run (drain_deadline 0) stuck_polls = Some k"
    "snd (stuck_polls ! k) = 0 \<or> drain_deadline 0 \<le> fst (stuck_polls ! k)" by blast
  with nth [OF k(1)] have "300 \<le> k" by (simp add: drain_deadline_def)
  with k show ?thesis by simp
qed

text \<open>
  C33: A draining gateway only gets emptier.  From the moment the signal handler has run, no step of
  the system starts a chat request: the drain flag stays set and the in-flight count the poller looks
  at never grows.
\<close>

theorem drain_only_shrinks:
  assumes "gw_start s" "rtranclp (gw_step lib) s t"
    and "sys_gw u = on_signal (sys_gw t)" "sessions u = sessions t" "sys_now u = sys_now t"
    and "rtranclp (gw_step lib) u v"
  shows "gw_draining (sys_gw v) \<and> gw_in_flight (sys_gw v) \<le> gw_in_flight (sys_gw t)"
proof -
  have "u = t\<lparr>sys_gw := stop_health_monitors (begin_drain (sys_gw t))\<rparr>"
    using assms(3-5) by (cases u; cases t) (simp add: on_signal_def)
  then have "gw_step lib t u" using gw_step.drain by simp
  then have u: "rtranclp (gw_step lib) s u" using assms(2) by (rule rtranclp.rtrancl_into_rtrancl [rotated])
  then have v: "rtranclp (gw_step lib) s v" using assms(6) by simp
  have d: "gw_draining (sys_gw u)"
    by (simp add: assms(3) on_signal_def stop_health_monitors_def begin_drain_def)
  have n: "gw_in_flight (sys_gw x) = int (count_if in_chat (sessions x))" if "rtranclp (gw_step lib) s x" for x
    using sys_inv_settled [OF gateway_sys.reachable_inv [OF assms(1) that]] by (simp add: settled_def count_if_def)
  show ?thesis using drain_steps [OF assms(6) d] n [OF assms(2)] n [OF v] assms(4) by simp
qed

text \<open>The signal comes while two requests of the fragile run are in flight; a third one arrives after it.\<close>

theorem drain_only_shrinks_witness:
  "\<exists>(t :: gw_sys) (v :: gw_sys). length (sessions t) = 2 \<and> list_all in_chat (sessions t) \<and> length (sessions v) = 3 \<and>
     gw_draining (sys_gw v) \<and> gw_in_flight (sys_gw v) \<le> gw_in_flight (sys_gw t)"
proof -
  obtain t :: gw_sys and ctx0 out ctx fs where r: "rtranclp (gw_step retry_lib) fragile_start t"
    "sessions t = [ChatReply ctx0 out, ChatStream ctx fs]" by (rule fragile_run) (rule that; assumption)
  define u where "u = t\<lparr>sys_gw := on_signal (sys_gw t)\<rparr>"
  have u: "sys_gw u = on_signal (sys_gw t)" "sessions u = sessions t" "sys_now u = sys_now t" by (simp_all add: u_def)
  obtain gw g q where h: "handle retry_lib (length (sessions u)) (sys_now u) example_post True (sys_gw u) = (gw, g, q)"
    by (metis surj_pair)
  let ?v = "\<lparr>sys_gw = gw, sessions = apply_grant g (sessions u @ [q]), sys_now = sys_now u\<rparr>"
  have "gw_step retry_lib u ?v" by (rule gw_step.arrive [OF order_refl h])
  from drain_only_shrinks [OF fragile_start r(1) u r_into_rtranclp [of "gw_step retry_lib", OF this]]
  have "gw_draining (sys_gw ?v) \<and> gw_in_flight (sys_gw ?v) \<le> gw_in_flight (sys_gw t)" .
  moreover have "length (sessions ?v) = 3" using arg_cong [OF r(2), of length] u(2) by simp
  ultimately show ?thesis
    by (intro exI [of _ t] exI [of _ ?v]) (simp add: r(2) in_chat_def ctx_view_def)
qed

end
