(* ===== verification/Raii.thy ===== *)
theory Raii
  imports Admission
begin

text \<open>
  The move-only owners of admission resources (\<^verbatim>\<open>src/admission/controller.hpp\<close>): \<open>BackendSlot\<close> and
  \<open>Ticket\<close> hold a pointer to the limiter or gate they owe one \<open>release\<close>, or null.  The owner objects
  are a list of such pointers; the pointees are a store, on which \<open>rel p\<close> is the release through
  pointer \<open>p\<close>.
\<close>

section \<open>Owner objects\<close>

definition holder_reset :: "('p \<Rightarrow> 's \<Rightarrow> 's) \<Rightarrow> nat \<Rightarrow> 'p option list \<times> 's \<Rightarrow> 'p option list \<times> 's" where
  "holder_reset rel i st =
     (case fst st ! i of None \<Rightarrow> st | Some p \<Rightarrow> ((fst st)[i := None], rel p (snd st)))"

text \<open>Move construction makes a new object; move assignment first gives up what the left side holds.\<close>

definition holder_move :: "nat \<Rightarrow> 'p option list \<times> 's \<Rightarrow> 'p option list \<times> 's" where
  "holder_move j st = ((fst st)[j := None] @ [fst st ! j], snd st)"

definition holder_assign ::
  "('p \<Rightarrow> 's \<Rightarrow> 's) \<Rightarrow> nat \<Rightarrow> nat \<Rightarrow> 'p option list \<times> 's \<Rightarrow> 'p option list \<times> 's" where
  "holder_assign rel i j st =
     (if i = j then st
      else let st1 = holder_reset rel i st
           in ((fst st1)[i := fst st1 ! j, j := None], snd st1))"

text \<open>
  What the code does with such objects: try to acquire and construct one, move, assign, reset; a
  destructor is a reset.  \<open>None\<close> for an object that does not exist.
\<close>

datatype 'a holder_op = HAcquire 'a | HMove nat | HAssign nat nat | HReset nat

fun holder_step ::
  "('p \<Rightarrow> 's \<Rightarrow> 's) \<Rightarrow> ('a \<Rightarrow> 's \<Rightarrow> 's \<times> 'p option) \<Rightarrow> 'a holder_op \<Rightarrow> 'p option list \<times> 's \<Rightarrow>
   ('p option list \<times> 's) option" where
  "holder_step rel acq (HAcquire a) (hs, s) = (let (s1, h) = acq a s in Some (hs @ [h], s1))"
| "holder_step rel acq (HMove j) (hs, s) = (if j < length hs then Some (holder_move j (hs, s)) else None)"
| "holder_step rel acq (HAssign i j) (hs, s) =
     (if i < length hs \<and> j < length hs then Some (holder_assign rel i j (hs, s)) else None)"
| "holder_step rel acq (HReset i) (hs, s) = (if i < length hs then Some (holder_reset rel i (hs, s)) else None)"

fun holder_run ::
  "('p \<Rightarrow> 's \<Rightarrow> 's) \<Rightarrow> ('a \<Rightarrow> 's \<Rightarrow> 's \<times> 'p option) \<Rightarrow> 'a holder_op list \<Rightarrow> 'p option list \<times> 's \<Rightarrow>
   ('p option list \<times> 's) option" where
  "holder_run rel acq [] st = Some st"
| "holder_run rel acq (q # qs) st = Option.bind (holder_step rel acq q st) (holder_run rel acq qs)"

section \<open>Slots and tickets\<close>

text \<open>\<open>BackendSlot\<close> over the limiters of the backends.\<close>

type_synonym limiters = "nat \<Rightarrow> limiter"

definition slot_release :: "nat \<Rightarrow> limiters \<Rightarrow> limiters" where
  "slot_release k mem = mem(k := release_slot (mem k))"

definition slot_acquire :: "nat \<Rightarrow> limiters \<Rightarrow> limiters \<times> nat option" where
  "slot_acquire k mem = (let (l, ok) = try_acquire (mem k) in (mem(k := l), if ok then Some k else None))"

definition slot_reset :: "nat \<Rightarrow> nat option list \<times> limiters \<Rightarrow> nat option list \<times> limiters" where
  "slot_reset = holder_reset slot_release"

definition slot_move :: "nat \<Rightarrow> nat option list \<times> limiters \<Rightarrow> nat option list \<times> limiters" where
  "slot_move = holder_move"

definition slot_assign :: "nat \<Rightarrow> nat \<Rightarrow> nat option list \<times> limiters \<Rightarrow> nat option list \<times> limiters" where
  "slot_assign = holder_assign slot_release"

definition slot_held :: "nat option \<Rightarrow> bool" where
  "slot_held h = (h \<noteq> None)"

text \<open>
  \<open>Ticket\<close> over the gate, with the waiters that were granted a slot and have not run yet.  A
  coroutine gets a ticket when it enters at once, or when it resumes after a grant.
\<close>

type_synonym gate_store = "global_gate \<times> nat list"

definition ticket_release :: "unit \<Rightarrow> gate_store \<Rightarrow> gate_store" where
  "ticket_release p st =
     (let (g, w) = gate_release (fst st) in (g, snd st @ (case w of None \<Rightarrow> [] | Some v \<Rightarrow> [v])))"

definition ticket_acquire :: "nat \<times> time_ns \<Rightarrow> gate_store \<Rightarrow> gate_store \<times> unit option" where
  "ticket_acquire a st =
     (if fst a \<in> set (snd st) then ((fst st, remove1 (fst a) (snd st)), Some ())
      else case gate_enter (fst a) (snd a) (fst st) of
        (g, Ready r) \<Rightarrow> ((g, snd st), if is_admitted r then Some () else None)
      | (g, Suspended t0 due) \<Rightarrow> ((g, snd st), None))"

definition ticket_reset :: "nat \<Rightarrow> unit option list \<times> gate_store \<Rightarrow> unit option list \<times> gate_store" where
  "ticket_reset = holder_reset ticket_release"

definition ticket_move :: "nat \<Rightarrow> unit option list \<times> gate_store \<Rightarrow> unit option list \<times> gate_store" where
  "ticket_move = holder_move"

definition ticket_assign :: "nat \<Rightarrow> nat \<Rightarrow> unit option list \<times> gate_store \<Rightarrow> unit option list \<times> gate_store" where
  "ticket_assign = holder_assign ticket_release"

section \<open>The contract of an owned resource\<close>

text \<open>
  What the owners rely on: a release takes one off what is owed through its pointer, an acquisition
  adds one exactly if it hands out the pointer.
\<close>

locale owned_resource =
  fixes rel :: "'p \<Rightarrow> 's \<Rightarrow> 's" and acq :: "'a \<Rightarrow> 's \<Rightarrow> 's \<times> 'p option" and owed :: "'p \<Rightarrow> 's \<Rightarrow> int"
  assumes rel_owed: "owed q (rel p s) = owed q s - of_bool (p = q)"
    and acq_owed: "acq a s = (s', h) \<Longrightarrow> owed q s' = owed q s + of_bool (h = Some q)"
begin

text \<open>What is owed beyond what the objects own; no operation changes it.\<close>

definition excess :: "'p \<Rightarrow> 'p option list \<times> 's \<Rightarrow> int" where
  "excess q st = owed q (snd st) - int (count_if (\<lambda>h. h = Some q) (fst st))"

lemma excess_reset: "i < length (fst st) \<Longrightarrow> excess q (holder_reset rel i st) = excess q st"
  by (cases "fst st ! i") (simp_all add: holder_reset_def excess_def count_if_update rel_owed)

lemma excess_move: "j < length (fst st) \<Longrightarrow> excess q (holder_move j st) = excess q st"
  by (simp add: holder_move_def excess_def count_if_update)

lemma excess_assign:
  assumes "i < length (fst st)" "j < length (fst st)"
  shows "excess q (holder_assign rel i j st) = excess q st"
proof (cases "i = j")
  case False
  let ?st1 = "holder_reset rel i st"
  have "fst ?st1 ! i = None" "length (fst ?st1) = length (fst st)"
    using assms by (auto simp: holder_reset_def split: option.splits)
  with assms False have "excess q (holder_assign rel i j st) = excess q ?st1"
    by (simp add: holder_assign_def excess_def count_if_update Let_def)
  with excess_reset [OF assms(1)] show ?thesis by simp
qed (simp add: holder_assign_def)

lemma excess_step:
  assumes "holder_step rel acq e st = Some st'"
  shows "excess q st' = excess q st"
proof -
  obtain hs s where st: "st = (hs, s)" by (cases st)
  show ?thesis
  proof (cases e)
    case (HAcquire a)
    obtain s1 h where "acq a s = (s1, h)" by (cases "acq a s")
    with HAcquire st assms acq_owed [OF this, of q] show ?thesis by (auto simp: excess_def)
  qed (use assms st excess_move [of _ st] excess_assign [of _ st] excess_reset [of _ st] in
      \<open>auto split: if_splits\<close>)
qed

lemma excess_run: "holder_run rel acq es st = Some st' \<Longrightarrow> excess q st' = excess q st"
  by (induction es arbitrary: st) (auto simp: excess_step split: Option.bind_splits)

lemma owners_exact:
  assumes "holder_run rel acq es ([], s) = Some (hs, s')"
  shows "owed q s' = owed q s + int (count_if (\<lambda>h. h = Some q) hs)"
  using excess_run [OF assms, of q] by (simp add: excess_def)

end

interpretation slots: owned_resource slot_release slot_acquire "\<lambda>k mem. lim_active (mem k)"
  by unfold_locales (auto simp: slot_release_def slot_acquire_def release_slot_def try_acquire_def split: if_splits)

lemma granted_collected: "w \<in> set ws \<Longrightarrow> int (length (remove1 w ws)) = int (length ws) - 1"
  by (induction ws) auto

interpretation tickets: owned_resource ticket_release ticket_acquire
  "\<lambda>_ st. in_flight (fst st) - int (length (snd st))"
  by unfold_locales
     (auto simp: ticket_release_def ticket_acquire_def gate_defs is_admitted_def granted_collected Let_def
        split: if_splits list.splits)

section \<open>Properties\<close>

text \<open>
  C22: Every slot and every ticket is given back exactly once.  After any sequence of acquisitions, moves,
  assignments (to itself included), resets and destructions of owner objects, each limiter counts
  exactly the \<open>BackendSlot\<close>s that own it, and the gate exactly the \<open>Ticket\<close>s that own it plus the
  grants not yet collected.
\<close>

theorem owners_release_once:
  assumes "holder_run slot_release slot_acquire es ([], \<lambda>k. new_limiter (cap k)) = Some (hs, mem)"
    and "holder_run ticket_release ticket_acquire fs ([], (new_gate m d t, [])) = Some (ts, (g, granted))"
  shows "lim_active (mem k) = int (count_if (\<lambda>h. h = Some k) hs) \<and>
    in_flight g = int (count_if (\<lambda>h. h = Some ()) ts) + int (length granted)"
  using slots.owners_exact [OF assms(1), of k] tickets.owners_exact [OF assms(2), of "()"]
  by (simp add: new_limiter_def new_gate_def)

theorem owners_release_once_witness:
  "\<exists>hs mem ts g granted.
     holder_run slot_release slot_acquire [HAcquire 7, HAcquire 7, HMove 0, HAssign 1 2, HAssign 1 1]
       ([], \<lambda>k. new_limiter 2) = Some (hs, mem) \<and> hs = [None, Some 7, None] \<and> lim_active (mem 7) = 1 \<and>
     holder_run ticket_release ticket_acquire [HAcquire (0, 0), HAcquire (1, 0), HReset 0]
       ([], (new_gate 1 1 5, [])) = Some (ts, (g, granted)) \<and> ts = [None, None] \<and> granted = [1] \<and> in_flight g = 1"
proof -
  let ?es = "[HAcquire 7, HAcquire 7, HMove 0, HAssign 1 2, HAssign 1 1]"
  let ?fs = "[HAcquire (0, 0), HAcquire (1, 0), HReset 0]"
  obtain mem where r: "holder_run slot_release slot_acquire ?es ([], \<lambda>k. new_limiter 2)
      = Some ([None, Some 7, None], mem)"
    by (simp add: slot_acquire_def slot_release_def try_acquire_def new_limiter_def holder_move_def
        holder_assign_def holder_reset_def Let_def)
  obtain g where f: "holder_run ticket_release ticket_acquire ?fs ([], (new_gate 1 1 5, []))
      = Some ([None, None], (g, [1]))"
    by (simp add: ticket_acquire_def ticket_release_def gate_defs new_gate_def is_admitted_def
        holder_reset_def Let_def)
  from owners_release_once [OF r f, of 7] r f show ?thesis by simp
qed

end
