(* ===== verification/Upstream_Budget.thy ===== *)
theory Upstream_Budget
  imports Gateway_Stream
begin

text \<open>
  Time in the upstream client (\<^verbatim>\<open>src/upstream/client.cpp\<close>): \<open>connect\<close> and the deadlines the calls set on
  the stream.  A peer says how many milliseconds each operation of a call would take if it were let
  run; an operation that has not completed when the deadline of the stream passes fails with a
  timeout.  From a peer and a budget follows the exchange the calls of \<open>Upstream_Client\<close> meet.
\<close>

section \<open>Peers and deadlines\<close>

record timed_read =
  tr_read :: body_read
  tr_takes :: nat

text \<open>
  Resolving, connecting, and the request up to the response's header: how long they take, \<open>None\<close> if
  they fail.  Then the status, \<open>is_done()\<close> and the reads of the body.
\<close>

record peer =
  pe_resolve :: "nat option"
  pe_connect :: "nat option"
  pe_header :: "nat option"
  pe_status :: int
  pe_done :: bool
  pe_reads :: "timed_read list"

definition stream_budget :: nat where
  "stream_budget = 300000"

definition unary_budget :: nat where
  "unary_budget = 120000"

definition probe_budget :: nat where
  "probe_budget = 2000"

text \<open>One deadline, set before the name is resolved, covers resolving and connecting.\<close>

definition connect :: "nat \<Rightarrow> peer \<Rightarrow> nat option" where
  "connect budget pe =
     Option.bind (pe_resolve pe) (\<lambda>r. Option.bind (pe_connect pe) (\<lambda>c.
       if r + c < budget then Some (r + c) else None))"

definition timeout_read :: body_read where
  "timeout_read = \<lparr>rd_data = [], rd_code = ReadTimeout, rd_done = False\<rparr>"

text \<open>
  The body of a stream: the deadline is set anew before every read.  The body of an error response
  is drained under the deadline that was set before the request was written.
\<close>

fun reads_renewed :: "nat \<Rightarrow> timed_read list \<Rightarrow> body_read list" where
  "reads_renewed budget [] = []"
| "reads_renewed budget (r # rs) =
     (if tr_takes r < budget then tr_read r # reads_renewed budget rs else [timeout_read])"

fun reads_until :: "nat \<Rightarrow> timed_read list \<Rightarrow> body_read list" where
  "reads_until left [] = []"
| "reads_until left (r # rs) =
     (if tr_takes r < left then tr_read r # reads_until (left - tr_takes r) rs else [timeout_read])"

definition stream_exchange :: "nat \<Rightarrow> peer \<Rightarrow> exchange" where
  "stream_exchange budget pe =
     (case connect budget pe of
        None \<Rightarrow> NoConnection
      | Some t \<Rightarrow>
          (case pe_header pe of
             None \<Rightarrow> NoHeader
           | Some h \<Rightarrow>
               if h < budget
               then Response (pe_status pe) (pe_done pe)
                 (if pe_status pe \<ge> 400 then reads_until (budget - h) (pe_reads pe)
                  else reads_renewed budget (pe_reads pe))
               else NoHeader))"

text \<open>
  \<open>async_read\<close> of \<open>post_chat\<close> and \<open>get\<close>: the whole response under the one deadline set before the
  request was written; an error or a timeout anywhere throws.
\<close>

fun collect_body :: "nat \<Rightarrow> bool \<Rightarrow> timed_read list \<Rightarrow> string option" where
  "collect_body left True rs = Some []"
| "collect_body left False [] = None"
| "collect_body left False (r # rs) =
     (if tr_takes r < left \<and> rd_code (tr_read r) \<noteq> ReadTimeout \<and> rd_code (tr_read r) \<noteq> ReadError
      then map_option (\<lambda>body. rd_data (tr_read r) @ body) (collect_body (left - tr_takes r) (rd_done (tr_read r)) rs)
      else None)"

definition unary_exchange_of :: "nat \<Rightarrow> peer \<Rightarrow> unary_exchange" where
  "unary_exchange_of budget pe =
     (case connect budget pe of
        None \<Rightarrow> UNoConnection
      | Some t \<Rightarrow>
          (case pe_header pe of
             None \<Rightarrow> UNoResponse
           | Some h \<Rightarrow>
               if h < budget
               then (case collect_body (budget - h) (pe_done pe) (pe_reads pe) of
                       None \<Rightarrow> UNoResponse
                     | Some body \<Rightarrow> UResponse (pe_status pe) body)
               else UNoResponse))"

section \<open>What a deadline does to a body\<close>

text \<open>A read that the deadline ends, among those the loop reaches; how long a body takes.\<close>

fun stalls :: "nat \<Rightarrow> bool \<Rightarrow> timed_read list \<Rightarrow> bool" where
  "stalls budget True rs = False"
| "stalls budget False [] = False"
| "stalls budget False (r # rs) = (budget \<le> tr_takes r \<or> stalls budget (rd_done (tr_read r)) rs)"

definition body_time :: "timed_read list \<Rightarrow> nat" where
  "body_time rs = sum_list (map tr_takes rs)"

definition delivers :: "timed_read list \<Rightarrow> bool" where
  "delivers rs = list_all (\<lambda>r. rd_code (tr_read r) = ReadOk \<or> rd_code (tr_read r) = NeedBuffer) rs"

lemma stalls_timeout: "delivers rs \<Longrightarrow> body_timeout finished (reads_renewed budget rs) = stalls budget finished rs"
  by (induction budget finished rs rule: stalls.induct) (auto simp: delivers_def timeout_read_def)

text \<open>A body that ends, or stalls, is a complete script of reads.\<close>

fun body_ends :: "bool \<Rightarrow> timed_read list \<Rightarrow> bool" where
  "body_ends True rs = True"
| "body_ends False [] = False"
| "body_ends False (r # rs) = body_ends (rd_done (tr_read r)) rs"

lemma script_renewed:
  "delivers rs \<Longrightarrow> script_complete finished (reads_renewed budget rs) = (body_ends finished rs \<or> stalls budget finished rs)"
  by (induction budget finished rs rule: stalls.induct) (auto simp: delivers_def timeout_read_def)

lemma collect_in_time: "collect_body left finished rs = Some body \<Longrightarrow> \<exists>n. body_ends finished (take n rs) \<and> (n = 0 \<or> body_time (take n rs) < left)"
proof (induction left finished rs arbitrary: body rule: collect_body.induct)
  case (3 left r rs)
  then obtain n body' where n: "body_ends (rd_done (tr_read r)) (take n rs)"
    "n = 0 \<or> body_time (take n rs) < left - tr_takes r" "tr_takes r < left"
    by (fastforce split: if_splits)
  then show ?case by (intro exI [of _ "Suc n"]) (auto simp: body_time_def)
qed (auto intro: exI [of _ 0])

lemma refuses_nothing:
  assumes "\<And>s ev. snd (sink s ev)"
  shows "fst (snd (run_sink sink s evs)) = False"
proof (induction evs arbitrary: s)
  case (Cons ev evs)
  with assms [of s ev] show ?case by (auto simp: split: prod.splits) (metis fst_conv snd_conv)
qed simp

section \<open>Properties\<close>

text \<open>
  C23: The budget of a stream is a bound on silence, not on the request.  A 2xx stream that delivers its
  reads to a client that takes them is reported as timed out exactly if one read the loop reaches
  takes the whole budget; how long the stream takes altogether makes no difference.
\<close>

theorem stream_budget_is_idle_time:
  assumes "connect stream_budget pe = Some t" "pe_header pe = Some h" "h < stream_budget" "pe_status pe < 400"
    and "delivers (pe_reads pe)" "body_ends (pe_done pe) (pe_reads pe) \<or> stalls stream_budget (pe_done pe) (pe_reads pe)"
    and "\<And>s ev. snd (sink s ev)"
  shows "\<exists>sr s'. stream_chat sink (stream_exchange stream_budget pe) s = Some (sr, s') \<and> connected sr \<and>
    (timed_out sr \<longleftrightarrow> stalls stream_budget (pe_done pe) (pe_reads pe))"
proof -
  let ?reads = "reads_renewed stream_budget (pe_reads pe)"
  obtain s2 stop seen where r: "run_sink sink s (response_events (pe_done pe) ?reads) = (s2, stop, seen)"
    by (metis surj_pair)
  have "\<not> stop" using refuses_nothing [where sink = sink and s = s and evs = "response_events (pe_done pe) ?reads"] assms(7) r by simp
  moreover have "script_complete (pe_done pe) ?reads" using script_renewed [OF assms(5)] assms(6) by blast
  moreover have "stream_exchange stream_budget pe = Response (pe_status pe) (pe_done pe) ?reads"
    using assms(1-4) by (simp add: stream_exchange_def)
  ultimately show ?thesis
    using stream_chat_run [OF _ assms(4) r] stalls_timeout [OF assms(5)] by fastforce
qed

text \<open>
  C30: A timeout of a non-streaming call is a success.  When an upstream accepts the connection and does not
  complete its response within the budget, the client is answered 200 with an empty body, and the
  breaker is told that the backend works.
\<close>

theorem unary_timeout_is_ok:
  assumes "connect unary_budget pe = Some t"
    and "\<And>h n. pe_header pe = Some h \<Longrightarrow> body_ends (pe_done pe) (take n (pe_reads pe)) \<Longrightarrow>
      unary_budget \<le> h + body_time (take n (pe_reads pe))"
  shows "after_unary lib now (post_chat (unary_exchange_of unary_budget pe)) ctx gw =
     (note_success ctx gw, None, ChatReply (ctx\<lparr>cx_code := 200\<rparr>) (json_response (cx_keep ctx) 200 []))"
proof -
  have "unary_exchange_of unary_budget pe = UNoResponse"
  proof (cases "pe_header pe")
    case (Some h)
    have "collect_body (unary_budget - h) (pe_done pe) (pe_reads pe) = None" if "h < unary_budget"
    proof (rule ccontr)
      assume "collect_body (unary_budget - h) (pe_done pe) (pe_reads pe) \<noteq> None"
      then obtain n where "body_ends (pe_done pe) (take n (pe_reads pe))"
        "n = 0 \<or> body_time (take n (pe_reads pe)) < unary_budget - h" using collect_in_time by blast
      with assms(2) [OF Some, of n] that show False by (auto simp: body_time_def)
    qed
    with Some assms(1) show ?thesis by (simp add: unary_exchange_of_def)
  qed (simp add: unary_exchange_of_def assms(1))
  then show ?thesis by (simp add: unanswered_call_is_ok)
qed

text \<open>
  A stream of three reads, each just below the budget, so that it takes almost fifteen minutes; and
  an upstream that sends its header after two minutes.
\<close>

definition slow_peer :: peer where
  "slow_peer = \<lparr>pe_resolve = Some 1, pe_connect = Some 1, pe_header = Some 1, pe_status = 200, pe_done = False,
     pe_reads = [\<lparr>tr_read = \<lparr>rd_data = ''data: a'', rd_code = ReadOk, rd_done = False\<rparr>, tr_takes = 299999\<rparr>,
       \<lparr>tr_read = \<lparr>rd_data = [LF, LF], rd_code = ReadOk, rd_done = False\<rparr>, tr_takes = 299999\<rparr>,
       \<lparr>tr_read = \<lparr>rd_data = ''data: [DONE]'' @ [LF, LF], rd_code = ReadOk, rd_done = True\<rparr>, tr_takes = 299999\<rparr>]\<rparr>"

theorem stream_budget_is_idle_time_witness:
  "\<exists>sr s'. stream_chat recording_sink (stream_exchange stream_budget slow_peer) [] = Some (sr, s') \<and>
     \<not> timed_out sr \<and> 2 * stream_budget < body_time (pe_reads slow_peer)"
proof -
  have "connect stream_budget slow_peer = Some 2" "pe_header slow_peer = Some 1" "1 < stream_budget" "pe_status slow_peer < 400"
    "delivers (pe_reads slow_peer)" "body_ends (pe_done slow_peer) (pe_reads slow_peer)"
    "\<not> stalls stream_budget (pe_done slow_peer) (pe_reads slow_peer)" "2 * stream_budget < body_time (pe_reads slow_peer)"
    by (simp_all add: slow_peer_def connect_def stream_budget_def delivers_def body_time_def)
  moreover have "snd (recording_sink s ev)" for s ev by (simp add: recording_sink_def)
  ultimately show ?thesis using stream_budget_is_idle_time [of slow_peer 2 1 recording_sink "[]"] by blast
qed

theorem unary_timeout_is_ok_witness:
  "after_unary retry_lib 0 (post_chat (unary_exchange_of unary_budget (slow_peer\<lparr>pe_header := Some 120000\<rparr>))) (new_ctx 0 True)
     retry_gateway =
   (note_success (new_ctx 0 True) retry_gateway, None,
    ChatReply ((new_ctx 0 True)\<lparr>cx_code := 200\<rparr>) (json_response True 200 []))"
proof -
  have "connect unary_budget (slow_peer\<lparr>pe_header := Some 120000\<rparr>) = Some 2"
    by (simp add: slow_peer_def connect_def unary_budget_def)
  from unary_timeout_is_ok [OF this, of retry_lib 0 "new_ctx 0 True" retry_gateway] show ?thesis
    by (simp add: unary_budget_def new_ctx_def)
qed

end
