(* ===== verification/Process.thy ===== *)
theory Process
  imports Server Raii Gateway_Progress "HOL-Library.Multiset"
begin

text \<open>
  The process \<open>main\<close> runs (\<^verbatim>\<open>src/main.cpp\<close>): one io_context with the two listeners, the connections
  they accept, the health monitors, the signal handler and the drain poller, all around one gateway.
  Every handler the io_context runs is one step.  The theory shows that the process drives the
  gateway only by the steps the other results are about, how it ends, and what its destructors do.
\<close>

section \<open>The process\<close>

datatype listener = LSpawned | LOpen | LEnded

text \<open>The drain poller: not started, waiting for its timer, or the io_context stopped.\<close>

datatype drainer = NoSignal | Polling time_ns time_ns | Stopped

text \<open>
  A connection carries the number of the request it serves last, which stands for the identity of
  that request's waiter object; \<open>ps_next\<close> is the next fresh one.
\<close>

record process =
  ps_gw :: gateway
  ps_now :: time_ns
  ps_next :: nat
  ps_conns :: "(nat \<times> connection) list"
  ps_monitors :: "monitor_pc list"
  ps_listener :: listener
  ps_metrics :: listener
  ps_scrapes :: "metrics_reply list"
  ps_drainer :: drainer

definition start_health_monitors :: "gateway \<Rightarrow> monitor_pc list" where
  "start_health_monitors gw = map (\<lambda>b. MSpawned) (gw_backends gw)"

definition new_process :: "time_ns \<Rightarrow> gateway \<Rightarrow> process" where
  "new_process t gw =
     \<lparr>ps_gw = gw, ps_now = t, ps_next = 0, ps_conns = [], ps_monitors = start_health_monitors gw,
      ps_listener = LSpawned, ps_metrics = LSpawned, ps_scrapes = [], ps_drainer = NoSignal\<rparr>"

text \<open>\<open>bound\<close> is whether opening, binding and listening succeed; otherwise the coroutine ends.\<close>

definition listener_begin :: "bool \<Rightarrow> listener" where
  "listener_begin bound = (if bound then LOpen else LEnded)"

definition listener_accepted :: "accepted \<Rightarrow> listener" where
  "listener_accepted r = (if r = AcceptAborted then LEnded else LOpen)"

text \<open>The waiter that was granted a slot, on whichever connection its request is served.\<close>

definition grant_conn :: "nat option \<Rightarrow> nat \<times> connection \<Rightarrow> nat \<times> connection" where
  "grant_conn g kc = (if g = Some (fst kc) then (fst kc, conn_granted (snd kc)) else kc)"

text \<open>One poll of the drainer, on the gateway's in-flight counter.\<close>

definition drain_next :: "time_ns \<Rightarrow> time_ns \<Rightarrow> gateway \<Rightarrow> drainer" where
  "drain_next deadline now gw =
     (case drain_poll deadline now (gw_in_flight gw) of None \<Rightarrow> Stopped | Some expiry \<Rightarrow> Polling deadline expiry)"

definition set_monitor :: "nat \<Rightarrow> health_monitor \<Rightarrow> gateway \<Rightarrow> gateway" where
  "set_monitor k m = update_backend k (\<lambda>b. b\<lparr>be_health := m\<rparr>)"

text \<open>The handlers; none runs after \<open>ioc.stop()\<close>, time does not go back, timers do not fire early.\<close>

inductive proc_step :: "lib \<Rightarrow> process \<Rightarrow> process \<Rightarrow> bool" for lib where
  listening: "ps_drainer P \<noteq> Stopped \<Longrightarrow> ps_listener P = LSpawned \<Longrightarrow>
     proc_step lib P (P\<lparr>ps_listener := listener_begin bound\<rparr>)"
| metrics_listening: "ps_drainer P \<noteq> Stopped \<Longrightarrow> ps_metrics P = LSpawned \<Longrightarrow>
     proc_step lib P (P\<lparr>ps_metrics := listener_begin bound\<rparr>)"
| accepts: "ps_drainer P \<noteq> Stopped \<Longrightarrow> ps_listener P = LOpen \<Longrightarrow>
     proc_step lib P (P\<lparr>ps_listener := listener_accepted r,
       ps_conns := ps_conns P @ (if r = AcceptOk then [(0, new_connection)] else [])\<rparr>)"
| scraped: "ps_drainer P \<noteq> Stopped \<Longrightarrow> ps_metrics P = LOpen \<Longrightarrow> run_metrics_session req (ps_gw P) = Some rep \<Longrightarrow>
     proc_step lib P (P\<lparr>ps_scrapes := ps_scrapes P @ [rep]\<rparr>)"
| hangs_up: "ps_drainer P \<noteq> Stopped \<Longrightarrow> ps_now P \<le> t \<Longrightarrow> i < length (ps_conns P) \<Longrightarrow> ps_conns P ! i = (k, c) \<Longrightarrow>
     cn_state c = Reading \<Longrightarrow> conn_read lib k t None (ps_gw P) c = (gw, g, c') \<Longrightarrow>
     proc_step lib P (P\<lparr>ps_now := t, ps_conns := (ps_conns P)[i := (k, c')]\<rparr>)"
| reads: "ps_drainer P \<noteq> Stopped \<Longrightarrow> ps_now P \<le> t \<Longrightarrow> i < length (ps_conns P) \<Longrightarrow> ps_conns P ! i = (k, c) \<Longrightarrow>
     cn_state c = Reading \<Longrightarrow> conn_read lib (ps_next P) t (Some req) (ps_gw P) c = (gw, g, c') \<Longrightarrow>
     proc_step lib P (P\<lparr>ps_gw := gw, ps_now := t, ps_next := Suc (ps_next P),
       ps_conns := map (grant_conn g) ((ps_conns P)[i := (ps_next P, c')])\<rparr>)"
| resumes: "ps_drainer P \<noteq> Stopped \<Longrightarrow> ps_now P \<le> t \<Longrightarrow> i < length (ps_conns P) \<Longrightarrow> ps_conns P ! i = (k, c) \<Longrightarrow>
     conn_resume lib k t wk (ps_gw P) c = Some (gw, g, c') \<Longrightarrow>
     proc_step lib P (P\<lparr>ps_gw := gw, ps_now := t,
       ps_conns := map (grant_conn g) ((ps_conns P)[i := (k, c')])\<rparr>)"
| monitored: "ps_drainer P \<noteq> Stopped \<Longrightarrow> k < length (gw_backends (ps_gw P)) \<Longrightarrow>
     monitor_resume ev (ps_monitors P ! k) (be_health (gw_backends (ps_gw P) ! k)) = Some (m, pc) \<Longrightarrow>
     proc_step lib P (P\<lparr>ps_gw := set_monitor k m (ps_gw P), ps_monitors := (ps_monitors P)[k := pc]\<rparr>)"
| signalled: "ps_drainer P = NoSignal \<Longrightarrow> ps_now P \<le> t \<Longrightarrow>
     proc_step lib P (P\<lparr>ps_gw := on_signal (ps_gw P), ps_now := t,
       ps_drainer := drain_next (drain_deadline t) t (on_signal (ps_gw P))\<rparr>)"
| polls: "ps_drainer P = Polling deadline expiry \<Longrightarrow> ps_now P \<le> t \<Longrightarrow> expiry \<le> t \<Longrightarrow>
     proc_step lib P (P\<lparr>ps_now := t, ps_drainer := drain_next deadline t (ps_gw P)\<rparr>)"

definition proc_start :: "process \<Rightarrow> bool" where
  "proc_start P \<longleftrightarrow>
     (\<exists>read_file parse is_aot make_address args cfg gw pt mpt out t.
        main_start read_file parse is_aot make_address args = Serve cfg gw pt mpt out \<and>
        length (cfg_backends cfg) < 2 ^ 64 \<and> P = new_process t gw)"

section \<open>The process drives the gateway\<close>

text \<open>
  Requests and connections correspond: a serving connection is where the request of its number is,
  no two serve the same request, and a request that no connection serves has ended.
\<close>

definition finished :: "session \<Rightarrow> bool" where
  "finished p \<longleftrightarrow> (\<exists>res out. p = Done res out)"

definition serves :: "(nat \<times> connection) list \<Rightarrow> nat \<Rightarrow> nat \<Rightarrow> session \<Rightarrow> bool" where
  "serves cs i k p \<longleftrightarrow> i < length cs \<and> fst (cs ! i) = k \<and> cn_state (snd (cs ! i)) = Serving p"

definition tracks :: "session list \<Rightarrow> (nat \<times> connection) list \<Rightarrow> bool" where
  "tracks ss cs \<longleftrightarrow>
     (\<forall>i k p. serves cs i k p \<longrightarrow> k < length ss \<and> ss ! k = p \<and> \<not> finished p) \<and>
     (\<forall>i j k p q. serves cs i k p \<longrightarrow> serves cs j k q \<longrightarrow> i = j) \<and>
     (\<forall>k < length ss. finished (ss ! k) \<or> (\<exists>i p. serves cs i k p))"

lemma tracks_serves:
  assumes "tracks ss cs" "serves cs i k p"
  shows "k < length ss" "ss ! k = p" "\<not> finished p" "serves cs j k q \<Longrightarrow> j = i"
  using assms unfolding tracks_def by blast+

lemma tracks_idle: "tracks ss cs \<Longrightarrow> k < length ss \<Longrightarrow> finished (ss ! k) \<or> (\<exists>i p. serves cs i k p)"
  unfolding tracks_def by blast

lemma finished_grant [simp]: "finished (grant_session p) = finished p"
  by (cases p) (simp_all add: finished_def)

lemma conn_after_state: "cn_state (conn_after p c) = Serving q \<longleftrightarrow> q = p \<and> \<not> finished p"
  by (cases p) (auto simp: conn_after_def finished_def)

lemma serves_update:
  "i < length cs \<Longrightarrow> serves (cs[i := (n, c)]) j k p \<longleftrightarrow>
     (if j = i then k = n \<and> cn_state c = Serving p else serves cs j k p)"
  by (auto simp: serves_def nth_list_update)

lemma serves_append: "serves (cs @ [(n, new_connection)]) j k p \<longleftrightarrow> serves cs j k p"
  by (auto simp: serves_def nth_append new_connection_def less_Suc_eq)

lemma serves_grant:
  "serves (map (grant_conn g) cs) i k p \<longleftrightarrow>
     (\<exists>q. serves cs i k q \<and> p = (if g = Some k then grant_session q else q))"
  by (cases "cn_state (snd (cs ! i))") (auto simp: serves_def grant_conn_def conn_granted_def split: if_splits)

lemma nth_grant: "k < length ss \<Longrightarrow> apply_grant g ss ! k = (if g = Some k then grant_session (ss ! k) else ss ! k)"
  by (cases g) (auto simp: nth_list_update)

lemma tracks_grant: "tracks ss cs \<Longrightarrow> tracks (apply_grant g ss) (map (grant_conn g) cs)"
  unfolding tracks_def serves_grant by (auto simp: nth_grant)

lemma tracks_accept: "tracks ss cs \<Longrightarrow> tracks ss (cs @ [(n, new_connection)])"
  by (simp add: tracks_def serves_append)

lemma tracks_close:
  assumes "tracks ss cs" "i < length cs" "cn_state (snd (cs ! i)) = Reading"
  shows "tracks ss (cs[i := (n, c\<lparr>cn_state := Closed\<rparr>)])"
proof -
  have "serves (cs[i := (n, c\<lparr>cn_state := Closed\<rparr>)]) j k p \<longleftrightarrow> serves cs j k p" for j k p
    using assms(2,3) by (auto simp: serves_update) (auto simp: serves_def)
  with assms(1) show ?thesis by (simp add: tracks_def)
qed

lemma tracks_arrive:
  assumes "tracks ss cs" "i < length cs" "cn_state (snd (cs ! i)) = Reading"
  shows "tracks (ss @ [p]) (cs[i := (length ss, conn_after p c)])"
proof -
  have no: "\<not> serves cs i k q" for k q using assms(3) by (simp add: serves_def)
  have new: "serves (cs[i := (length ss, conn_after p c)]) j k q \<longleftrightarrow>
      (if j = i then k = length ss \<and> q = p \<and> \<not> finished p else serves cs j k q)" for j k q
    using assms(2) by (simp add: serves_update conn_after_state)
  have old: "serves cs j k q \<Longrightarrow> k < length ss \<and> ss ! k = q \<and> \<not> finished q" for j k q
    using tracks_serves [OF assms(1)] by blast
  have "finished ((ss @ [p]) ! k) \<or> (\<exists>j q. serves (cs[i := (length ss, conn_after p c)]) j k q)"
    if "k < length (ss @ [p])" for k
    using that tracks_idle [OF assms(1), of k] no unfolding new
    by (cases "k = length ss") (auto simp: nth_append, metis)
  moreover have "k < length (ss @ [p]) \<and> (ss @ [p]) ! k = q \<and> \<not> finished q"
    if "serves (cs[i := (length ss, conn_after p c)]) j k q" for j k q
    using that old [of j k q] unfolding new by (auto simp: nth_append split: if_splits)
  moreover have "j = j'" if "serves (cs[i := (length ss, conn_after p c)]) j k q"
    "serves (cs[i := (length ss, conn_after p c)]) j' k q'" for j j' k q q'
    using that old [of j k q] old [of j' k q'] tracks_serves(4) [OF assms(1), of j k q j' q'] unfolding new
    by (auto split: if_splits)
  ultimately show ?thesis unfolding tracks_def by blast
qed

lemma tracks_resume:
  assumes "tracks ss cs" "i < length cs" "cs ! i = (k, c)" "cn_state c = Serving p"
  shows "tracks (ss[k := q]) (cs[i := (k, conn_after q c)])"
proof -
  let ?cs = "cs[i := (k, conn_after q c)]"
  have s: "serves cs i k p" using assms(2-4) by (simp add: serves_def)
  have new: "serves ?cs j n r \<longleftrightarrow> (if j = i then n = k \<and> r = q \<and> \<not> finished q else serves cs j n r)" for j n r
    using assms(2) by (simp add: serves_update conn_after_state)
  have other: "n \<noteq> k \<and> n < length ss \<and> ss ! n = r \<and> \<not> finished r" if "serves cs j n r" "j \<noteq> i" for j n r
    using that s tracks_serves [OF assms(1)] by blast
  have k: "k < length ss" by (rule tracks_serves(1) [OF assms(1) s])
  have "finished (ss[k := q] ! n) \<or> (\<exists>j r. serves ?cs j n r)" if "n < length (ss[k := q])" for n
  proof (cases "n = k")
    case True
    then show ?thesis using k unfolding new by auto
  next
    case False
    with that tracks_idle [OF assms(1), of n] s show ?thesis
      unfolding new by (metis length_list_update nth_list_update_neq serves_def)
  qed
  moreover have "n < length (ss[k := q]) \<and> ss[k := q] ! n = r \<and> \<not> finished r" if "serves ?cs j n r" for j n r
    using that other [of j n r] k unfolding new by (auto split: if_splits)
  moreover have "j = j'" if "serves ?cs j n r" "serves ?cs j' n r'" for j j' n r r'
    using that other [of j n r] other [of j' n r'] tracks_serves(4) [OF assms(1), of j n r j' r'] unfolding new
    by (auto split: if_splits)
  ultimately show ?thesis unfolding tracks_def by blast
qed

text \<open>The process and the gateway system in one state; the process's clock may be ahead.\<close>

definition drives :: "process \<Rightarrow> gw_sys \<Rightarrow> bool" where
  "drives P s \<longleftrightarrow> sys_gw s = ps_gw P \<and> sys_now s \<le> ps_now P \<and> length (sessions s) = ps_next P \<and>
     tracks (sessions s) (ps_conns P)"

lemma set_monitor_same: "set_monitor k (be_health (gw_backends gw ! k)) gw = gw"
  by (simp add: set_monitor_def update_backend_def)

lemma monitor_resume_health:
  "monitor_resume ev pc m = Some (m', pc') \<Longrightarrow> m' = m \<or> (\<exists>net. ev = MProbe net \<and> pc = MProbing \<and> m' = probe_once net m)"
  by (cases "(ev, pc, m)" rule: monitor_resume.cases) auto

lemma drives_reads:
  assumes "drives P s" "ps_now P \<le> t" "i < length (ps_conns P)" "ps_conns P ! i = (k, c)" "cn_state c = Reading"
    and "conn_read lib (ps_next P) t (Some req) (ps_gw P) c = (gw, g, c')"
  shows "\<exists>s'. gw_step lib s s' \<and> sys_gw s' = gw \<and> sys_now s' = t \<and> length (sessions s') = Suc (ps_next P) \<and>
    tracks (sessions s') (map (grant_conn g) ((ps_conns P)[i := (ps_next P, c')]))"
proof -
  obtain r keep where req: "req = (r, keep)" by (cases req)
  obtain p where h: "handle lib (ps_next P) t r keep (ps_gw P) = (gw, g, p)"
    and c': "c' = conn_after p (c\<lparr>cn_requests := cn_requests c + 1\<rparr>)"
    using assms(6) req by (auto simp: conn_read_def split: prod.splits)
  have d: "sys_gw s = ps_gw P" "length (sessions s) = ps_next P" "sys_now s \<le> t" "tracks (sessions s) (ps_conns P)"
    using assms(1,2) by (auto simp: drives_def)
  have "tracks (apply_grant g (sessions s @ [p])) (map (grant_conn g) ((ps_conns P)[i := (ps_next P, c')]))"
    using tracks_grant [OF tracks_arrive [OF d(4) assms(3)]] assms(4,5) d(2) c' by simp
  moreover have "gw_step lib s \<lparr>sys_gw = gw, sessions = apply_grant g (sessions s @ [p]), sys_now = t\<rparr>"
    using gw_step.arrive [OF d(3)] h d(1,2) by simp
  ultimately show ?thesis using d(2)
    by (intro exI [of _ "\<lparr>sys_gw = gw, sessions = apply_grant g (sessions s @ [p]), sys_now = t\<rparr>"]) simp
qed

lemma drives_resumes:
  assumes "drives P s" "ps_now P \<le> t" "i < length (ps_conns P)" "ps_conns P ! i = (k, c)"
    and "conn_resume lib k t wk (ps_gw P) c = Some (gw, g, c')"
  shows "\<exists>s'. gw_step lib s s' \<and> sys_gw s' = gw \<and> sys_now s' = t \<and> length (sessions s') = ps_next P \<and>
    tracks (sessions s') (map (grant_conn g) ((ps_conns P)[i := (k, c')]))"
proof -
  obtain p q where p: "cn_state c = Serving p" "resume lib k t wk p (ps_gw P) = Some (gw, g, q)" "c' = conn_after q c"
    using assms(5) by (auto simp: conn_resume_def split: conn_state.splits)
  have d: "sys_gw s = ps_gw P" "length (sessions s) = ps_next P" "sys_now s \<le> t" "tracks (sessions s) (ps_conns P)"
    using assms(1,2) by (auto simp: drives_def)
  have "serves (ps_conns P) i k p" using assms(3,4) p(1) by (simp add: serves_def)
  from tracks_serves [OF d(4) this] have k: "k < length (sessions s)" "sessions s ! k = p" by simp_all
  have "tracks (apply_grant g ((sessions s)[k := q])) (map (grant_conn g) ((ps_conns P)[i := (k, c')]))"
    using tracks_grant [OF tracks_resume [OF d(4) assms(3,4) p(1)]] p(3) by simp
  moreover have "gw_step lib s \<lparr>sys_gw = gw, sessions = apply_grant g ((sessions s)[k := q]), sys_now = t\<rparr>"
    using gw_step.wake [OF d(3) k(1)] k(2) p(2) d(1) by simp
  ultimately show ?thesis using d(2)
    by (intro exI [of _ "\<lparr>sys_gw = gw, sessions = apply_grant g ((sessions s)[k := q]), sys_now = t\<rparr>"]) simp
qed

text \<open>Every step of the process is a step of the gateway system or leaves it as it is.\<close>

lemma drives_step:
  assumes "drives P s" "proc_step lib P Q"
  shows "\<exists>s'. (gw_step lib s s' \<or> s' = s) \<and> drives Q s'"
  using assms(2)
proof cases
  case (accepts r)
  with assms(1) show ?thesis by (intro exI [of _ s]) (auto simp: drives_def tracks_accept)
next
  case (hangs_up t i k c gw g c')
  with assms(1) show ?thesis
    by (intro exI [of _ s]) (auto simp: drives_def conn_read_def tracks_close)
next
  case (reads t i k c req gw g c')
  from drives_reads [OF assms(1) reads(3-7)] reads(1) show ?thesis by (auto simp: drives_def)
next
  case (resumes t i k c wk gw g c')
  from drives_resumes [OF assms(1) resumes(3-6)] resumes(1) show ?thesis by (auto simp: drives_def)
next
  case (monitored k ev m pc)
  let ?m = "be_health (gw_backends (ps_gw P) ! k)"
  show ?thesis
  proof (cases "m = ?m")
    case True
    with monitored assms(1) show ?thesis by (intro exI [of _ s]) (auto simp: drives_def set_monitor_same)
  next
    case False
    with monitor_resume_health [OF monitored(4)] obtain net where "m = probe_once net ?m" by blast
    then have "set_monitor k m (ps_gw P) = update_backend k (\<lambda>b. b\<lparr>be_health := probe_once net (be_health b)\<rparr>) (ps_gw P)"
      by (simp add: set_monitor_def update_backend_def)
    moreover have "gw_step lib s (s\<lparr>sys_gw := update_backend k
        (\<lambda>b. b\<lparr>be_health := probe_once net (be_health b)\<rparr>) (sys_gw s)\<rparr>)"
      using monitored(3) assms(1) by (intro gw_step.probed) (simp add: drives_def)
    ultimately show ?thesis using assms(1) monitored(1)
      by (intro exI [of _ "s\<lparr>sys_gw := set_monitor k m (ps_gw P)\<rparr>"]) (simp add: drives_def)
  qed
next
  case (signalled t)
  have "gw_step lib s (s\<lparr>sys_gw := on_signal (sys_gw s)\<rparr>)" unfolding on_signal_def by (rule gw_step.drain)
  with signalled assms(1) show ?thesis
    by (intro exI [of _ "s\<lparr>sys_gw := on_signal (sys_gw s)\<rparr>"]) (auto simp: drives_def)
qed (use assms(1) in \<open>auto simp: drives_def\<close>)

lemma drives_new: "drives (new_process t gw) \<lparr>sys_gw = gw, sessions = [], sys_now = t\<rparr>"
  by (simp add: drives_def new_process_def tracks_def serves_def)

section \<open>Connections of the process\<close>

text \<open>Every connection keeps the invariant of the connection loop, under the number of its request.\<close>

definition framed :: "lib \<Rightarrow> config \<Rightarrow> process \<Rightarrow> bool" where
  "framed lib cfg P \<longleftrightarrow> (\<forall>kc \<in> set (ps_conns P). conn_inv lib cfg (fst kc) (snd kc))"

lemma conn_inv_reading: "cn_state c = Reading \<Longrightarrow> conn_inv lib cfg w c = conn_inv lib cfg w' c"
  by (simp add: conn_inv_def)

lemma conn_inv_grant: "conn_inv lib cfg (fst kc) (snd kc) \<Longrightarrow> conn_inv lib cfg (fst (grant_conn g kc)) (snd (grant_conn g kc))"
  using conn_step_inv [OF _ conn_step.granted] by (simp add: grant_conn_def)

lemma framed_update:
  assumes "framed lib cfg P" "i < length (ps_conns P)" "conn_inv lib cfg k c"
  shows "\<forall>kc \<in> set (map (grant_conn g) ((ps_conns P)[i := (k, c)])). conn_inv lib cfg (fst kc) (snd kc)"
  using assms set_update_subset_insert [of "ps_conns P" i "(k, c)"] unfolding framed_def
  by (auto intro!: conn_inv_grant)

lemma framed_step:
  assumes "framed lib cfg P" "configured cfg (ps_gw P)" "proc_step lib P Q"
  shows "framed lib cfg Q"
  using assms(3)
proof cases
  case (accepts r)
  with assms(1) show ?thesis by (auto simp: framed_def conn_inv_def new_connection_def)
next
  case (hangs_up t i k c gw g c')
  have "conn_inv lib cfg k c" using assms(1) hangs_up(4,5) unfolding framed_def by (metis fst_conv snd_conv nth_mem)
  from conn_step_inv [OF this conn_step.read [OF hangs_up(6) assms(2) hangs_up(7)]]
  have "conn_inv lib cfg k c'" .
  from framed_update [OF assms(1) hangs_up(4) this, of None] hangs_up(1) show ?thesis
    by (simp add: framed_def grant_conn_def)
next
  case (reads t i k c req gw g c')
  have "conn_inv lib cfg k c" using assms(1) reads(4,5) unfolding framed_def by (metis fst_conv snd_conv nth_mem)
  then have "conn_inv lib cfg (ps_next P) c" using conn_inv_reading [OF reads(6)] by blast
  from conn_step_inv [OF this conn_step.read [OF reads(6) assms(2) reads(7)]]
  have "conn_inv lib cfg (ps_next P) c'" .
  from framed_update [OF assms(1) reads(4) this, of g] reads(1) show ?thesis by (simp add: framed_def)
next
  case (resumes t i k c wk gw g c')
  have "conn_inv lib cfg k c" using assms(1) resumes(4,5) unfolding framed_def by (metis fst_conv snd_conv nth_mem)
  from conn_step_inv [OF this conn_step.resumed [OF assms(2) resumes(6)]]
  have "conn_inv lib cfg k c'" .
  from framed_update [OF assms(1) resumes(4) this, of g] resumes(1) show ?thesis by (simp add: framed_def)
qed (use assms(1) in \<open>simp_all add: framed_def\<close>)

section \<open>The invariant of the process\<close>

definition driven :: "lib \<Rightarrow> config \<Rightarrow> process \<Rightarrow> bool" where
  "driven lib cfg P \<longleftrightarrow>
     (\<exists>s0 s. gw_start s0 \<and> gw_cfg (sys_gw s0) = cfg \<and> rtranclp (gw_step lib) s0 s \<and> drives P s)"

lemma driven_configured: "driven lib cfg P \<Longrightarrow> configured cfg (ps_gw P)"
  unfolding driven_def drives_def using reachable_runs unfolding all_runs_def by metis

lemma driven_step: "driven lib cfg P \<Longrightarrow> proc_step lib P Q \<Longrightarrow> driven lib cfg Q"
  unfolding driven_def by (metis drives_step rtranclp.rtrancl_into_rtrancl)

lemma driven_start: "proc_start P \<Longrightarrow> driven lib (gw_cfg (ps_gw P)) P"
  unfolding proc_start_def driven_def using main_serve drives_new
  by (metis (no_types, lifting) drives_def rtranclp.rtrancl_refl)

interpretation running_process: step_invariant "\<lambda>P. proc_start P \<and> gw_cfg (ps_gw P) = cfg" "proc_step lib"
  "\<lambda>P. driven lib cfg P \<and> framed lib cfg P" for lib cfg
proof unfold_locales
  show "driven lib cfg P \<and> framed lib cfg P" if "proc_start P \<and> gw_cfg (ps_gw P) = cfg" for P
    using that driven_start [of P lib] by (auto simp: framed_def proc_start_def new_process_def)
  show "driven lib cfg Q \<and> framed lib cfg Q" if "driven lib cfg P \<and> framed lib cfg P" "proc_step lib P Q" for P Q
    using that driven_step framed_step driven_configured by blast
qed

lemma process_inv:
  assumes "proc_start P0" "rtranclp (proc_step lib) P0 P"
  shows "driven lib (gw_cfg (ps_gw P0)) P" "framed lib (gw_cfg (ps_gw P0)) P"
  using running_process.reachable_inv [of P0 "gw_cfg (ps_gw P0)" lib P] assms by simp_all

text \<open>The suspended handlers of the process, one per serving connection.\<close>

definition is_serving :: "nat \<times> connection \<Rightarrow> bool" where
  "is_serving kc = (case cn_state (snd kc) of Serving p \<Rightarrow> True | _ \<Rightarrow> False)"

definition frame_of :: "nat \<times> connection \<Rightarrow> session" where
  "frame_of kc = (case cn_state (snd kc) of Serving p \<Rightarrow> p | _ \<Rightarrow> Done (Inr False) [])"

definition frames :: "process \<Rightarrow> session list" where
  "frames P = map frame_of (filter is_serving (ps_conns P))"

lemma serves_frame: "serves cs i k p \<longleftrightarrow> i < length cs \<and> fst (cs ! i) = k \<and> is_serving (cs ! i) \<and> p = frame_of (cs ! i)"
  by (auto simp: serves_def is_serving_def frame_of_def split: conn_state.splits)

lemma in_frames: "p \<in> set (frames P) \<longleftrightarrow> (\<exists>i k. serves (ps_conns P) i k p)"
  by (auto simp: frames_def serves_frame in_set_conv_nth)

lemma mset_filter_nth: "filter_mset f (mset xs) = image_mset (\<lambda>i. xs ! i) (mset_set {i. i < length xs \<and> f (xs ! i)})"
proof -
  have "mset (filter f xs) = mset (map (\<lambda>i. xs ! i) (filter (\<lambda>i. f (xs ! i)) [0..<length xs]))"
    by (metis (no_types, lifting) filter_map map_nth comp_apply filter_cong)
  also have "\<dots> = image_mset (\<lambda>i. xs ! i) (mset_set (set (filter (\<lambda>i. f (xs ! i)) [0..<length xs])))"
    by (simp add: mset_set_set)
  also have "set (filter (\<lambda>i. f (xs ! i)) [0..<length xs]) = {i. i < length xs \<and> f (xs ! i)}" by auto
  finally show ?thesis by simp
qed

lemma frames_sessions:
  assumes "tracks ss (ps_conns P)"
  shows "mset (frames P) = filter_mset (\<lambda>p. \<not> finished p) (mset ss)"
proof -
  let ?cs = "ps_conns P"
  let ?A = "{i. i < length ?cs \<and> is_serving (?cs ! i)}" and ?B = "{k. k < length ss \<and> \<not> finished (ss ! k)}"
  have A: "serves ?cs i (fst (?cs ! i)) (frame_of (?cs ! i)) \<longleftrightarrow> i \<in> ?A" for i by (simp add: serves_frame)
  have at: "frame_of (?cs ! i) = ss ! fst (?cs ! i) \<and> fst (?cs ! i) \<in> ?B" if "i \<in> ?A" for i
    using tracks_serves(1-3) [OF assms iffD2 [OF A that]] by simp
  have inj: "inj_on (\<lambda>i. fst (?cs ! i)) ?A"
    using tracks_serves(4) [OF assms] A unfolding inj_on_def by metis
  have "k \<in> (\<lambda>i. fst (?cs ! i)) ` ?A" if "k \<in> ?B" for k
    using tracks_idle [OF assms, of k] that by (auto simp: serves_frame)
  with at have img: "(\<lambda>i. fst (?cs ! i)) ` ?A = ?B" by blast
  have "mset (frames P) = image_mset (\<lambda>i. frame_of (?cs ! i)) (mset_set ?A)"
    by (simp add: frames_def mset_filter_nth image_mset.compositionality comp_def)
  also have "\<dots> = image_mset (\<lambda>i. ss ! fst (?cs ! i)) (mset_set ?A)"
    by (rule image_mset_cong) (use at in auto)
  also have "\<dots> = image_mset (\<lambda>k. ss ! k) (image_mset (\<lambda>i. fst (?cs ! i)) (mset_set ?A))"
    by (simp add: image_mset.compositionality comp_def)
  also have "\<dots> = image_mset (\<lambda>k. ss ! k) (mset_set ?B)" by (simp only: image_mset_mset_set [OF inj] img)
  finally show ?thesis by (simp add: mset_filter_nth)
qed

lemma count_frames:
  assumes "tracks ss (ps_conns P)" "\<And>p. f p \<Longrightarrow> \<not> finished p"
  shows "length (filter f ss) = length (filter f (frames P))"
proof -
  have "mset (filter f (frames P)) = filter_mset f (filter_mset (\<lambda>p. \<not> finished p) (mset ss))"
    by (simp only: mset_filter frames_sessions [OF assms(1)])
  also have "\<dots> = filter_mset (\<lambda>p. \<not> finished p \<and> f p) (mset ss)" by (simp add: filter_filter_mset conj_commute)
  also have "\<dots> = mset (filter f ss)" unfolding mset_filter by (rule filter_mset_cong) (use assms(2) in auto)
  finally show ?thesis by (metis size_mset)
qed

lemma settled_frames:
  assumes "tracks ss (ps_conns P)" "settled gw ss"
  shows "settled gw (frames P)"
proof -
  have n: "holds_slot k p \<Longrightarrow> \<not> finished p" "holds_ticket p \<Longrightarrow> \<not> finished p" "in_chat p \<Longrightarrow> \<not> finished p" for k p
    by (auto simp: holds_slot_def holds_ticket_def in_chat_def finished_def)
  have slots: "length (filter (holds_slot k) ss) = length (filter (holds_slot k) (frames P))" for k
    by (rule count_frames [OF assms(1) n(1)])
  have rest: "length (filter holds_ticket ss) = length (filter holds_ticket (frames P))"
    "length (filter in_chat ss) = length (filter in_chat (frames P))"
    by (rule count_frames [OF assms(1) n(2)] count_frames [OF assms(1) n(3)]; assumption)+
  show ?thesis using assms(2) unfolding settled_def slots rest .
qed

lemma driven_settled: "driven lib cfg P \<Longrightarrow> settled (ps_gw P) (frames P)"
  unfolding driven_def drives_def
  using settled_frames sys_inv_settled gateway_sys.reachable_inv by metis

section \<open>A process on the narrow configuration\<close>

text \<open>
  It opens its listener, accepts a connection and reads a chat request, which is admitted and finds
  no backend; the reply is under way.
\<close>

definition narrow_process :: process where
  "narrow_process = new_process 0 narrow_gateway"

lemma narrow_main:
  "main_start (\<lambda>_. Some ''toml'') (\<lambda>_ _. Inr (config_doc example_pos narrow_config)) nonempty_tables
     (\<lambda>_. Inr ()) [''-c'', ''kvmux.toml''] =
   Serve narrow_config narrow_gateway 8080 9090 (banner ''kvmux.toml'' narrow_config)"
proof -
  have ports: "sc_port (cfg_server narrow_config) = 8080" "cfg_metrics_port narrow_config = 9090"
    by (simp_all add: narrow_config_def example_config_def default_config_def default_server_def)
  have ok: "config_ok narrow_config"
    using example_config_ok by (simp add: config_ok_def narrow_config_def server_ok_def)
  have "nonempty_tables (TArray p (map (backend_doc p) (cfg_backends narrow_config)))" for p
    using example_is_tables by (simp add: narrow_config_def)
  with ports ok show ?thesis
    by (simp add: main_start_def load_file_def load_string_def validate_config_doc narrow_new)
qed

lemma narrow_process_start: "proc_start narrow_process"
  unfolding proc_start_def narrow_process_def using narrow_main
  by (intro exI conjI; assumption?) (simp_all add: narrow_config_def example_config_def)

lemma narrow_process_run:
  obtains P ctx where "rtranclp (proc_step retry_lib) narrow_process P" "ps_drainer P = NoSignal" "ps_now P = 0"
    "frames P = [ChatReply ctx unavailable]" "cx_ticket ctx" "cx_slot ctx = None" "cx_code ctx = 503"
    "serves (ps_conns P) 0 0 (ChatReply ctx unavailable)" "length (ps_conns P) = 1"
proof -
  obtain gw ctx where h: "handle retry_lib 0 0 chat_post True narrow_gateway = (gw, None, ChatReply ctx unavailable)"
    "plain_ctx ctx" "cx_ticket ctx" "cx_code ctx = 503" by (rule narrow_first)
  let ?P1 = "narrow_process\<lparr>ps_listener := LOpen\<rparr>"
  let ?P2 = "?P1\<lparr>ps_conns := [(0, new_connection)]\<rparr>"
  let ?c = "new_connection\<lparr>cn_requests := 1, cn_state := Serving (ChatReply ctx unavailable)\<rparr>"
  let ?P3 = "?P2\<lparr>ps_gw := gw, ps_next := 1, ps_conns := [(0, ?c)]\<rparr>"
  have "proc_step retry_lib narrow_process ?P1"
    using proc_step.listening [of narrow_process retry_lib True]
    by (simp add: narrow_process_def new_process_def listener_begin_def)
  moreover have "proc_step retry_lib ?P1 ?P2"
    using proc_step.accepts [of ?P1 retry_lib AcceptOk]
    by (simp add: narrow_process_def new_process_def listener_accepted_def)
  moreover have "proc_step retry_lib ?P2 ?P3"
    using proc_step.reads [of ?P2 0 0 0 new_connection retry_lib "(chat_post, True)" gw None ?c] h(1)
    by (simp add: narrow_process_def new_process_def conn_read_def conn_after_def new_connection_def grant_conn_def)
  ultimately have "rtranclp (proc_step retry_lib) narrow_process ?P3"
    by (meson rtranclp.rtrancl_into_rtrancl rtranclp.rtrancl_refl)
  then show ?thesis
    by (rule that) (use h in \<open>simp_all add: narrow_process_def new_process_def frames_def is_serving_def
        frame_of_def plain_ctx_def serves_def\<close>)
qed

section \<open>Properties\<close>

text \<open>
  C4: The process is the gateway system.  Whatever its listeners accept, its connections read and write,
  its monitors probe and its signal handler does, in any order, the gateway of a process started by
  \<open>main\<close> is in a state of the gateway system of the same configuration; each serving connection is
  where its request is in that system, no two serve the same request, and every other request has
  ended.
\<close>

theorem process_refines_gateway:
  assumes "proc_start P0" "rtranclp (proc_step lib) P0 P"
  shows "\<exists>s0 s. gw_start s0 \<and> gw_cfg (sys_gw s0) = gw_cfg (ps_gw P0) \<and> rtranclp (gw_step lib) s0 s \<and>
    sys_gw s = ps_gw P \<and>
    (\<forall>i k p. serves (ps_conns P) i k p \<longrightarrow> k < length (sessions s) \<and> sessions s ! k = p) \<and>
    (\<forall>i j k p q. serves (ps_conns P) i k p \<longrightarrow> serves (ps_conns P) j k q \<longrightarrow> i = j) \<and>
    (\<forall>k < length (sessions s). finished (sessions s ! k) \<or> (\<exists>i p. serves (ps_conns P) i k p))"
  using process_inv(1) [OF assms] unfolding driven_def drives_def tracks_def by blast

theorem process_refines_gateway_witness:
  "\<exists>(P :: process) (s0 :: gw_sys) (s :: gw_sys) i k p. gw_start s0 \<and> rtranclp (gw_step retry_lib) s0 s \<and> sys_gw s = ps_gw P \<and>
     serves (ps_conns P) i k p \<and> k < length (sessions s) \<and> sessions s ! k = p \<and> in_chat p"
proof -
  obtain P ctx where r: "rtranclp (proc_step retry_lib) narrow_process P"
    "serves (ps_conns P) 0 0 (ChatReply ctx unavailable)" by (rule narrow_process_run) (rule that; assumption)
  have "in_chat (ChatReply ctx unavailable)" by (simp add: in_chat_def ctx_view_def)
  with process_refines_gateway [OF narrow_process_start r(1)] r(2) show ?thesis by blast
qed

text \<open>
  C3: Every connection of the process, at every moment of every run, has been sent a sequence of complete
  keep-alive responses and then at most one that is under way or broken off, one response per
  request read; and the connection reads only when every earlier request has its complete response.
\<close>

theorem process_framed:
  assumes "proc_start P0" "rtranclp (proc_step lib) P0 P" "i < length (ps_conns P)"
  shows "\<exists>rs tl. conn_sent (snd (ps_conns P ! i)) = concat rs @ tl \<and> (\<forall>r \<in> set rs. complete_response True r) \<and>
    partial_response tl \<and> length rs \<le> cn_requests (snd (ps_conns P ! i)) \<and>
    cn_requests (snd (ps_conns P ! i)) \<le> length rs + 1 \<and>
    (cn_state (snd (ps_conns P ! i)) = Reading \<longrightarrow> tl = [] \<and> length rs = cn_requests (snd (ps_conns P ! i)))"
  using process_inv(2) [OF assms(1,2)] assms(3) conn_inv_framed unfolding framed_def by (metis nth_mem)

theorem process_framed_witness:
  "\<exists>(P :: process) rs tl. length (ps_conns P) = 1 \<and> cn_requests (snd (ps_conns P ! 0)) \<le> length rs + 1 \<and>
     conn_sent (snd (ps_conns P ! 0)) = concat rs @ tl \<and> (\<forall>r \<in> set rs. complete_response True r) \<and>
     partial_response tl \<and> serves (ps_conns P) 0 0 (frames P ! 0)"
proof -
  obtain P ctx where r: "rtranclp (proc_step retry_lib) narrow_process P" "frames P = [ChatReply ctx unavailable]"
    "serves (ps_conns P) 0 0 (ChatReply ctx unavailable)" "length (ps_conns P) = 1"
    by (rule narrow_process_run) (rule that; assumption)
  have "0 < length (ps_conns P)" using r(4) by simp
  from process_framed [OF narrow_process_start r(1) this] obtain rs tl where
    "cn_requests (snd (ps_conns P ! 0)) \<le> length rs + 1" "conn_sent (snd (ps_conns P ! 0)) = concat rs @ tl"
    "\<forall>r \<in> set rs. complete_response True r" "partial_response tl" by blast
  with r show ?thesis by (intro exI [of _ P] exI [of _ rs] exI [of _ tl]) simp
qed

end
