(* ===== verification/Process_Exit.thy ===== *)
theory Process_Exit
  imports Process
begin

text \<open>
  The end of the process (\<^verbatim>\<open>src/main.cpp\<close>): the drain poller stops the io_context in time, and what the
  destructors at the end of \<open>main\<close>'s scope do with the handlers that are still suspended.
\<close>

section \<open>Leaving the scope of \<open>main\<close>\<close>

text \<open>
  The objects of the scope in the order of their declaration.  They are destroyed in the reverse
  order; the destructor of the io_context destroys the coroutines that are still suspended, and
  with them the locals of the handlers.
\<close>

datatype scope_object = IoContext | GatewayObject | SignalSet

definition main_scope :: "scope_object list" where
  "main_scope = [IoContext, GatewayObject, SignalSet]"

text \<open>
  What the locals of a suspended handler do to the gateway when they are destroyed: the
  \<open>BackendSlot\<close> and the \<open>Ticket\<close> release what they hold, the \<open>TerminalRecorder\<close> writes to the
  registry if the response has its code.
\<close>

datatype gateway_access = ReleasesSlot nat | ReleasesTicket | RecordsTerminal

definition ctx_dtors :: "chat_ctx \<Rightarrow> gateway_access list" where
  "ctx_dtors ctx =
     (case cx_slot ctx of None \<Rightarrow> [] | Some k \<Rightarrow> [ReleasesSlot k]) @
     (if cx_ticket ctx then [ReleasesTicket] else []) @ (if cx_code ctx \<noteq> 0 then [RecordsTerminal] else [])"

fun frame_dtors :: "session \<Rightarrow> gateway_access list" where
  "frame_dtors (PlainReply out keep) = []"
| "frame_dtors (ChatWait ctx granted a b) = ctx_dtors ctx"
| "frame_dtors (ChatUnary ctx) = ctx_dtors ctx"
| "frame_dtors (ChatStream ctx fs) = ctx_dtors ctx"
| "frame_dtors (ChatReply ctx out) = ctx_dtors ctx"
| "frame_dtors (ChatEnd ctx fs plan) = ctx_dtors ctx"
| "frame_dtors (Done res sent) = []"

datatype teardown_event = GatewayDestroyed | Accessed gateway_access

fun destroy_object :: "session list \<Rightarrow> scope_object \<Rightarrow> teardown_event list" where
  "destroy_object fs IoContext = map Accessed (concat (map frame_dtors fs))"
| "destroy_object fs GatewayObject = [GatewayDestroyed]"
| "destroy_object fs SignalSet = []"

definition main_teardown :: "process \<Rightarrow> teardown_event list" where
  "main_teardown P = concat (map (destroy_object (frames P)) (rev main_scope))"

text \<open>An access to the gateway after it is gone.\<close>

definition use_after_destroy :: "teardown_event list \<Rightarrow> bool" where
  "use_after_destroy evs \<longleftrightarrow> (\<exists>a. Accessed a \<in> set (dropWhile (\<lambda>e. e \<noteq> GatewayDestroyed) evs))"

section \<open>The drain in time\<close>

text \<open>A run with the time of the signal and the number of polls made since.\<close>

inductive drain_log :: "lib \<Rightarrow> process \<Rightarrow> time_ns option \<Rightarrow> nat \<Rightarrow> bool" for lib where
  started: "proc_start P \<Longrightarrow> drain_log lib P None 0"
| unpolled: "drain_log lib P st n \<Longrightarrow> proc_step lib P Q \<Longrightarrow> ps_drainer Q = ps_drainer P \<Longrightarrow> drain_log lib Q st n"
| signal: "drain_log lib P st n \<Longrightarrow> proc_step lib P Q \<Longrightarrow> ps_drainer P = NoSignal \<Longrightarrow> ps_drainer Q \<noteq> NoSignal \<Longrightarrow>
     drain_log lib Q (Some (ps_now Q)) (Suc n)"
| poll: "drain_log lib P st n \<Longrightarrow> proc_step lib P Q \<Longrightarrow> ps_drainer P \<noteq> NoSignal \<Longrightarrow> ps_drainer Q \<noteq> ps_drainer P \<Longrightarrow>
     drain_log lib Q st (Suc n)"

lemma drain_log_reaches: "drain_log lib P st n \<Longrightarrow> \<exists>P0. proc_start P0 \<and> rtranclp (proc_step lib) P0 P"
  by (induction rule: drain_log.induct) (meson rtranclp.rtrancl_into_rtrancl rtranclp.rtrancl_refl)+

lemma drain_log_step:
  assumes "drain_log lib P st n" "proc_step lib P Q"
  shows "\<exists>st n. drain_log lib Q st n"
proof (cases "ps_drainer Q = ps_drainer P")
  case True
  then show ?thesis using drain_log.unpolled [OF assms] by blast
next
  case False
  then show ?thesis using drain_log.signal [OF assms] drain_log.poll [OF assms] by (cases "ps_drainer P = NoSignal") auto
qed

lemma reaches_drain_log: "rtranclp (proc_step lib) P0 P \<Longrightarrow> proc_start P0 \<Longrightarrow> \<exists>st n. drain_log lib P st n"
  by (induction rule: rtranclp_induct) (auto intro: drain_log.started dest: drain_log_step)

lemma stopped_final: "proc_step lib P Q \<Longrightarrow> ps_drainer P \<noteq> Stopped"
  by (induction rule: proc_step.induct) auto

text \<open>A step either leaves the poller alone, starts it, or is a poll.\<close>

lemma drainer_step:
  assumes "proc_step lib P Q" "ps_drainer Q \<noteq> ps_drainer P"
  shows "ps_drainer P = NoSignal \<and> gw_draining (ps_gw Q) \<and>
      ps_drainer Q = drain_next (drain_deadline (ps_now Q)) (ps_now Q) (ps_gw Q) \<or>
    (\<exists>deadline expiry. ps_drainer P = Polling deadline expiry \<and> ps_gw Q = ps_gw P \<and> expiry \<le> ps_now Q \<and>
       ps_drainer Q = drain_next deadline (ps_now Q) (ps_gw Q))"
  using assms
  by (induction rule: proc_step.induct)
     (auto simp: on_signal_def begin_drain_def stop_health_monitors_def)

lemma draining_step:
  assumes "proc_start P0" "rtranclp (proc_step lib) P0 P" "proc_step lib P Q" "gw_draining (ps_gw P)"
  shows "gw_draining (ps_gw Q)"
proof -
  obtain s where s: "drives P s" using process_inv(1) [OF assms(1,2)] by (auto simp: driven_def)
  obtain s' where s': "gw_step lib s s' \<or> s' = s" "drives Q s'" using drives_step [OF s assms(3)] by blast
  with s assms(4) drain_step [of s lib s'] show ?thesis by (auto simp: drives_def)
qed

definition poll_inv :: "process \<Rightarrow> time_ns option \<Rightarrow> nat \<Rightarrow> bool" where
  "poll_inv P st n \<longleftrightarrow>
     (case ps_drainer P of
        NoSignal \<Rightarrow> st = None \<and> n = 0
      | Polling deadline expiry \<Rightarrow> (\<exists>t0. st = Some t0 \<and> deadline = drain_deadline t0 \<and>
          t0 + int n * 100000000 \<le> expiry \<and> expiry < deadline + 100000000)
      | Stopped \<Rightarrow> (\<exists>t0. st = Some t0 \<and> 1 \<le> n \<and> n \<le> 301 \<and>
          (gw_in_flight (ps_gw P) = 0 \<or> drain_deadline t0 \<le> ps_now P)))"

lemma poll_inv_next:
  assumes "ps_drainer Q = drain_next (drain_deadline t0) (ps_now Q) (ps_gw Q)"
    and "t0 + int n * 100000000 \<le> ps_now Q" "n \<le> 300"
  shows "poll_inv Q (Some t0) (Suc n)"
  using assms
  by (auto simp: poll_inv_def drain_next_def drain_poll_def drain_deadline_def algebra_simps split: option.splits if_splits)

lemma drain_log_inv:
  "drain_log lib P st n \<Longrightarrow> poll_inv P st n \<and> (ps_drainer P \<noteq> NoSignal \<longrightarrow> gw_draining (ps_gw P))"
proof (induction rule: drain_log.induct)
  case (started P)
  then show ?case by (auto simp: proc_start_def new_process_def poll_inv_def)
next
  case (unpolled P st n Q)
  obtain P0 where "proc_start P0" "rtranclp (proc_step lib) P0 P" using drain_log_reaches [OF unpolled(1)] by blast
  from draining_step [OF this unpolled(2)] stopped_final [OF unpolled(2)] unpolled show ?case
    by (auto simp: poll_inv_def split: drainer.splits)
next
  case (signal P st n Q)
  from drainer_step [OF signal(2)] signal(3,4) have
    q: "gw_draining (ps_gw Q)" "ps_drainer Q = drain_next (drain_deadline (ps_now Q)) (ps_now Q) (ps_gw Q)" by auto
  have "n = 0" using signal(3,5) by (simp add: poll_inv_def)
  with poll_inv_next [OF q(2), of 0] q(1) show ?case by simp
next
  case (poll P st n Q)
  obtain P0 where "proc_start P0" "rtranclp (proc_step lib) P0 P" using drain_log_reaches [OF poll(1)] by blast
  from draining_step [OF this poll(2)] poll(3,5) have d: "gw_draining (ps_gw Q)" by blast
  from drainer_step [OF poll(2,4)] poll(3) obtain deadline expiry where
    p: "ps_drainer P = Polling deadline expiry" "expiry \<le> ps_now Q" "ps_drainer Q = drain_next deadline (ps_now Q) (ps_gw Q)"
    by auto
  then obtain t0 where t0: "st = Some t0" "deadline = drain_deadline t0" "t0 + int n * 100000000 \<le> expiry"
    "expiry < deadline + 100000000" using poll(5) by (auto simp: poll_inv_def)
  then have "n \<le> 300" by (simp add: drain_deadline_def)
  with poll_inv_next [of Q t0 n] p t0 d show ?case by simp
qed

section \<open>The destructors\<close>

text \<open>The slot and the ticket of a handler are the owner objects of \<open>Raii\<close>; leaving the handler resets them.\<close>

lemma drop_slot_resets:
  assumes "j < length (gw_backends gw)"
  shows "be_limiter (gw_backends (drop_slot ctx gw) ! j) =
    snd (slot_reset 0 ([cx_slot ctx], \<lambda>i. be_limiter (gw_backends gw ! i))) j"
  using assms
  by (cases "cx_slot ctx")
     (auto simp: drop_slot_def slot_reset_def holder_reset_def slot_release_def update_limiter_def
        update_backend_def nth_list_update)

lemma drop_ticket_resets:
  "drop_ticket ctx gw = (gw', w) \<Longrightarrow>
   snd (ticket_reset 0 ([if cx_ticket ctx then Some () else None], (gw_gate gw, []))) =
     (gw_gate gw', case w of None \<Rightarrow> [] | Some v \<Rightarrow> [v])"
  by (auto simp: drop_ticket_def ticket_reset_def holder_reset_def ticket_release_def split: if_splits prod.splits)

lemma teardown_order: "main_teardown P = GatewayDestroyed # map Accessed (concat (map frame_dtors (frames P)))"
  by (simp add: main_teardown_def main_scope_def)

lemma teardown_uses: "use_after_destroy (main_teardown P) \<longleftrightarrow> (\<exists>p \<in> set (frames P). frame_dtors p \<noteq> [])"
proof -
  have "use_after_destroy (main_teardown P) \<longleftrightarrow> (\<exists>a. a \<in> set (concat (map frame_dtors (frames P))))"
    by (auto simp: teardown_order use_after_destroy_def)
  also have "\<dots> \<longleftrightarrow> concat (map frame_dtors (frames P)) \<noteq> []" by (metis ex_in_conv set_empty)
  finally show ?thesis by simp
qed

lemma idle_dtors: "\<not> in_chat p \<Longrightarrow> frame_dtors p = []"
  by (cases p) (simp_all add: in_chat_def ctx_view_def)

section \<open>Properties\<close>

text \<open>
  C20: The process ends in time.  At most 301 polls follow a signal.  If the io_context was stopped, nothing
  runs any more and either no request was in flight or the 30 seconds were over.  Until then the
  gateway is draining, the poller's timer never expires later than a tenth of a second after the
  deadline, and a poll from then on stops the process.
\<close>

theorem process_stops:
  assumes "drain_log lib P st n"
  shows "n \<le> 301 \<and>
    (ps_drainer P = Stopped \<longrightarrow> (\<forall>Q. \<not> proc_step lib P Q) \<and>
       (\<exists>t0. st = Some t0 \<and> (gw_in_flight (ps_gw P) = 0 \<or> drain_deadline t0 \<le> ps_now P))) \<and>
    (\<forall>deadline expiry. ps_drainer P = Polling deadline expiry \<longrightarrow>
       gw_draining (ps_gw P) \<and> st = Some (deadline - 30 * 1000000000) \<and> expiry < deadline + 100000000 \<and>
       (\<forall>t. ps_now P \<le> t \<longrightarrow> deadline + 100000000 \<le> t \<longrightarrow>
          (\<exists>Q. proc_step lib P Q \<and> ps_now Q = t \<and> ps_drainer Q = Stopped)))"
proof -
  note inv = drain_log_inv [OF assms, unfolded poll_inv_def]
  show ?thesis
  proof (cases "ps_drainer P")
    case NoSignal
    with inv show ?thesis by simp
  next
    case Stopped
    with inv stopped_final [of lib P] show ?thesis by auto
  next
    case (Polling deadline expiry)
    then obtain t0 where t0: "st = Some t0" "deadline = drain_deadline t0" "t0 + int n * 100000000 \<le> expiry"
      "expiry < deadline + 100000000" "gw_draining (ps_gw P)" using inv by auto
    have "proc_step lib P (P\<lparr>ps_now := t, ps_drainer := Stopped\<rparr>)" if "ps_now P \<le> t" "deadline + 100000000 \<le> t" for t
      using proc_step.polls [OF Polling that(1), of lib] that(2) t0(4) by (simp add: drain_next_def drain_poll_def)
    then have "\<exists>Q. proc_step lib P Q \<and> ps_now Q = t \<and> ps_drainer Q = Stopped"
      if "ps_now P \<le> t" "deadline + 100000000 \<le> t" for t
      using that by (intro exI [of _ "P\<lparr>ps_now := t, ps_drainer := Stopped\<rparr>"]) simp
    moreover have "n \<le> 301" "st = Some (deadline - 30 * 1000000000)" using t0(1-4) by (simp_all add: drain_deadline_def)
    ultimately show ?thesis using Polling t0(4,5) by simp
  qed
qed

text \<open>
  C29: The gateway dies before the handlers that use it.  \<open>main\<close> declares the gateway after the io_context,
  so it is destroyed first, and the coroutines that are still suspended are destroyed after it.  When
  the process has stopped because no request was in flight, no destructor touches the destroyed
  gateway; when it stopped at its deadline, every handler that still holds a backend slot or a
  ticket, or has the code of its response, releases or records into freed memory.
\<close>

theorem exit_uses_destroyed_gateway:
  assumes "proc_start P0" "rtranclp (proc_step lib) P0 P" "ps_drainer P = Stopped"
  shows "(use_after_destroy (main_teardown P) \<longleftrightarrow> (\<exists>p \<in> set (frames P). frame_dtors p \<noteq> [])) \<and>
    (gw_in_flight (ps_gw P) = 0 \<longrightarrow> \<not> use_after_destroy (main_teardown P))"
proof -
  have "settled (ps_gw P) (frames P)" by (rule driven_settled [OF process_inv(1) [OF assms(1,2)]])
  then have "gw_in_flight (ps_gw P) = 0 \<longleftrightarrow> (\<forall>p \<in> set (frames P). \<not> in_chat p)"
    by (simp add: settled_def filter_empty_conv)
  then show ?thesis using teardown_uses [of P] idle_dtors by blast
qed

section \<open>A request that outlives the drain\<close>

lemma narrow_exit:
  obtains P Q ctx where "rtranclp (proc_step retry_lib) narrow_process P" "ps_drainer P = Polling 30000000000 100000000"
    "proc_step retry_lib P Q" "ps_drainer Q = Stopped" "frames Q = [ChatReply ctx unavailable]"
    "cx_ticket ctx" "cx_slot ctx = None" "cx_code ctx = 503" "ps_now P = 0" "ps_now Q = 30000000000"
proof -
  obtain P ctx where r: "rtranclp (proc_step retry_lib) narrow_process P" "ps_drainer P = NoSignal" "ps_now P = 0"
    "frames P = [ChatReply ctx unavailable]" "cx_ticket ctx" "cx_slot ctx = None" "cx_code ctx = 503"
    by (rule narrow_process_run) (rule that; assumption)
  have "settled (ps_gw P) (frames P)" by (rule driven_settled [OF process_inv(1) [OF narrow_process_start r(1)]])
  then have f: "gw_in_flight (on_signal (ps_gw P)) = 1"
    by (simp add: settled_def r(4) in_chat_def ctx_view_def on_signal_def begin_drain_def stop_health_monitors_def)
  let ?P1 = "P\<lparr>ps_gw := on_signal (ps_gw P), ps_now := 0, ps_drainer := Polling 30000000000 100000000\<rparr>"
  let ?P2 = "?P1\<lparr>ps_now := 30000000000, ps_drainer := Stopped\<rparr>"
  have "proc_step retry_lib P ?P1"
    using proc_step.signalled [OF r(2), of 0 retry_lib] r(3) f by (simp add: drain_next_def drain_poll_def drain_deadline_def)
  with r(1) have p1: "rtranclp (proc_step retry_lib) narrow_process ?P1" by (rule rtranclp.rtrancl_into_rtrancl)
  have p2: "proc_step retry_lib ?P1 ?P2"
    using proc_step.polls [of ?P1 30000000000 100000000 30000000000 retry_lib] r(3) by (simp add: drain_next_def drain_poll_def)
  show ?thesis by (rule that [OF p1 _ p2]) (use r in \<open>simp_all add: frames_def\<close>)
qed

theorem process_stops_witness:
  "\<exists>(P :: process) st n t0. drain_log retry_lib P st n \<and> ps_drainer P = Stopped \<and> n \<le> 301 \<and>
     gw_in_flight (ps_gw P) \<noteq> 0 \<and> st = Some t0 \<and> drain_deadline t0 \<le> ps_now P"
proof -
  obtain P Q ctx where r: "rtranclp (proc_step retry_lib) narrow_process P" "proc_step retry_lib P Q"
    "ps_drainer Q = Stopped" "frames Q = [ChatReply ctx unavailable]" by (rule narrow_exit) (rule that; assumption)
  have q: "rtranclp (proc_step retry_lib) narrow_process Q" using r(1,2) by (rule rtranclp.rtrancl_into_rtrancl)
  have "settled (ps_gw Q) (frames Q)" by (rule driven_settled [OF process_inv(1) [OF narrow_process_start q]])
  then have f: "gw_in_flight (ps_gw Q) = 1" by (simp add: settled_def r(4) in_chat_def ctx_view_def)
  obtain st n where l: "drain_log retry_lib Q st n" using reaches_drain_log [OF q narrow_process_start] by blast
  from process_stops [OF l] r(3) f l show ?thesis by (intro exI [of _ Q] exI [of _ st] exI [of _ n]) auto
qed

theorem exit_uses_destroyed_gateway_witness:
  "\<exists>P :: process. ps_drainer P = Stopped \<and> ps_now P = 30000000000 \<and> use_after_destroy (main_teardown P) \<and>
     main_teardown P = [GatewayDestroyed, Accessed ReleasesTicket, Accessed RecordsTerminal]"
proof -
  obtain P Q ctx where r: "rtranclp (proc_step retry_lib) narrow_process P" "proc_step retry_lib P Q"
    "ps_drainer Q = Stopped" "frames Q = [ChatReply ctx unavailable]" "cx_ticket ctx" "cx_slot ctx = None"
    "cx_code ctx = 503" "ps_now Q = 30000000000" by (rule narrow_exit) (rule that; assumption)
  have q: "rtranclp (proc_step retry_lib) narrow_process Q" using r(1,2) by (rule rtranclp.rtrancl_into_rtrancl)
  have d: "frame_dtors (ChatReply ctx unavailable) = [ReleasesTicket, RecordsTerminal]" using r(5-7) by (simp add: ctx_dtors_def)
  have "use_after_destroy (main_teardown Q)"
    using exit_uses_destroyed_gateway [OF narrow_process_start q r(3)] r(4) d by simp
  moreover have "main_teardown Q = [GatewayDestroyed, Accessed ReleasesTicket, Accessed RecordsTerminal]"
    using d by (simp add: teardown_order r(4))
  ultimately show ?thesis using r(3,8) by blast
qed

end
