(* ===== verification/Process_Health.thy ===== *)
theory Process_Health
  imports Process
begin

text \<open>
  The health monitors inside the process (\<^verbatim>\<open>src/health/checker.cpp\<close>, \<^verbatim>\<open>src/server/gateway.cpp\<close>): the
  health a request sees of a backend is the verdict on the last probe its monitor made, and after
  the signal the monitors run out.
\<close>

section \<open>What only the monitors change\<close>

type_synonym health_entry = "backend_type \<times> health_monitor \<times> health_state option"

definition health_entry :: "backend \<Rightarrow> health_entry" where
  "health_entry b = (bc_type (be_conf b), be_health b, be_forced b)"

definition health_view :: "gateway \<Rightarrow> health_entry list" where
  "health_view gw = map health_entry (gw_backends gw)"

lemma length_view: "length (health_view gw) = length (gw_backends gw)"
  by (simp add: health_view_def)

lemma health_view_backend:
  assumes "\<And>b. health_entry (f b) = health_entry b"
  shows "health_view (update_backend k f gw) = health_view gw"
proof (rule nth_equalityI)
  fix i
  assume "i < length (health_view (update_backend k f gw))"
  then show "health_view (update_backend k f gw) ! i = health_view gw ! i"
    by (cases "i = k") (simp_all add: health_view_def update_backend_def assms)
qed (simp add: health_view_def update_backend_def)

interpretation health: gateway_frame health_view
  by unfold_locales
     (simp_all add: update_breaker_def update_limiter_def health_view_backend health_entry_def,
      simp_all add: health_view_def update_registry_def)

section \<open>The probes of a run\<close>

text \<open>
  A run with the probes made, in order: the backend, what the probe met on the network, and whether
  the signal had been received.
\<close>

type_synonym probe_entry = "nat \<times> probe_net \<times> bool"

definition probing :: "process \<Rightarrow> nat \<Rightarrow> bool" where
  "probing P k \<longleftrightarrow> k < length (gw_backends (ps_gw P)) \<and> ps_monitors P ! k = MProbing"

definition probe_done :: "nat \<Rightarrow> probe_net \<Rightarrow> process \<Rightarrow> process" where
  "probe_done k net P =
     P\<lparr>ps_gw := set_monitor k (probe_once net (be_health (gw_backends (ps_gw P) ! k))) (ps_gw P),
       ps_monitors := (ps_monitors P)[k := MSleeping]\<rparr>"

inductive probe_log :: "lib \<Rightarrow> process \<Rightarrow> probe_entry list \<Rightarrow> bool" for lib where
  started: "proc_start P \<Longrightarrow> probe_log lib P []"
| other: "probe_log lib P l \<Longrightarrow> proc_step lib P Q \<Longrightarrow> (\<And>k. probing P k \<Longrightarrow> probing Q k) \<Longrightarrow> probe_log lib Q l"
| probe: "probe_log lib P l \<Longrightarrow> proc_step lib P (probe_done k net P) \<Longrightarrow> probing P k \<Longrightarrow>
     probe_log lib (probe_done k net P) (l @ [(k, net, ps_drainer P \<noteq> NoSignal)])"

definition probes_of :: "nat \<Rightarrow> probe_entry list \<Rightarrow> probe_net list" where
  "probes_of k l = map (\<lambda>e. fst (snd e)) (filter (\<lambda>e. fst e = k) l)"

definition late_probes :: "nat \<Rightarrow> probe_entry list \<Rightarrow> nat" where
  "late_probes k l = count_if (\<lambda>e. fst e = k \<and> snd (snd e)) l"

lemma probes_of_simps [simp]:
  "probes_of k [] = []" "probes_of k (l @ [(j, net, b)]) = probes_of k l @ (if j = k then [net] else [])"
  "late_probes k [] = 0" "late_probes k (l @ [(j, net, b)]) = late_probes k l + of_bool (j = k \<and> b)"
  by (simp_all add: probes_of_def late_probes_def)

section \<open>Steps and monitors\<close>

definition stop_entry :: "health_entry \<Rightarrow> health_entry" where
  "stop_entry e = (case e of (ty, m, forced) \<Rightarrow> (ty, monitor_stop m, forced))"

lemma view_signal: "health_view (on_signal gw) = map stop_entry (health_view gw)"
  by (simp add: health_view_def health_entry_def stop_entry_def on_signal_def stop_health_monitors_def begin_drain_def)

lemma monitor_step_cases:
  assumes "monitor_resume ev pc m = Some (m', pc')"
  shows "(\<exists>net. pc = MProbing \<and> m' = probe_once net m \<and> pc' = MSleeping) \<or>
    pc \<noteq> MProbing \<and> m' = m \<and> (pc' = MProbing \<longrightarrow> \<not> hm_stopped m)"
  using assms
  by (cases "(ev, pc, m)" rule: monitor_resume.cases) (auto simp: monitor_head_def split: if_splits)

text \<open>A step that completes no probe: monitors stay in their probes, and begin one only if not stopped.\<close>

definition quiet :: "process \<Rightarrow> process \<Rightarrow> bool" where
  "quiet P Q \<longleftrightarrow>
     (\<forall>k. probing P k \<longrightarrow> probing Q k) \<and> length (ps_monitors Q) = length (ps_monitors P) \<and>
     (\<forall>k. probing Q k \<longrightarrow> probing P k \<or> \<not> hm_stopped (be_health (gw_backends (ps_gw P) ! k))) \<and>
     (ps_drainer P = NoSignal \<and> ps_drainer Q \<noteq> NoSignal \<and> health_view (ps_gw Q) = map stop_entry (health_view (ps_gw P)) \<or>
      (ps_drainer Q = NoSignal \<longleftrightarrow> ps_drainer P = NoSignal) \<and> health_view (ps_gw Q) = health_view (ps_gw P))"

lemma quiet_same:
  assumes "health_view (ps_gw Q) = health_view (ps_gw P)" "ps_monitors Q = ps_monitors P"
    "ps_drainer Q = NoSignal \<longleftrightarrow> ps_drainer P = NoSignal"
  shows "quiet P Q"
  using assms length_view [of "ps_gw P"] length_view [of "ps_gw Q"] by (simp add: quiet_def probing_def)

lemma proc_step_health:
  assumes "proc_step lib P Q"
  shows "(\<exists>k net. probing P k \<and> Q = probe_done k net P) \<or> quiet P Q"
  using assms
proof cases
  case (reads t i k c req gw g c')
  have "health_view gw = health_view (ps_gw P)"
    using reads(7) health.obs_handle [of lib "ps_next P" t "fst req" "snd req" "ps_gw P"]
    by (auto simp: conn_read_def split: prod.splits)
  with reads(1) show ?thesis by (intro disjI2 quiet_same) simp_all
next
  case (resumes t i k c wk gw g c')
  obtain p q where "resume lib k t wk p (ps_gw P) = Some (gw, g, q)"
    using resumes(6) by (auto simp: conn_resume_def split: conn_state.splits)
  from health.obs_resume [OF this] resumes(1) show ?thesis by (intro disjI2 quiet_same) simp_all
next
  case (monitored k ev m pc)
  from monitor_step_cases [OF monitored(4)] show ?thesis
  proof
    assume "\<exists>net. ps_monitors P ! k = MProbing \<and>
      m = probe_once net (be_health (gw_backends (ps_gw P) ! k)) \<and> pc = MSleeping"
    with monitored(1,3) show ?thesis by (auto simp: probing_def probe_done_def)
  next
    assume a: "ps_monitors P ! k \<noteq> MProbing \<and> m = be_health (gw_backends (ps_gw P) ! k) \<and>
      (pc = MProbing \<longrightarrow> \<not> hm_stopped (be_health (gw_backends (ps_gw P) ! k)))"
    then have "probing Q j \<Longrightarrow> probing P j \<or> \<not> hm_stopped (be_health (gw_backends (ps_gw P) ! j))" for j
      using monitored(1) by (cases "j = k"; cases "k < length (ps_monitors P)")
        (auto simp: probing_def set_monitor_same list_update_beyond)
    moreover have "probing P j \<Longrightarrow> probing Q j" for j
      using a monitored(1) by (cases "j = k") (auto simp: probing_def set_monitor_same)
    ultimately show ?thesis using a monitored(1) by (simp add: quiet_def set_monitor_same)
  qed
next
  case (signalled t)
  have "length (gw_backends (on_signal (ps_gw P))) = length (gw_backends (ps_gw P))"
    by (metis length_view view_signal length_map)
  with signalled show ?thesis
    by (auto simp: quiet_def probing_def view_signal drain_next_def split: option.splits)
next
  case (polls deadline expiry t)
  then show ?thesis by (intro disjI2 quiet_same) (auto simp: drain_next_def split: option.splits)
qed (intro disjI2 quiet_same; simp)+

section \<open>The invariant of the monitors\<close>

definition entry_ok :: "health_entry \<Rightarrow> probe_net list \<Rightarrow> bool" where
  "entry_ok e nets \<longleftrightarrow>
     (case e of (ty, m, forced) \<Rightarrow> forced = None \<and> hm_type m = ty \<and>
        (if nets = [] then hm_state m = Dead else documented_health ty (last nets) (hm_state m)))"

definition entry_stopped :: "health_entry \<Rightarrow> bool" where
  "entry_stopped e = hm_stopped (fst (snd e))"

definition monitors_inv :: "process \<Rightarrow> probe_entry list \<Rightarrow> bool" where
  "monitors_inv P l \<longleftrightarrow> length (ps_monitors P) = length (gw_backends (ps_gw P)) \<and>
     (\<forall>k < length (gw_backends (ps_gw P)). entry_ok (health_view (ps_gw P) ! k) (probes_of k l) \<and>
        (if ps_drainer P = NoSignal then late_probes k l = 0
         else entry_stopped (health_view (ps_gw P) ! k) \<and> late_probes k l + of_bool (probing P k) \<le> 1))"

lemma view_nth: "k < length (gw_backends gw) \<Longrightarrow> health_view gw ! k = health_entry (gw_backends gw ! k)"
  by (simp add: health_view_def)

lemma entry_stopped_nth:
  "k < length (gw_backends gw) \<Longrightarrow> entry_stopped (health_view gw ! k) = hm_stopped (be_health (gw_backends gw ! k))"
  by (simp add: view_nth entry_stopped_def health_entry_def)

lemma entry_stop: "entry_ok (stop_entry e) nets = entry_ok e nets" "entry_stopped (stop_entry e)"
  by (auto simp: entry_ok_def entry_stopped_def stop_entry_def monitor_stop_def split: prod.splits)

lemma monitors_quiet:
  assumes "quiet P Q" "monitors_inv P l"
  shows "monitors_inv Q l"
proof -
  let ?n = "length (gw_backends (ps_gw P))"
  have n: "length (gw_backends (ps_gw Q)) = ?n"
    using assms(1) length_view [of "ps_gw P"] length_view [of "ps_gw Q"] unfolding quiet_def by auto
  have "entry_ok (health_view (ps_gw Q) ! k) (probes_of k l) \<and>
      (if ps_drainer Q = NoSignal then late_probes k l = 0
       else entry_stopped (health_view (ps_gw Q) ! k) \<and> late_probes k l + of_bool (probing Q k) \<le> 1)"
    if k: "k < ?n" for k
  proof -
    note inv = assms(2) [unfolded monitors_inv_def, THEN conjunct2, rule_format, OF k]
    have pr: "probing Q k \<Longrightarrow> probing P k \<or> \<not> entry_stopped (health_view (ps_gw P) ! k)"
      using assms(1) k by (simp add: quiet_def entry_stopped_nth)
    show ?thesis
    proof (cases "ps_drainer P = NoSignal \<and> ps_drainer Q \<noteq> NoSignal")
      case True
      then have "health_view (ps_gw Q) ! k = stop_entry (health_view (ps_gw P) ! k)"
        using assms(1) k length_view [of "ps_gw P"] unfolding quiet_def by auto
      with True inv show ?thesis by (simp add: entry_stop)
    next
      case False
      then have "health_view (ps_gw Q) = health_view (ps_gw P)" "ps_drainer Q = NoSignal \<longleftrightarrow> ps_drainer P = NoSignal"
        using assms(1) unfolding quiet_def by blast+
      with inv pr show ?thesis by (cases "probing Q k") (auto split: if_splits)
    qed
  qed
  moreover have "length (ps_monitors Q) = ?n" using assms by (simp add: monitors_inv_def quiet_def)
  ultimately show ?thesis unfolding monitors_inv_def n by blast
qed

lemma monitors_probe:
  assumes "probing P k" "monitors_inv P l"
  shows "monitors_inv (probe_done k net P) (l @ [(k, net, ps_drainer P \<noteq> NoSignal)])"
proof -
  let ?n = "length (gw_backends (ps_gw P))" and ?Q = "probe_done k net P"
  have k: "k < ?n" using assms(1) by (simp add: probing_def)
  have len: "length (ps_monitors P) = ?n" using assms(2) by (simp add: monitors_inv_def)
  have old: "entry_ok (health_view (ps_gw P) ! j) (probes_of j l) \<and>
      (if ps_drainer P = NoSignal then late_probes j l = 0
       else entry_stopped (health_view (ps_gw P) ! j) \<and> late_probes j l + of_bool (probing P j) \<le> 1)"
    if "j < ?n" for j using assms(2) that unfolding monitors_inv_def by blast
  have v: "health_view (ps_gw ?Q) ! j = (if j = k then
      (fst (health_view (ps_gw P) ! k), probe_once net (fst (snd (health_view (ps_gw P) ! k))), snd (snd (health_view (ps_gw P) ! k)))
      else health_view (ps_gw P) ! j)" if "j < ?n" for j
    using that k by (simp add: probe_done_def set_monitor_def update_backend_def health_view_def health_entry_def)
  have ok: "entry_ok (health_view (ps_gw ?Q) ! j) (probes_of j (l @ [(k, net, b)]))" if "j < ?n" for j b
    using old [OF that] probe_once_documented [of "fst (snd (health_view (ps_gw P) ! k))" net] v [OF that]
    by (auto simp: entry_ok_def frame_simps split: prod.splits)
  have st: "entry_stopped (health_view (ps_gw ?Q) ! j) = entry_stopped (health_view (ps_gw P) ! j)" if "j < ?n" for j
    using v [OF that] by (auto simp: entry_stopped_def frame_simps)
  have pr: "probing ?Q j \<longleftrightarrow> probing P j \<and> j \<noteq> k" for j
    using k len by (auto simp: probing_def probe_done_def set_monitor_def update_backend_def nth_list_update)
  have d: "ps_drainer ?Q = ps_drainer P" "length (gw_backends (ps_gw ?Q)) = ?n" "length (ps_monitors ?Q) = ?n"
    using len by (simp_all add: probe_done_def set_monitor_def update_backend_def)
  have late: "if ps_drainer P = NoSignal then late_probes j (l @ [(k, net, ps_drainer P \<noteq> NoSignal)]) = 0
       else entry_stopped (health_view (ps_gw ?Q) ! j) \<and>
         late_probes j (l @ [(k, net, ps_drainer P \<noteq> NoSignal)]) + of_bool (probing ?Q j) \<le> 1" if "j < ?n" for j
    using old [OF that] assms(1) st [OF that] by (cases "j = k") (auto simp: pr split: if_splits)
  show ?thesis unfolding monitors_inv_def d using ok late by blast
qed

lemma new_backend_entry: "new_backend bc = Inr b \<Longrightarrow> entry_ok (health_entry b) []"
  by (auto simp: new_backend_def entry_ok_def health_entry_def new_monitor_def result_bind_def split: sum.splits)

lemma monitors_start:
  assumes "proc_start P"
  shows "monitors_inv P []"
proof -
  obtain cfg gw t where P: "P = new_process t gw" "new_gateway cfg = Inr gw"
    using assms main_serve unfolding proc_start_def gw_start_def by fastforce
  have "entry_ok (health_view gw ! k) []" if "k < length (gw_backends gw)" for k
    using that new_gateway_backends [OF P(2)]
    by (auto simp: view_nth list_all2_conv_all_nth intro: new_backend_entry)
  with P(1) show ?thesis by (simp add: monitors_inv_def new_process_def start_health_monitors_def)
qed

lemma probe_log_inv: "probe_log lib P l \<Longrightarrow> monitors_inv P l"
proof (induction rule: probe_log.induct)
  case (other P l Q)
  have "\<not> (\<exists>k net. probing P k \<and> Q = probe_done k net P)"
  proof
    assume "\<exists>k net. probing P k \<and> Q = probe_done k net P"
    then obtain k net where "probing P k" "Q = probe_done k net P" by blast
    with other(3) [of k] other(4) show False by (simp add: probing_def probe_done_def monitors_inv_def)
  qed
  with proc_step_health [OF other(2)] other(4) monitors_quiet show ?case by blast
qed (simp_all add: monitors_start monitors_probe)

lemma probe_log_reaches: "rtranclp (proc_step lib) P0 P \<Longrightarrow> proc_start P0 \<Longrightarrow> \<exists>l. probe_log lib P l"
proof (induction rule: rtranclp_induct)
  case (step P Q)
  then obtain l where l: "probe_log lib P l" by blast
  from proc_step_health [OF step(2)] show ?case
  proof
    assume "\<exists>k net. probing P k \<and> Q = probe_done k net P"
    with probe_log.probe [OF l] step(2) show ?thesis by blast
  next
    assume "quiet P Q"
    with probe_log.other [OF l step(2)] show ?thesis by (auto simp: quiet_def)
  qed
qed (blast intro: probe_log.started)

section \<open>Properties\<close>

text \<open>
  C21: Requests go by the last probe.  In every run of the process a backend is a candidate for a request
  only if its monitor has probed it and the last probe met what its type documents as healthy; the
  observed state is always the documented verdict on the last probe, \<open>Dead\<close> before the first; and
  after the signal a monitor completes at most the one probe it is in.
\<close>

theorem health_is_last_probe:
  assumes "probe_log lib P l" "k < length (gw_backends (ps_gw P))"
  shows "(if probes_of k l = [] then observed_health (gw_backends (ps_gw P) ! k) = Dead
      else documented_health (bc_type (be_conf (gw_backends (ps_gw P) ! k))) (last (probes_of k l))
        (observed_health (gw_backends (ps_gw P) ! k))) \<and>
    (k \<in> set (map backend_index (eligible_candidates (backends_for_model model (ps_gw P)) (ps_gw P))) \<longrightarrow>
      probes_of k l \<noteq> [] \<and>
      documented_health (bc_type (be_conf (gw_backends (ps_gw P) ! k))) (last (probes_of k l)) Healthy) \<and>
    late_probes k l \<le> 1"
proof -
  let ?b = "gw_backends (ps_gw P) ! k"
  have ok: "entry_ok (health_entry ?b) (probes_of k l)" and late: "late_probes k l \<le> 1"
    using probe_log_inv [OF assms(1)] assms(2) by (auto simp: monitors_inv_def view_nth split: if_splits)
  from ok have s: "observed_health ?b = hm_state (be_health ?b)" by (simp add: entry_ok_def health_entry_def observed_health_def)
  have "k \<in> set (map backend_index (eligible_candidates (backends_for_model model (ps_gw P)) (ps_gw P))) \<Longrightarrow>
      observed_health ?b = Healthy" by (auto simp: eligible_candidates_def)
  with ok late s show ?thesis by (auto simp: entry_ok_def health_entry_def split: if_splits)
qed

text \<open>One probe of the backend of the narrow configuration, answered 200.\<close>

definition probed_process :: process where
  "probed_process = probe_done 0 (\<lambda>_. UResponse 200 []) (narrow_process\<lparr>ps_monitors := [MProbing]\<rparr>)"

lemma narrow_backend:
  "\<not> hm_stopped (be_health (gw_backends narrow_gateway ! 0))" "bc_type (be_conf (gw_backends narrow_gateway ! 0)) = Vllm"
  by (simp_all add: narrow_gateway_def new_gateway_def narrow_config_def example_config_def
      default_config_def default_backend_def new_backend_def parse_target_def strip_scheme_def starts_with_def
      strip_path_def split_port_def new_monitor_def)

lemma probed_log: "probe_log retry_lib probed_process [(0, \<lambda>_. UResponse 200 [], False)]"
proof -
  have len: "length (gw_backends narrow_gateway) = 1" using narrow_gateway(1) by (simp add: narrow_def)
  have mon: "ps_monitors narrow_process = [MSpawned]"
    using len by (simp add: narrow_process_def new_process_def start_health_monitors_def length_Suc_conv) auto
  let ?P = "narrow_process\<lparr>ps_monitors := [MProbing]\<rparr>"
  have "proc_step retry_lib narrow_process ?P"
    using proc_step.monitored [of narrow_process 0 MBegin "be_health (gw_backends narrow_gateway ! 0)" MProbing retry_lib]
      len mon narrow_backend(1)
    by (simp add: narrow_process_def new_process_def monitor_head_def set_monitor_same)
  moreover have "\<not> probing narrow_process j" for j
    using len mon by (auto simp: probing_def narrow_process_def new_process_def)
  ultimately have p: "probe_log retry_lib ?P []"
    using probe_log.other [OF probe_log.started [OF narrow_process_start]] by blast
  have pr: "probing ?P 0" using len by (simp add: probing_def narrow_process_def new_process_def)
  have d: "ps_drainer ?P = NoSignal" by (simp add: narrow_process_def new_process_def)
  have "proc_step retry_lib ?P (probe_done 0 (\<lambda>_. UResponse 200 []) ?P)"
    unfolding probe_done_def by (rule proc_step.monitored [where ev = "MProbe (\<lambda>_. UResponse 200 [])"]) (use pr d in \<open>simp_all add: probing_def\<close>)
  from probe_log.probe [OF p this pr] d show ?thesis by (simp add: probed_process_def)
qed

theorem health_is_last_probe_witness:
  "documented_health Vllm (\<lambda>_. UResponse 200 []) (observed_health (gw_backends (ps_gw probed_process) ! 0)) \<and>
   late_probes 0 [(0, \<lambda>_. UResponse 200 [], False)] \<le> 1"
proof -
  have len: "length (gw_backends (ps_gw probed_process)) = 1"
    using narrow_gateway(1)
    by (simp add: narrow_def probed_process_def probe_done_def set_monitor_def update_backend_def narrow_process_def new_process_def)
  have "bc_type (be_conf (gw_backends (ps_gw probed_process) ! 0)) = Vllm"
    using narrow_backend(2) narrow_gateway(1)
    by (simp add: narrow_def probed_process_def probe_done_def set_monitor_def update_backend_def narrow_process_def new_process_def)
  with health_is_last_probe [OF probed_log, of 0] len show ?thesis by (simp add: probes_of_def)
qed

end
