(* ===== verification/Spec2Isabelle.thy ===== *)
theory Spec2Isabelle
  imports Kvmux_Prelude Sse_Parser Sse_Writer Circuit_Breaker Admission Doubles Openai Routing
    Config Health Metrics Upstream_Client Gateway Gateway_Ledger Gateway_Frame Gateway_Dispatch
    Gateway_Session Gateway_Law Gateway_Accounting Gateway_Fragile Gateway_Blackout Gateway_Breakers Gateway_Stream Gateway_Example
    Gateway_Queue Gateway_Telemetry Gateway_Routes Gateway_Progress Server Raii Upstream_Budget Process
    Process_Exit Process_Health
begin

text \<open>
  kvmux is an OpenAI-compatible gateway in front of several LLM servers.  A process reads a TOML
  file, listens on two ports, and relays chat requests: it parses the request, admits it through a
  global gate, picks a backend (healthy, serving the model, allowed by its circuit breaker, below its
  cap) by a routing policy, calls it, and re-streams its server-sent events to the client, with one
  failover to another backend as long as nothing was sent.  This development models the program under
  \<^verbatim>\<open>src/src\<close> and proves what makes it correct.

  \<^bold>\<open>Parts and theories.\<close>  Each theory models the files it names, one definition per function or
  method, with the source's names where HOL allows them.

  \<^item> \<open>Kvmux_Prelude\<close>: types, the pieces of the C++ library several parts use (string search, decimal
    printing, \<open>std::map\<close> as a key-sorted association list), counting of holders in a list, the
    locale \<open>step_invariant\<close> through which every state machine gets its invariant.
  \<^item> \<open>Sse_Parser\<close> (\<^verbatim>\<open>upstream/sse_parser\<close>): the incremental parser refines a specification on the
    whole text, however the bytes are cut.  \<open>Sse_Writer\<close> (\<^verbatim>\<open>server/sse_writer\<close>): frames, and that the
    parser reads them back.
  \<^item> \<open>Circuit_Breaker\<close> (\<^verbatim>\<open>health/circuit_breaker\<close>): the automaton, and requests around one breaker as
    a step relation.
  \<^item> \<open>Admission\<close> (\<^verbatim>\<open>admission/controller\<close>): the compare-and-swap limiter at the grain of its atomic
    operations, the gate with its FIFO queue and timers; the locales \<open>limiter_ledger\<close> and
    \<open>gate_ledger\<close> are what a client of the two needs to keep count of holders.  \<open>Raii\<close> (same files): the
    move-only owners \<open>BackendSlot\<close> and \<open>Ticket\<close> as objects that are moved, assigned and destroyed,
    over the locale \<open>owned_resource\<close>.
  \<^item> \<open>Doubles\<close>: binary64 values with rounding to nearest even, for the load guard and the metrics.
  \<^item> \<open>Openai\<close> (\<^verbatim>\<open>openai/*\<close>): request validation and error objects over JSON values.
  \<^item> \<open>Routing\<close> (\<^verbatim>\<open>routing/*\<close>): round robin with its wrapping cursor, prefix affinity with rendezvous
    hashing and load guard; the locale \<open>route_policy\<close> is the contract of both.
  \<^item> \<open>Config\<close> (\<^verbatim>\<open>config\<close>): from a TOML tree to a configuration, every check and message; sound and
    complete for the documented bounds.
  \<^item> \<open>Health\<close> (\<^verbatim>\<open>health/checker\<close>), \<open>Metrics\<close> (\<^verbatim>\<open>metrics/registry\<close>): probe verdicts and the monitor
    loop; histograms, counters and their text form.
  \<^item> \<open>Upstream_Client\<close> (\<^verbatim>\<open>upstream/client\<close>): URL parsing, request rewriting, and the calls over a
    scripted exchange.  \<open>Upstream_Budget\<close>: the same calls in time, \<open>connect\<close> and the deadlines; the
    exchange is derived from how long each operation of a peer takes.
  \<^item> \<open>Gateway\<close> (\<^verbatim>\<open>server/gateway\<close>): the state and the handlers.  \<open>handle\<close> is a coroutine on one thread,
    so what runs between two suspension points is atomic: each such segment is a function from the
    gateway and the coroutine's locals (\<open>chat_ctx\<close>) to the gateway, the waiter a released ticket
    granted, and the next suspension point (\<open>session\<close>).  \<open>resume\<close> continues a suspended request.
  \<^item> \<open>Gateway_Ledger\<close>: any number of requests at once as the step relation \<open>gw_step\<close>, and the ledger
    of slots, tickets and in-flight requests.  \<open>Gateway_Frame\<close>: what no segment changes (locale
    \<open>gateway_frame\<close>).  \<open>Gateway_Law\<close>: the locale \<open>handler_law\<close> carries a law about the gateway and the
    handler's locals through every segment once; the later theories interpret it.
    \<open>Gateway_Dispatch\<close>: which backend a request goes to.  \<open>Gateway_Session\<close>: one request from arrival
    to end in an arbitrary environment; every request of the system is such a run.
    \<open>Gateway_Accounting\<close>: what a request leaves in \<open>requests_total\<close>.  \<open>Gateway_Blackout\<close>: what a
    breaker that denies does for its backend, and what a half-open probe that is never reported does
    to the system.  \<open>Gateway_Breakers\<close>: the gateway refines the step relation of every breaker.
    \<open>Gateway_Stream\<close>: upstream client, sink, writer and closing writes composed.
    \<open>Gateway_Example\<close>, \<open>Gateway_Fragile\<close>: two runs from the start that the witnesses use, one with a
    queue and one in which a breaker opens.  \<open>Gateway_Queue\<close>: the gateway refines the step relation of the gate, with its
    queue order.  \<open>Gateway_Telemetry\<close>: totals of the registry.  \<open>Gateway_Routes\<close>: conversations stay
    on their backend, the model list.  \<open>Gateway_Progress\<close>: a measure of the work left; no deadlock.
  \<^item> \<open>Server\<close> (\<^verbatim>\<open>server/listener\<close>, \<^verbatim>\<open>main\<close>): the keep-alive loop of a connection, accept loops, the
    metrics endpoint, start-up, signal and drain poller.
  \<^item> \<open>Process\<close> (\<^verbatim>\<open>main\<close>): everything \<open>main\<close> spawns on its io_context as one step relation, \<open>proc_step\<close>:
    listeners, connections, health monitors, scrapes, the signal handler and the poller.  It refines
    the gateway system.  \<open>Process_Exit\<close>: the drain in time, and the destructors at the end of
    \<open>main\<close>.  \<open>Process_Health\<close>: the monitors inside the process.

  \<^bold>\<open>What the theorems show.\<close>  End to end: a stream reaches the client complete and in order, with an
  error event exactly when the upstream did not finish.  The process: responses on its connections
  never run into each other; every counter stays equal to its holders, within the limits of the
  loaded file; requests are admitted from the queue in the order they joined it; breakers hear of each
  call at most once and, while they deny, keep every request off their backend; a backend gets
  requests only after a healthy probe, and the same conversation goes to the same backend; from
  every state the requests can all end, in a bounded number of turns; after a signal the process
  stops within its deadline.  Per request: at most two upstream calls, none after the first byte, at
  most five turns, one count per response.  Per component: the results listed with each theory.  Some
  theorems state a defect, where the code does not do what it means to or what its comments say: the
  lost half-open probe, the gateway destroyed before the handlers that use it, the timed-out call
  answered 200, the stream budget that only bounds silence, the gauge that never returns to zero,
  the empty-stream branch.

  \<^bold>\<open>Bounds and fuel.\<close>  No definition uses fuel: loops recurse on the list they consume (bytes, events,
  candidates, reads, polls).  A call on the network consumes a script of reads and yields \<open>None\<close> only
  if the script ends before the call does; \<open>script_complete\<close> rules that out, and the theorems prove
  that the call then returns.  Counters of the registry and the routing cursor are 64-bit words, ports
  16-bit words; other integers are compared with the bounds the configuration enforces.  \<open>2 ^ 64\<close>
  bounds the number of backends where the cursor's arithmetic needs it.

  \<^bold>\<open>Parameters.\<close>  nlohmann's \<open>parse\<close> and \<open>dump\<close> (which may fail), XXH64, the TOML parser and its
  test for arrays of tables, file reading and \<open>make_address\<close> are arguments of the definitions.

  \<^bold>\<open>Not modelled.\<close>  Sockets, HTTP framing and timers of Boost are represented by what they deliver: reads,
  completions, failures, timeouts, the passing of time.  A segment reads the clock once where the
  code reads it several times without suspending.  The closing writes of a stream are one turn, the
  two requests of an Ollama probe one probe.  A metrics connection is one scrape.  The order in which
  the io_context runs what is ready is left open.  Log lines of the listeners and the signal handler,
  socket options, header fields other than status, keep-alive and retry-after, and destructors that
  only free memory are left out.  Every other function body of the program has its definition here; the
  lines without one are includes, namespaces, declarations, one-line accessors, constructors that store
  their arguments, and comments.
\<close>

section \<open>The whole process\<close>

text \<open>The gateway system \<open>main\<close> starts, whatever drives it.\<close>

theorem served_gateway_settled:
  assumes "main_start read_file parse is_aot make_address args = Serve cfg gw pt mpt out"
    and "length (cfg_backends cfg) < 2 ^ 64"
    and "rtranclp (gw_step lib) \<lparr>sys_gw = gw, sessions = [], sys_now = t0\<rparr> s"
  shows "settled (sys_gw s) (sessions s) \<and> configured cfg (sys_gw s)"
proof -
  let ?s0 = "\<lparr>sys_gw = gw, sessions = [], sys_now = t0\<rparr>"
  have start: "gw_start ?s0" using main_serve [OF assms(1,2)] by blast
  have "gw_cfg gw = cfg" by (rule main_serve_cfg [OF assms(1)])
  with start request_runs.reachable_inv [of ?s0 cfg lib s] assms(3)
  have "configured cfg (sys_gw s)" by (simp add: all_runs_def)
  with sys_inv_settled [OF gateway_sys.reachable_inv [OF start assms(3)]] show ?thesis by simp
qed

text \<open>
  C32: From the command line to the last request.  Whatever configuration file the process was
  started with: if it gets as far as serving, then in every state it can reach, whatever its clients,
  its backends, its timers and its signals do and in whatever order, every limiter, the gate and the
  in-flight counter equal the number of handlers suspended on its connections that hold them, within
  the limits of that file.
\<close>

theorem process_settled:
  assumes "main_start read_file parse is_aot make_address args = Serve cfg gw pt mpt out"
    and "length (cfg_backends cfg) < 2 ^ 64"
    and "rtranclp (proc_step lib) (new_process t0 gw) P"
  shows "settled (ps_gw P) (frames P) \<and> configured cfg (ps_gw P)"
proof -
  have start: "proc_start (new_process t0 gw)" unfolding proc_start_def using assms(1,2) by blast
  have "gw_cfg (ps_gw (new_process t0 gw)) = cfg" using main_serve_cfg [OF assms(1)] by (simp add: new_process_def)
  with process_inv(1) [OF start assms(3)] have "driven lib cfg P" by simp
  then show ?thesis using driven_settled driven_configured by blast
qed

theorem process_settled_witness:
  "\<exists>(P :: process) p. frames P = [p] \<and> holds_ticket p \<and> settled (ps_gw P) (frames P) \<and> configured narrow_config (ps_gw P)"
proof -
  obtain P ctx where r: "rtranclp (proc_step retry_lib) narrow_process P" "frames P = [ChatReply ctx unavailable]"
    "cx_ticket ctx" by (rule narrow_process_run) (rule that; assumption)
  have "length (cfg_backends narrow_config) < 2 ^ 64" by (simp add: narrow_config_def example_config_def)
  from process_settled [OF narrow_main this, of retry_lib 0 P] r(1)
  have "settled (ps_gw P) (frames P) \<and> configured narrow_config (ps_gw P)" by (simp add: narrow_process_def)
  moreover have "holds_ticket (ChatReply ctx unavailable)" using r(3) by (simp add: holds_ticket_def ctx_view_def)
  ultimately show ?thesis using r(2) by blast
qed

end
